(* ===== verification/Hx_Prelude.thy ===== *)
theory Hx_Prelude
  imports Main "HOL-Library.Word"
begin

text \<open>
  Shared vocabulary of the development: Go's unsigned integers as machine words, byte
  strings, the result type of fallible Go functions together with its sequencing
  operation, the little- and big-endian packing of \<^verbatim>\<open>encoding/binary\<close>, and the generic
  list lemmas the component theories use.
\<close>

unbundle bit_operations_syntax

type_synonym u8 = "8 word"
type_synonym u16 = "16 word"
type_synonym u32 = "32 word"
type_synonym u64 = "64 word"
type_synonym bytes = "u8 list"

named_theorems byte_eval \<open>equations that evaluate byte packing on closed terms\<close>
named_theorems reader_eqs \<open>readers written as a test on the unread bytes\<close>

section \<open>Fallible results\<close>

text \<open>
  A Go function returning \<^verbatim>\<open>(T, error)\<close> is a value of \<open>'e + 'a\<close>. \<open>bindr\<close> is the
  \<^verbatim>\<open>if err != nil { return err }\<close> idiom between two calls.
\<close>

definition bindr :: "'e + 'a \<Rightarrow> ('a \<Rightarrow> 'e + 'b) \<Rightarrow> 'e + 'b" where
  "bindr m f = (case m of Inl e \<Rightarrow> Inl e | Inr x \<Rightarrow> f x)"

lemma bindr_simps [simp]:
  "bindr (Inl e) f = Inl e"
  "bindr (Inr x) f = f x"
  by (simp_all add: bindr_def)

lemma bindr_cong [fundef_cong]:
  "m = m' \<Longrightarrow> (\<And>x. m' = Inr x \<Longrightarrow> f x = g x) \<Longrightarrow> bindr m f = bindr m' g"
  by (cases m') auto

lemma bindr_eq_Inr_iff: "bindr m f = Inr y \<longleftrightarrow> (\<exists>x. m = Inr x \<and> f x = Inr y)"
  by (cases m) auto

lemma bindr_eq_Inl_iff: "bindr m f = Inl e \<longleftrightarrow> m = Inl e \<or> (\<exists>x. m = Inr x \<and> f x = Inl e)"
  by (cases m) auto

lemma bindr_InrE [elim!]:
  assumes "bindr m f = Inr y"
  obtains x where "m = Inr x" "f x = Inr y"
  using assms by (auto simp: bindr_eq_Inr_iff)

lemma bindr_if [simp]: "bindr (if b then m else m') f = (if b then bindr m f else bindr m' f)"
  by simp

section \<open>Byte packing\<close>

text \<open>
  \<open>le_bytes n w\<close> is what \<^verbatim>\<open>binary.LittleEndian.PutUintN\<close> stores in \<open>n\<close> bytes and
  \<open>le_word\<close> what \<^verbatim>\<open>binary.LittleEndian.UintN\<close> reads back; the big-endian pair reverses
  the byte order.
\<close>

fun le_bytes :: "nat \<Rightarrow> 'a::len word \<Rightarrow> bytes" where
  "le_bytes 0 w = []"
| "le_bytes (Suc n) w = ucast w # le_bytes n (drop_bit 8 w)"

fun le_word :: "bytes \<Rightarrow> 'a::len word" where
  "le_word [] = 0"
| "le_word (b # bs) = ucast b OR push_bit 8 (le_word bs)"

definition be_bytes :: "nat \<Rightarrow> 'a::len word \<Rightarrow> bytes" where
  "be_bytes n w = rev (le_bytes n w)"

definition be_word :: "bytes \<Rightarrow> 'a::len word" where
  "be_word bs = le_word (rev bs)"

lemma le_bytes_numeral [byte_eval]:
  "le_bytes (numeral k) w = ucast w # le_bytes (pred_numeral k) (drop_bit 8 w)"
  by (simp add: numeral_eq_Suc)

lemma replicate_numeral_Cons: "replicate (numeral k) x = x # replicate (pred_numeral k) x"
  by (simp add: numeral_eq_Suc)

lemmas byte_eval_defs [byte_eval] = be_bytes_def be_word_def

lemma length_le_bytes [simp]: "length (le_bytes n w) = n"
  by (induction n arbitrary: w) auto

lemma length_be_bytes [simp]: "length (be_bytes n w) = n"
  by (simp add: be_bytes_def)

lemma le_bytes_eq_Nil_iff [simp]: "le_bytes n w = [] \<longleftrightarrow> n = 0"
  by (cases n) auto

lemma bit_byte_above [simp]: "8 \<le> n \<Longrightarrow> \<not> bit (b :: u8) n"
  using bit_imp_le_length [of b n] by auto

lemma bit_u16_above [simp]: "16 \<le> n \<Longrightarrow> \<not> bit (b :: u16) n"
  using bit_imp_le_length [of b n] by auto

lemma bit_u32_above [simp]: "32 \<le> n \<Longrightarrow> \<not> bit (b :: u32) n"
  using bit_imp_le_length [of b n] by auto

lemma low16_mask: "(0xFFFF :: 'a::len word) = mask 16"
  by (simp add: mask_eq_exp_minus_1)

lemma le_word_le_bytes_take: "le_word (le_bytes n w) = take_bit (8 * n) w"
proof (induction n arbitrary: w)
  case 0
  then show ?case by simp
next
  case (Suc n)
  show ?case
    by (rule bit_word_eqI) (auto simp: Suc.IH bit_simps)
qed

lemma le_word_le_bytes [simp]:
  "LENGTH('a) \<le> 8 * n \<Longrightarrow> le_word (le_bytes n (w :: 'a::len word)) = w"
  by (simp add: le_word_le_bytes_take take_bit_word_eq_self)

lemma be_word_be_bytes [simp]:
  "LENGTH('a) \<le> 8 * n \<Longrightarrow> be_word (be_bytes n (w :: 'a::len word)) = w"
  by (simp add: be_word_def be_bytes_def)

lemma le_bytes_take_bit: "8 * n \<le> m \<Longrightarrow> le_bytes n (take_bit m w) = le_bytes n w"
proof (induction n arbitrary: m w)
  case 0
  then show ?case by simp
next
  case (Suc n)
  have "drop_bit 8 (take_bit m w) = take_bit (m - 8) (drop_bit 8 w)"
    by (simp add: drop_bit_take_bit)
  moreover have "ucast (take_bit m w) = (ucast w :: u8)"
    using Suc.prems by (intro bit_word_eqI) (auto simp: bit_simps)
  ultimately show ?case using Suc by simp
qed

lemma le_bytes_le_word [simp]:
  "length bs = n \<Longrightarrow> 8 * n \<le> LENGTH('a) \<Longrightarrow> le_bytes n (le_word bs :: 'a::len word) = bs"
proof (induction bs arbitrary: n)
  case Nil
  then show ?case by simp
next
  case (Cons b bs)
  then obtain k where k: "n = Suc k" "length bs = k" by auto
  have low: "ucast (ucast b OR push_bit 8 (le_word bs) :: 'a word) = b"
    using Cons.prems by (intro bit_word_eqI) (auto simp: bit_simps)
  have high: "drop_bit 8 (ucast b OR push_bit 8 (le_word bs) :: 'a word)
      = take_bit (LENGTH('a) - 8) (le_word bs)"
    by (rule bit_word_eqI) (auto simp: bit_simps)
  have "8 * k \<le> LENGTH('a) - 8" using Cons.prems k by simp
  then have "le_bytes k (take_bit (LENGTH('a) - 8) (le_word bs :: 'a word)) = bs"
    using Cons.IH [of k] k by (simp add: le_bytes_take_bit)
  then show ?case by (simp only: k le_bytes.simps le_word.simps low high)
qed

lemma take_le_bytes: "n \<le> m \<Longrightarrow> take n (le_bytes m w) = le_bytes n w"
proof (induction n arbitrary: m w)
  case 0
  then show ?case by simp
next
  case (Suc n)
  then show ?case by (cases m) auto
qed

lemma drop_le_bytes: "drop n (le_bytes m w) = le_bytes (m - n) (drop_bit (8 * n) w)"
proof (induction n arbitrary: m w)
  case 0
  then show ?case by simp
next
  case (Suc n)
  then show ?case by (cases m) (auto simp: drop_bit_drop_bit add.commute)
qed

lemma le_bytes_zero [simp]: "le_bytes n 0 = replicate n 0"
  by (induction n) auto

lemma le_word_replicate_zero [simp]: "le_word (replicate n 0) = 0"
  by (induction n) auto

lemma le_word_append:
  "le_word (xs @ ys) = (le_word xs OR push_bit (8 * length xs) (le_word ys) :: 'a::len word)"
proof (induction xs)
  case Nil
  then show ?case by simp
next
  case (Cons x xs)
  have "push_bit 8 (le_word xs OR push_bit (8 * length xs) (le_word ys :: 'a word))
      = push_bit 8 (le_word xs) OR push_bit (8 * length (x # xs)) (le_word ys)"
    by (simp add: push_bit_push_bit)
  then show ?case using Cons.IH by (simp add: or.assoc)
qed

lemma le_word_append_zeros [simp]: "le_word (xs @ replicate n 0) = le_word xs"
  by (simp add: le_word_append)

lemma le_bytes_split:
  "n \<le> m \<Longrightarrow> le_bytes m w = le_bytes n w @ le_bytes (m - n) (drop_bit (8 * n) w)"
  using append_take_drop_id [of n "le_bytes m w"] by (simp add: take_le_bytes drop_le_bytes)

lemma le_bytes_small:
  assumes "n \<le> m" "drop_bit (8 * n) w = 0"
  shows "le_bytes m w = le_bytes n w @ replicate (m - n) 0"
  using le_bytes_split [OF assms(1), of w] assms(2) by simp

lemma take_bit_le_word:
  "take_bit (8 * n) (le_word bs) = (le_word (take n bs) :: 'a::len word)"
proof (induction n arbitrary: bs)
  case 0
  then show ?case by simp
next
  case (Suc n)
  show ?case
  proof (cases bs)
    case Nil
    then show ?thesis by simp
  next
    case (Cons b cs)
    have "take_bit (8 * Suc n) (ucast b OR push_bit 8 (le_word cs) :: 'a word)
        = ucast b OR push_bit 8 (take_bit (8 * n) (le_word cs))"
      by (rule bit_word_eqI) (auto simp: bit_simps)
    then show ?thesis by (simp only: Cons Suc.IH take_Suc_Cons le_word.simps)
  qed
qed

lemma le_word_cast:
  "8 * length bs \<le> LENGTH('a) \<Longrightarrow>
     ucast (le_word bs :: 'a::len word) = (le_word bs :: 'b::len word)"
proof (induction bs)
  case Nil
  then show ?case by simp
next
  case (Cons b bs)
  then have IH: "ucast (le_word bs :: 'a word) = (le_word bs :: 'b word)" by simp
  have small: "bit (le_word bs :: 'a word) n \<Longrightarrow> n < 8 * length bs" for n
    using arg_cong [OF take_bit_le_word [of "length bs" bs, where ?'a = 'a], of "\<lambda>w. bit w n"]
    by (simp add: bit_take_bit_iff)
  have "bit (le_word bs :: 'b word) n \<longleftrightarrow> n < LENGTH('b) \<and> bit (le_word bs :: 'a word) n" for n
    using arg_cong [OF IH, of "\<lambda>w. bit w n"] by (auto simp: bit_simps)
  then show ?case using Cons.prems small
    by (intro bit_word_eqI) (force simp: bit_simps)
qed

lemma le_bytes_cast:
  "8 * n \<le> LENGTH('b) \<Longrightarrow> le_bytes n (ucast (w :: 'a::len word) :: 'b::len word) = le_bytes n w"
proof (induction n arbitrary: w)
  case 0
  then show ?case by simp
next
  case (Suc n)
  have low: "ucast (ucast w :: 'b word) = (ucast w :: u8)"
    using Suc.prems by (intro bit_word_eqI) (auto simp: bit_simps)
  have "drop_bit 8 (ucast w :: 'b word) = take_bit (LENGTH('b) - 8) (ucast (drop_bit 8 w))"
    by (rule bit_word_eqI) (auto simp: bit_simps)
  then have "le_bytes n (drop_bit 8 (ucast w :: 'b word)) = le_bytes n (drop_bit 8 w)"
    using Suc by (simp add: le_bytes_take_bit)
  then show ?case by (simp add: low)
qed

lemma le_word_inj:
  assumes "length bs = n" "length cs = n" "8 * n \<le> LENGTH('a)"
    and "(le_word bs :: 'a::len word) = le_word cs"
  shows "bs = cs"
proof -
  have "le_bytes n (le_word bs :: 'a word) = le_bytes n (le_word cs :: 'a word)"
    using assms(4) by simp
  then show ?thesis using assms(1-3) by simp
qed

section \<open>Lengths read from and written to fixed-width fields\<close>

lemma unat_of_nat_less [simp]:
  "n < 2 ^ LENGTH('a) \<Longrightarrow> unat (of_nat n :: 'a::len word) = n"
  by (simp add: unat_of_nat take_bit_nat_eq_self)

lemma of_nat_u16_unat: "n \<le> 0xFFFF \<Longrightarrow> unat (of_nat n :: u16) = n"
  by simp

lemma of_nat_u8_unat: "n \<le> 0xFF \<Longrightarrow> unat (of_nat n :: u8) = n"
  by simp

end
