(* ===== verification/Mapi.thy ===== *)
theory Mapi
  imports Hx_Prelude
begin

text \<open>
  The MAPI property model of \<^verbatim>\<open>internal/mapi\<close>: the 48-bit global counters and the
  mixed-endian entry identifiers built from them, GUIDs and their flat form, property tags
  and types, the property bag, FILETIME conversion and the folder-rights normalisation.

  A Go fixed-size array \<^verbatim>\<open>[n]byte\<close> is a byte list; the operations that build one return a
  list of exactly that length, and the laws carry the length as a hypothesis where the
  array is an argument.
\<close>

section \<open>Global counters and entry identifiers (eid.go)\<close>

type_synonym glob_cnt = bytes
type_synonym eid = u64

definition gcvMask :: u64 where
  "gcvMask = 0x0000FFFFFFFFFFFF"

definition ValueToGC :: "u64 \<Rightarrow> glob_cnt" where
  "ValueToGC value = take 6 (drop 2 (be_bytes 8 value))"

definition GCToValue :: "glob_cnt \<Rightarrow> u64" where
  "GCToValue gc = be_word ([0, 0] @ take 6 gc)"

definition ReverseBytes64 :: "u64 \<Rightarrow> u64" where
  "ReverseBytes64 v = le_word (be_bytes 8 v)"

definition MakeEIDEx :: "u16 \<Rightarrow> u64 \<Rightarrow> eid" where
  "MakeEIDEx replid value = ReverseBytes64 value OR ucast replid"

definition MakeEID :: "u16 \<Rightarrow> glob_cnt \<Rightarrow> eid" where
  "MakeEID replid gc = MakeEIDEx replid (GCToValue gc)"

definition ReplID :: "eid \<Rightarrow> u16" where
  "ReplID e = ucast (e AND 0xFFFF)"

definition GCValue :: "eid \<Rightarrow> u64" where
  "GCValue e = ReverseBytes64 e AND gcvMask"

definition GCArray :: "eid \<Rightarrow> glob_cnt" where
  "GCArray e = take 6 (drop 2 (le_bytes 8 e))"

section \<open>GUIDs (guid.go, flatuid.go)\<close>

record guid =
  Data1 :: u32
  Data2 :: u16
  Data3 :: u16
  Data4 :: bytes

type_synonym flat_uid = bytes

definition Flat :: "guid \<Rightarrow> flat_uid" where
  "Flat g = le_bytes 4 (Data1 g) @ le_bytes 2 (Data2 g) @ le_bytes 2 (Data3 g) @ take 8 (Data4 g)"

definition FlatToGUID :: "flat_uid \<Rightarrow> guid" where
  "FlatToGUID f = \<lparr>Data1 = le_word (take 4 f), Data2 = le_word (take 2 (drop 4 f)),
     Data3 = le_word (take 2 (drop 6 f)), Data4 = take 8 (drop 8 f)\<rparr>"

definition guid_wf :: "guid \<Rightarrow> bool" where
  "guid_wf g \<longleftrightarrow> length (Data4 g) = 8"

section \<open>Property tags and types (proptag.go, proptype.go)\<close>

type_synonym prop_type = u16
type_synonym prop_tag = u32

definition MakeTag :: "u16 \<Rightarrow> prop_type \<Rightarrow> prop_tag" where
  "MakeTag i t = push_bit 16 (ucast i) OR ucast t"

definition TagID :: "prop_tag \<Rightarrow> u16" where
  "TagID tag = ucast (drop_bit 16 tag)"

definition TagType :: "prop_tag \<Rightarrow> prop_type" where
  "TagType tag = ucast (tag AND 0xFFFF)"

definition WithType :: "prop_tag \<Rightarrow> prop_type \<Rightarrow> prop_tag" where
  "WithType tag t = (tag AND NOT 0xFFFF) OR ucast t"

abbreviation (input) PtUnspecified :: prop_type where "PtUnspecified \<equiv> 0x0000"
abbreviation (input) PtNull :: prop_type where "PtNull \<equiv> 0x0001"
abbreviation (input) PtShort :: prop_type where "PtShort \<equiv> 0x0002"
abbreviation (input) PtLong :: prop_type where "PtLong \<equiv> 0x0003"
abbreviation (input) PtFloat :: prop_type where "PtFloat \<equiv> 0x0004"
abbreviation (input) PtDouble :: prop_type where "PtDouble \<equiv> 0x0005"
abbreviation (input) PtCurrency :: prop_type where "PtCurrency \<equiv> 0x0006"
abbreviation (input) PtAppTime :: prop_type where "PtAppTime \<equiv> 0x0007"
abbreviation (input) PtError :: prop_type where "PtError \<equiv> 0x000A"
abbreviation (input) PtBoolean :: prop_type where "PtBoolean \<equiv> 0x000B"
abbreviation (input) PtObject :: prop_type where "PtObject \<equiv> 0x000D"
abbreviation (input) PtI8 :: prop_type where "PtI8 \<equiv> 0x0014"
abbreviation (input) PtString8 :: prop_type where "PtString8 \<equiv> 0x001E"
abbreviation (input) PtUnicode :: prop_type where "PtUnicode \<equiv> 0x001F"
abbreviation (input) PtSysTime :: prop_type where "PtSysTime \<equiv> 0x0040"
abbreviation (input) PtCLSID :: prop_type where "PtCLSID \<equiv> 0x0048"
abbreviation (input) PtSvrEID :: prop_type where "PtSvrEID \<equiv> 0x00FB"
abbreviation (input) PtRestriction :: prop_type where "PtRestriction \<equiv> 0x00FD"
abbreviation (input) PtActions :: prop_type where "PtActions \<equiv> 0x00FE"
abbreviation (input) PtBinary :: prop_type where "PtBinary \<equiv> 0x0102"
abbreviation (input) PtMvShort :: prop_type where "PtMvShort \<equiv> 0x1002"
abbreviation (input) PtMvLong :: prop_type where "PtMvLong \<equiv> 0x1003"
abbreviation (input) PtMvFloat :: prop_type where "PtMvFloat \<equiv> 0x1004"
abbreviation (input) PtMvDouble :: prop_type where "PtMvDouble \<equiv> 0x1005"
abbreviation (input) PtMvCurrency :: prop_type where "PtMvCurrency \<equiv> 0x1006"
abbreviation (input) PtMvAppTime :: prop_type where "PtMvAppTime \<equiv> 0x1007"
abbreviation (input) PtMvI8 :: prop_type where "PtMvI8 \<equiv> 0x1014"
abbreviation (input) PtMvString8 :: prop_type where "PtMvString8 \<equiv> 0x101E"
abbreviation (input) PtMvUnicode :: prop_type where "PtMvUnicode \<equiv> 0x101F"
abbreviation (input) PtMvSysTime :: prop_type where "PtMvSysTime \<equiv> 0x1040"
abbreviation (input) PtMvCLSID :: prop_type where "PtMvCLSID \<equiv> 0x1048"
abbreviation (input) PtMvBinary :: prop_type where "PtMvBinary \<equiv> 0x1102"
abbreviation (input) MvFlag :: prop_type where "MvFlag \<equiv> 0x1000"
abbreviation (input) MviFlag :: prop_type where "MviFlag \<equiv> 0x3000"

definition IsMultivalue :: "prop_type \<Rightarrow> bool" where
  "IsMultivalue t \<longleftrightarrow> t AND MvFlag \<noteq> 0"

definition BaseType :: "prop_type \<Rightarrow> prop_type" where
  "BaseType t = t AND NOT MvFlag"

section \<open>Tagged values and the property bag (propval.go)\<close>

datatype 'v tagged_prop_val = TaggedPropVal (Tag: prop_tag) (TValue: 'v)

type_synonym 'v property_values = "'v tagged_prop_val list"

fun Get :: "'v property_values \<Rightarrow> prop_tag \<Rightarrow> 'v option" where
  "Get [] tag = None"
| "Get (tp # pv) tag = (if Tag tp = tag then Some (TValue tp) else Get pv tag)"

definition CharsetSiblingTag :: "prop_tag \<Rightarrow> prop_tag \<times> bool" where
  "CharsetSiblingTag tag =
     (if TagType tag = PtUnicode then (WithType tag PtString8, True)
      else if TagType tag = PtString8 then (WithType tag PtUnicode, True)
      else (tag, False))"

definition GetAnyCharset :: "'v property_values \<Rightarrow> prop_tag \<Rightarrow> 'v option" where
  "GetAnyCharset pv tag =
     (case Get pv tag of
        Some v \<Rightarrow> Some v
      | None \<Rightarrow> (let (sibling, isString) = CharsetSiblingTag tag
                 in if \<not> isString then None else Get pv sibling))"

definition Has :: "'v property_values \<Rightarrow> prop_tag \<Rightarrow> bool" where
  "Has pv tag \<longleftrightarrow> Get pv tag \<noteq> None"

fun SetProp :: "'v property_values \<Rightarrow> prop_tag \<Rightarrow> 'v \<Rightarrow> 'v property_values" where
  "SetProp [] tag val = [TaggedPropVal tag val]"
| "SetProp (tp # pv) tag val =
     (if Tag tp = tag then TaggedPropVal (Tag tp) val # pv else tp # SetProp pv tag val)"

fun RemoveProp :: "'v property_values \<Rightarrow> prop_tag \<Rightarrow> 'v property_values" where
  "RemoveProp [] tag = []"
| "RemoveProp (tp # pv) tag = (if Tag tp = tag then pv else tp # RemoveProp pv tag)"

section \<open>FILETIME (nttime.go)\<close>

text \<open>
  A Go \<^verbatim>\<open>time.Time\<close> is read here through \<^verbatim>\<open>Unix()\<close> and \<^verbatim>\<open>Nanosecond()\<close>: seconds since the
  Unix epoch as a signed 64-bit value and the nanosecond remainder in \<open>0 ..< 10^9\<close>.
\<close>

record go_time =
  Unix :: int
  Nanosecond :: int

definition timeFixupSeconds :: int where
  "timeFixupSeconds = 11644473600"

definition UnixToNTTime :: "go_time \<Rightarrow> u64" where
  "UnixToNTTime t =
     word_of_int (Unix t + timeFixupSeconds) * 10000000 + word_of_int (Nanosecond t div 100)"

definition NTTimeToUnix :: "u64 \<Rightarrow> go_time" where
  "NTTimeToUnix nt =
     \<lparr>Unix = sint (nt div 10000000) - timeFixupSeconds, Nanosecond = sint (nt mod 10000000) * 100\<rparr>"

section \<open>Folder rights (permission.go)\<close>

abbreviation (input) FrightsReadAny :: u32 where "FrightsReadAny \<equiv> 0x0001"
abbreviation (input) FrightsCreate :: u32 where "FrightsCreate \<equiv> 0x0002"
abbreviation (input) FrightsEditOwned :: u32 where "FrightsEditOwned \<equiv> 0x0008"
abbreviation (input) FrightsDeleteOwned :: u32 where "FrightsDeleteOwned \<equiv> 0x0010"
abbreviation (input) FrightsEditAny :: u32 where "FrightsEditAny \<equiv> 0x0020"
abbreviation (input) FrightsDeleteAny :: u32 where "FrightsDeleteAny \<equiv> 0x0040"
abbreviation (input) FrightsCreateSubfolder :: u32 where "FrightsCreateSubfolder \<equiv> 0x0080"
abbreviation (input) FrightsOwner :: u32 where "FrightsOwner \<equiv> 0x0100"
abbreviation (input) FrightsContact :: u32 where "FrightsContact \<equiv> 0x0200"
abbreviation (input) FrightsVisible :: u32 where "FrightsVisible \<equiv> 0x0400"
abbreviation (input) FrightsFreeBusySimple :: u32 where "FrightsFreeBusySimple \<equiv> 0x0800"
abbreviation (input) FrightsFreeBusyDetailed :: u32 where "FrightsFreeBusyDetailed \<equiv> 0x1000"

definition RightsAll :: u32 where
  "RightsAll = FrightsReadAny OR FrightsCreate OR FrightsEditOwned OR FrightsDeleteOwned
     OR FrightsEditAny OR FrightsDeleteAny OR FrightsCreateSubfolder OR FrightsOwner
     OR FrightsVisible"

definition RightsMaxROP :: u32 where
  "RightsMaxROP = RightsAll OR FrightsContact OR FrightsFreeBusySimple OR FrightsFreeBusyDetailed"

text \<open>The recurring statement \<^verbatim>\<open>if rights&have != 0 { rights |= gain }\<close>.\<close>

definition grant :: "u32 \<Rightarrow> u32 \<Rightarrow> u32 \<Rightarrow> u32" where
  "grant have gain rights = (if rights AND have \<noteq> 0 then rights OR gain else rights)"

definition NormalizeRights :: "u32 \<Rightarrow> bool \<Rightarrow> u32" where
  "NormalizeRights rights adjustFreeBusy =
     (let rights = grant FrightsReadAny FrightsVisible rights;
          rights = grant FrightsEditAny FrightsEditOwned rights;
          rights = grant FrightsDeleteAny FrightsDeleteOwned rights;
          rights = grant FrightsOwner (FrightsVisible OR FrightsContact) rights
      in if adjustFreeBusy then
           (let rights = rights OR FrightsFreeBusySimple
            in grant FrightsReadAny FrightsFreeBusyDetailed rights)
         else rights)"

section \<open>Laws of the identifiers\<close>

lemma length_ValueToGC [simp]: "length (ValueToGC v) = 6"
  by (simp add: ValueToGC_def)

lemma length_GCArray [simp]: "length (GCArray e) = 6"
  by (simp add: GCArray_def)

lemma ValueToGC_be: "ValueToGC v = be_bytes 6 v"
  by (simp add: ValueToGC_def be_bytes_def drop_rev take_le_bytes)

lemma GCToValue_le:
  assumes "length gc = 6"
  shows "GCToValue gc = le_word (rev gc)"
proof -
  have "GCToValue gc = le_word (rev gc @ replicate 2 0)"
    using assms by (simp add: GCToValue_def be_word_def numeral_2_eq_2)
  then show ?thesis by (simp only: le_word_append_zeros)
qed

lemma gcvMask_mask: "gcvMask = mask 48"
  by (simp add: gcvMask_def mask_eq_exp_minus_1)

lemma and_gcvMask: "v AND gcvMask = take_bit 48 v"
  by (simp add: gcvMask_mask take_bit_eq_mask)

lemma GCToValue_ValueToGC [simp]: "GCToValue (ValueToGC v) = v AND gcvMask"
  by (simp add: GCToValue_le) (simp add: ValueToGC_be be_bytes_def le_word_le_bytes_take and_gcvMask)

lemma ValueToGC_GCToValue [simp]: "length gc = 6 \<Longrightarrow> ValueToGC (GCToValue gc) = gc"
  by (simp add: GCToValue_le ValueToGC_be be_bytes_def)

lemma small_gc_iff: "v AND gcvMask = v \<longleftrightarrow> unat v < 2 ^ 48"
proof -
  have "take_bit 48 v = v \<longleftrightarrow> take_bit 48 (unat v) = unat v"
    by (simp add: word_unat_eq_iff unsigned_take_bit_eq)
  then show ?thesis by (simp add: and_gcvMask take_bit_nat_eq_self_iff)
qed

lemma small_gc_drop: "v AND gcvMask = v \<Longrightarrow> drop_bit 48 v = 0"
  by (metis and_gcvMask drop_bit_take_bit cancel_comm_monoid_add_class.diff_cancel take_bit_0)

lemma le_bytes_ReverseBytes64: "le_bytes 8 (ReverseBytes64 v) = rev (le_bytes 8 v)"
  by (simp add: ReverseBytes64_def be_bytes_def)

lemma le_bytes_MakeEIDEx:
  assumes "v AND gcvMask = v"
  shows "le_bytes 8 (MakeEIDEx r v) = le_bytes 2 r @ be_bytes 6 v"
proof -
  have "le_bytes 8 v = le_bytes 6 v @ replicate 2 0"
    using le_bytes_small [of 6 8 v] small_gc_drop [OF assms] by simp
  then have "ReverseBytes64 v = le_word (replicate 2 0 @ rev (le_bytes 6 v))"
    by (simp only: ReverseBytes64_def be_bytes_def rev_append rev_replicate)
  also have "\<dots> = push_bit 16 (le_word (rev (le_bytes 6 v)))"
    by (simp add: le_word_append)
  finally have rv: "ReverseBytes64 v = push_bit 16 (le_word (rev (le_bytes 6 v)))" .
  have r: "(ucast r :: u64) = le_word (le_bytes 2 r)"
    using le_word_cast [of "le_bytes 2 r", where ?'a = 16 and ?'b = 64] by simp
  have "MakeEIDEx r v = le_word (le_bytes 2 r @ be_bytes 6 v)"
    by (simp add: MakeEIDEx_def rv r le_word_append be_bytes_def or.commute)
  then show ?thesis by simp
qed

lemma ReplID_le: "ReplID e = le_word (take 2 (le_bytes 8 e))"
proof -
  have "(le_word (le_bytes 2 e) :: u64) = take_bit 16 e"
    by (simp add: le_word_le_bytes_take)
  moreover have "e AND 0xFFFF = take_bit 16 e"
    by (simp add: take_bit_eq_mask mask_eq_exp_minus_1)
  ultimately show ?thesis
    using le_word_cast [of "le_bytes 2 e", where ?'a = 64 and ?'b = 16]
    by (simp add: ReplID_def take_le_bytes)
qed

lemma GCValue_le: "GCValue e = le_word (take 6 (rev (le_bytes 8 e)))"
  using take_bit_le_word [of 6 "rev (le_bytes 8 e)", where ?'a = 64]
  by (simp add: GCValue_def and_gcvMask ReverseBytes64_def be_bytes_def)

lemma ReplID_MakeEIDEx [simp]: "v AND gcvMask = v \<Longrightarrow> ReplID (MakeEIDEx r v) = r"
  by (simp add: ReplID_le le_bytes_MakeEIDEx)

lemma GCValue_MakeEIDEx [simp]: "v AND gcvMask = v \<Longrightarrow> GCValue (MakeEIDEx r v) = v"
  by (simp add: GCValue_le le_bytes_MakeEIDEx be_bytes_def) (simp add: le_word_le_bytes_take and_gcvMask)

lemma GCArray_MakeEIDEx [simp]: "v AND gcvMask = v \<Longrightarrow> GCArray (MakeEIDEx r v) = ValueToGC v"
  by (simp add: GCArray_def le_bytes_MakeEIDEx ValueToGC_be)

lemma GCValue_small [simp]: "GCValue e AND gcvMask = GCValue e"
  by (simp add: GCValue_def and.assoc)

lemma MakeEIDEx_ReplID_GCValue [simp]: "MakeEIDEx (ReplID e) (GCValue e) = e"
proof -
  have "le_bytes 8 (MakeEIDEx (ReplID e) (GCValue e)) = take 2 (le_bytes 8 e) @ drop 2 (le_bytes 8 e)"
    by (simp only: le_bytes_MakeEIDEx GCValue_small)
      (simp add: ReplID_le GCValue_le be_bytes_def take_rev)
  then have "le_bytes 8 (MakeEIDEx (ReplID e) (GCValue e)) = le_bytes 8 e"
    by simp
  then have "le_word (le_bytes 8 (MakeEIDEx (ReplID e) (GCValue e))) = (le_word (le_bytes 8 e) :: u64)"
    by simp
  then show ?thesis by simp
qed

section \<open>Laws of GUIDs and tags\<close>

lemma length_Flat [simp]: "guid_wf g \<Longrightarrow> length (Flat g) = 16"
  by (simp add: Flat_def guid_wf_def)

lemma FlatToGUID_Flat [simp]: "guid_wf g \<Longrightarrow> FlatToGUID (Flat g) = g"
  by (simp add: Flat_def FlatToGUID_def guid_wf_def)

lemma Flat_FlatToGUID [simp]: "length f = 16 \<Longrightarrow> Flat (FlatToGUID f) = f"
proof -
  assume "length f = 16"
  moreover have "take 4 f @ take 2 (drop 4 f) @ take 2 (drop 6 f) @ take 8 (drop 8 f) = take 16 f"
    using take_add [of 4 2 f] take_add [of 6 2 f] take_add [of 8 8 f] by simp
  ultimately show ?thesis by (simp add: Flat_def FlatToGUID_def)
qed

lemma guid_wf_FlatToGUID [simp]: "length f = 16 \<Longrightarrow> guid_wf (FlatToGUID f)"
  by (simp add: FlatToGUID_def guid_wf_def)

lemma TagType_alt: "TagType tag = ucast tag"
  by (rule bit_word_eqI) (auto simp: TagType_def low16_mask bit_simps)

lemma TagID_MakeTag [simp]: "TagID (MakeTag i t) = i"
  by (rule bit_word_eqI) (auto simp: TagID_def MakeTag_def bit_simps)

lemma TagType_MakeTag [simp]: "TagType (MakeTag i t) = t"
  by (rule bit_word_eqI) (auto simp: TagType_alt MakeTag_def bit_simps)

lemma MakeTag_TagID_TagType [simp]: "MakeTag (TagID tag) (TagType tag) = tag"
  by (rule bit_word_eqI) (auto simp: TagID_def TagType_alt MakeTag_def bit_simps)

lemma WithType_eq: "WithType tag t = MakeTag (TagID tag) t"
  by (rule bit_word_eqI) (auto simp: TagID_def WithType_def MakeTag_def low16_mask bit_simps)

section \<open>The property bag as a finite map\<close>

text \<open>
  What a client of the bag relies on: reading after a write or a removal, and that both
  keep the bag keyed by tag.
\<close>

locale prop_bag =
  fixes get :: "'b \<Rightarrow> prop_tag \<Rightarrow> 'v option"
    and set_prop :: "'b \<Rightarrow> prop_tag \<Rightarrow> 'v \<Rightarrow> 'b"
    and remove_prop :: "'b \<Rightarrow> prop_tag \<Rightarrow> 'b"
    and invar :: "'b \<Rightarrow> bool"
  assumes get_set: "invar b \<Longrightarrow> get (set_prop b t v) = (get b)(t \<mapsto> v)"
    and get_remove: "invar b \<Longrightarrow> get (remove_prop b t) = (get b)(t := None)"
    and invar_set: "invar b \<Longrightarrow> invar (set_prop b t v)"
    and invar_remove: "invar b \<Longrightarrow> invar (remove_prop b t)"
begin

lemma replace_representation:
  assumes "invar b" "old \<noteq> new"
  shows "get (set_prop (remove_prop b old) new v) old = None"
    and "get (set_prop (remove_prop b old) new v) new = Some v"
  using assms by (simp_all add: get_set get_remove invar_remove)

lemma get_fold_set:
  assumes "invar b"
  shows "get (fold (\<lambda>(t, v) b. set_prop b t v) kvs b) = get b ++ map_of (rev kvs)
    \<and> invar (fold (\<lambda>(t, v) b. set_prop b t v) kvs b)"
  using assms
proof (induction kvs arbitrary: b)
  case Nil
  then show ?case by simp
next
  case (Cons kv kvs)
  then show ?case
    by (cases kv) (simp add: get_set invar_set map_add_upd_left [symmetric] map_add_def fun_eq_iff
        split: option.splits)
qed

end

definition bag_wf :: "'v property_values \<Rightarrow> bool" where
  "bag_wf pv \<longleftrightarrow> distinct (map Tag pv)"

lemma Get_None_iff: "Get pv tag = None \<longleftrightarrow> tag \<notin> Tag ` set pv"
  by (induction pv) auto

lemma Get_SetProp: "Get (SetProp pv tag v) = (Get pv)(tag \<mapsto> v)"
  by (induction pv) (auto simp: fun_eq_iff)

lemma Tag_SetProp: "Tag ` set (SetProp pv tag v) = insert tag (Tag ` set pv)"
  by (induction pv) auto

lemma Tag_RemoveProp: "bag_wf pv \<Longrightarrow> Tag ` set (RemoveProp pv tag) = Tag ` set pv - {tag}"
proof (induction pv)
  case Nil
  then show ?case by simp
next
  case (Cons tp pv)
  then have "bag_wf pv" "Tag tp \<notin> Tag ` set pv" by (simp_all add: bag_wf_def)
  with Cons.IH show ?case by (cases "Tag tp = tag") (auto simp del: image_iff)
qed

lemma Get_RemoveProp: "bag_wf pv \<Longrightarrow> Get (RemoveProp pv tag) = (Get pv)(tag := None)"
  by (induction pv) (auto simp: bag_wf_def fun_eq_iff Get_None_iff image_iff)

lemma bag_wf_SetProp: "bag_wf pv \<Longrightarrow> bag_wf (SetProp pv tag v)"
proof (induction pv)
  case Nil
  then show ?case by (simp add: bag_wf_def)
next
  case (Cons tp pv)
  then show ?case using Tag_SetProp [of pv tag v] by (auto simp: bag_wf_def)
qed

lemma bag_wf_RemoveProp: "bag_wf pv \<Longrightarrow> bag_wf (RemoveProp pv tag)"
proof (induction pv)
  case Nil
  then show ?case by (simp add: bag_wf_def)
next
  case (Cons tp pv)
  then show ?case using Tag_RemoveProp [of pv tag] by (auto simp: bag_wf_def)
qed

interpretation bag: prop_bag Get SetProp RemoveProp bag_wf
  by unfold_locales (simp_all add: Get_SetProp Get_RemoveProp bag_wf_SetProp bag_wf_RemoveProp)

section \<open>Closure of folder rights\<close>

text \<open>The implications between rights that \<^verbatim>\<open>NormalizeRights\<close> closes a mask under.\<close>

definition rights_closed :: "bool \<Rightarrow> u32 \<Rightarrow> bool" where
  "rights_closed adjustFreeBusy r \<longleftrightarrow>
     (bit r 0 \<longrightarrow> bit r 10) \<and> (bit r 5 \<longrightarrow> bit r 3) \<and> (bit r 6 \<longrightarrow> bit r 4)
     \<and> (bit r 8 \<longrightarrow> bit r 10 \<and> bit r 9)
     \<and> (adjustFreeBusy \<longrightarrow> bit r 11 \<and> (bit r 0 \<longrightarrow> bit r 12))"

lemma bit_lit32I: "c = 2 ^ k \<Longrightarrow> k < 32 \<Longrightarrow> bit (c :: u32) n \<longleftrightarrow> n = k"
  by (auto simp: bit_exp_iff)

lemma bit_lit32:
  "bit (0x0400 :: u32) n \<longleftrightarrow> n = 10" "bit (0x0008 :: u32) n \<longleftrightarrow> n = 3"
  "bit (0x0010 :: u32) n \<longleftrightarrow> n = 4" "bit (0x0200 :: u32) n \<longleftrightarrow> n = 9"
  "bit (0x0800 :: u32) n \<longleftrightarrow> n = 11" "bit (0x1000 :: u32) n \<longleftrightarrow> n = 12"
  "bit (0x0020 :: u32) n \<longleftrightarrow> n = 5" "bit (0x0040 :: u32) n \<longleftrightarrow> n = 6"
  "bit (0x0100 :: u32) n \<longleftrightarrow> n = 8" "bit (0x0002 :: u32) n \<longleftrightarrow> n = 1"
  "bit (0x0080 :: u32) n \<longleftrightarrow> n = 7" "bit (0x0001 :: u32) n \<longleftrightarrow> n = 0"
  by (rule bit_lit32I, simp, simp)+

lemma bit_grant:
  "bit (grant (2 ^ k) gain r) n \<longleftrightarrow> bit r n \<or> bit r k \<and> bit gain n"
  by (auto simp: grant_def and_exp_eq_0_iff_not_bit bit_or_iff)

lemmas bit_grants =
  bit_grant [of 0, simplified power_0] bit_grant [of 5, simplified] bit_grant [of 6, simplified]
  bit_grant [of 8, simplified]

lemma bit_NormalizeRights:
  "bit (NormalizeRights r b) n \<longleftrightarrow> bit r n \<or> n = 10 \<and> (bit r 0 \<or> bit r 8) \<or> n = 3 \<and> bit r 5
     \<or> n = 4 \<and> bit r 6 \<or> n = 9 \<and> bit r 8 \<or> n = 11 \<and> b \<or> n = 12 \<and> b \<and> bit r 0"
  unfolding NormalizeRights_def Let_def if_distrib [of "\<lambda>w. bit w n"] bit_grants bit_or_iff bit_lit32
  by (cases b) (auto simp del: bit_0)

lemma bit_RightsMaxROP: "bit RightsMaxROP n \<longleftrightarrow> n \<in> {0, 1, 3, 4, 5, 6, 7, 8, 9, 10, 11, 12}"
  unfolding RightsMaxROP_def RightsAll_def bit_or_iff bit_lit32 by auto

section \<open>Properties\<close>

text \<open>
  An entry identifier keeps both of its parts: composing a replica id with a 48-bit
  counter and reading the parts back is the identity, the six counter bytes embedded in the
  little-endian image are the big-endian counter encoding, and every 64-bit value is the
  composition of its own parts.
\<close>
lemma eid_parts:
  "(v AND gcvMask = v \<longrightarrow>
      ReplID (MakeEIDEx r v) = r \<and> GCValue (MakeEIDEx r v) = v
      \<and> GCArray (MakeEIDEx r v) = ValueToGC v \<and> MakeEID r (ValueToGC v) = MakeEIDEx r v)
   \<and> MakeEIDEx (ReplID e) (GCValue e) = e"
  by (simp add: MakeEID_def)

text \<open>Conversions of 64-bit values whose top bit is clear.\<close>

lemma sint_small64: "uint (w :: u64) < 2 ^ 63 \<Longrightarrow> sint w = uint w"
proof -
  assume "uint w < 2 ^ 63"
  moreover have "- (2 ^ 63) \<le> uint w"
    using uint_ge_0 [of w] by (rule order_trans [rotated]) simp
  ultimately have "signed_take_bit 63 (uint w) = uint w"
    by (rule signed_take_bit_int_eq_self [rotated])
  then show ?thesis by (simp add: sint_uint)
qed

lemma uint_lt64: "uint (w :: u64) < 2 ^ 64"
  using uint_bounded [of w] by simp

lemma nt_div: "sint (nt div 10000000 :: u64) = uint nt div 10000000"
proof -
  have "uint (nt div 10000000) = uint nt div 10000000" by (simp add: uint_div)
  moreover have "uint nt div 10000000 < 2 ^ 63"
    using uint_lt64 [of nt] by simp
  ultimately show ?thesis by (metis sint_small64)
qed

lemma nt_mod: "sint (nt mod 10000000 :: u64) = uint nt mod 10000000"
proof -
  have "uint (nt mod 10000000) = uint nt mod 10000000" by (simp add: uint_mod)
  moreover have "uint nt mod 10000000 < 2 ^ 63"
    by (rule less_trans [OF pos_mod_bound]) simp_all
  ultimately show ?thesis by (metis sint_small64)
qed

text \<open>
  A FILETIME survives the conversion to a Go time and back exactly, for all 64-bit
  values; a Go time from 1601 on whose tick count fits 64 bits comes back truncated to the
  100-nanosecond grid.
\<close>
lemma nttime_roundtrip:
  "UnixToNTTime (NTTimeToUnix nt) = nt
   \<and> (- timeFixupSeconds \<le> Unix t \<longrightarrow> 0 \<le> Nanosecond t \<longrightarrow> Nanosecond t < 10 ^ 9
      \<longrightarrow> (Unix t + timeFixupSeconds) * 10 ^ 7 + Nanosecond t div 100 < 2 ^ 64
      \<longrightarrow> NTTimeToUnix (UnixToNTTime t)
            = \<lparr>Unix = Unix t, Nanosecond = Nanosecond t div 100 * 100\<rparr>)"
proof (intro conjI impI)
  have "UnixToNTTime (NTTimeToUnix nt)
      = word_of_int (uint nt div 10000000) * word_of_int 10000000 + word_of_int (uint nt mod 10000000)"
    by (simp add: UnixToNTTime_def NTTimeToUnix_def nt_div nt_mod)
  also have "\<dots> = word_of_int (uint nt div 10000000 * 10000000 + uint nt mod 10000000)"
    by (simp only: of_int_add of_int_mult)
  finally show "UnixToNTTime (NTTimeToUnix nt) = nt"
    by (simp only: div_mult_mod_eq word_of_int_uint)
next
  assume lo: "- timeFixupSeconds \<le> Unix t" and n0: "0 \<le> Nanosecond t" and n9: "Nanosecond t < 10 ^ 9"
    and hi: "(Unix t + timeFixupSeconds) * 10 ^ 7 + Nanosecond t div 100 < 2 ^ 64"
  define k where "k = (Unix t + timeFixupSeconds) * 10000000 + Nanosecond t div 100"
  have k: "UnixToNTTime t = word_of_int k" by (simp add: UnixToNTTime_def k_def)
  have "0 \<le> k" "k < 2 ^ 64" using lo n0 hi by (simp_all add: k_def)
  then have u: "uint (UnixToNTTime t) = k"
    unfolding k by (simp add: uint_word_of_int take_bit_int_eq_self)
  have "0 \<le> Nanosecond t div 100" "Nanosecond t div 100 < 10000000" using n0 n9 by simp_all
  then have "k div 10000000 = Unix t + timeFixupSeconds" "k mod 10000000 = Nanosecond t div 100"
    unfolding k_def by (simp_all only: mod_mult_self3 div_mult_self3) simp_all
  then show "NTTimeToUnix (UnixToNTTime t)
      = \<lparr>Unix = Unix t, Nanosecond = Nanosecond t div 100 * 100\<rparr>"
    by (simp add: NTTimeToUnix_def nt_div nt_mod u)
qed

text \<open>
  C29. Normalising folder rights computes the least mask that contains the given rights and
  is closed under the implications of [MS-OXCPERM]; in particular it never drops a right,
  is idempotent, and never leaves the set of rights a client may set over the wire.
\<close>
theorem NormalizeRights_least_closure:
  "rights_closed b (NormalizeRights r b)
   \<and> r AND NormalizeRights r b = r
   \<and> (rights_closed b s \<longrightarrow> r AND s = r \<longrightarrow> NormalizeRights r b AND s = NormalizeRights r b)
   \<and> NormalizeRights (NormalizeRights r b) b = NormalizeRights r b
   \<and> (r AND RightsMaxROP = r \<longrightarrow> NormalizeRights r b AND RightsMaxROP = NormalizeRights r b)"
proof -
  have sub: "x AND y = x \<longleftrightarrow> (\<forall>n. bit x n \<longrightarrow> bit y n)" for x y :: u32
    by (metis bit_and_iff bit_word_eqI)
  have eq: "x = y \<longleftrightarrow> (\<forall>n. bit x n \<longleftrightarrow> bit y n)" for x y :: u32
    by (metis bit_word_eqI)
  show ?thesis
    unfolding sub eq [of "NormalizeRights (NormalizeRights r b) b"] bit_NormalizeRights bit_RightsMaxROP
      rights_closed_def
    by (auto simp del: bit_0)
qed

theorem NormalizeRights_least_closure_witness:
  "NormalizeRights 0x0101 True = 0x1F01 \<and> NormalizeRights 0x0101 True AND RightsMaxROP = 0x1F01"
proof -
  have v: "NormalizeRights 0x0101 True = 0x1F01" by code_simp
  have "(0x0101 :: u32) AND RightsMaxROP = 0x0101" by (simp add: RightsMaxROP_def RightsAll_def)
  then have "NormalizeRights 0x0101 True AND RightsMaxROP = NormalizeRights 0x0101 True"
    using NormalizeRights_least_closure [of True "0x0101" 0] by blast
  then show ?thesis using v by simp
qed

text \<open>
  C28. The property bag behaves as a finite map keyed by tag: after any sequence of
  stores every lookup returns the last value stored for its tag (and what the bag held
  before otherwise), no tag occurs twice, and removing a tag removes exactly it.
\<close>
theorem property_bag_refines_map:
  assumes "bag_wf pv"
  shows "let pv' = fold (\<lambda>(t, v) b. SetProp b t v) kvs pv in
      Get pv' = Get pv ++ map_of (rev kvs) \<and> bag_wf pv'
      \<and> Get (RemoveProp pv' t) = (Get pv')(t := None) \<and> bag_wf (RemoveProp pv' t)"
  using bag.get_fold_set [OF assms, of kvs] by (simp add: Let_def bag.get_remove bag.invar_remove)

theorem property_bag_refines_map_witness:
  "bag_wf [TaggedPropVal 7 (1 :: nat)]
   \<and> Get (RemoveProp (fold (\<lambda>(t, v) b. SetProp b t v) [(7, 2), (9, 3), (7, 4)] [TaggedPropVal 7 1]) 9)
       = (Map.empty)(7 \<mapsto> 4)"
proof -
  have h: "bag_wf [TaggedPropVal 7 (1 :: nat)]" by (simp add: bag_wf_def)
  show ?thesis
    using h property_bag_refines_map [OF h, of "[(7, 2), (9, 3), (7, 4)]" 9]
    by (auto simp: fun_eq_iff Let_def)
qed

end
