(* ===== verification/Go_Text.thy ===== *)
theory Go_Text
  imports Hx_Prelude
begin

text \<open>
  The Go standard-library text conversions the codecs use: \<^verbatim>\<open>[]rune(s)\<close> (UTF-8 decoding with
  replacement), \<^verbatim>\<open>string(runes)\<close>, \<^verbatim>\<open>utf16.Encode\<close> and \<^verbatim>\<open>utf16.Decode\<close>. A Go string is its byte
  sequence, a rune a natural number.
\<close>

type_synonym go_string = bytes
type_synonym rune = nat

definition RuneError :: rune where
  "RuneError = 0xFFFD"

definition scalar :: "rune \<Rightarrow> bool" where
  "scalar r \<longleftrightarrow> r < 0xD800 \<or> 0xE000 \<le> r \<and> r < 0x110000"

section \<open>UTF-8\<close>

definition in_range :: "nat \<Rightarrow> nat \<Rightarrow> u8 \<Rightarrow> bool" where
  "in_range lo hi b \<longleftrightarrow> lo \<le> unat b \<and> unat b \<le> hi"

text \<open>
  The accepted range of the second byte for a given first byte (the \<^verbatim>\<open>acceptRanges\<close> table of
  \<^verbatim>\<open>unicode/utf8\<close>).
\<close>

definition second_range :: "nat \<Rightarrow> nat \<times> nat" where
  "second_range b0 =
     (if b0 = 0xE0 then (0xA0, 0xBF) else if b0 = 0xED then (0x80, 0x9F)
      else if b0 = 0xF0 then (0x90, 0xBF) else if b0 = 0xF4 then (0x80, 0x8F) else (0x80, 0xBF))"

fun decode_rune :: "u8 \<Rightarrow> bytes \<Rightarrow> rune \<times> nat" where
  "decode_rune b0 bs =
     (let n0 = unat b0; (lo, hi) = second_range n0 in
      if n0 < 0x80 then (n0, 1)
      else if 0xC2 \<le> n0 \<and> n0 \<le> 0xDF then
        (case bs of
           b1 # _ \<Rightarrow> if in_range lo hi b1
                     then ((n0 mod 32) * 64 + unat b1 mod 64, 2) else (RuneError, 1)
         | _ \<Rightarrow> (RuneError, 1))
      else if 0xE0 \<le> n0 \<and> n0 \<le> 0xEF then
        (case bs of
           b1 # b2 # _ \<Rightarrow> if in_range lo hi b1 \<and> in_range 0x80 0xBF b2
                     then ((n0 mod 16) * 4096 + (unat b1 mod 64) * 64 + unat b2 mod 64, 3)
                     else (RuneError, 1)
         | _ \<Rightarrow> (RuneError, 1))
      else if 0xF0 \<le> n0 \<and> n0 \<le> 0xF4 then
        (case bs of
           b1 # b2 # b3 # _ \<Rightarrow>
             if in_range lo hi b1 \<and> in_range 0x80 0xBF b2 \<and> in_range 0x80 0xBF b3
             then ((n0 mod 8) * 262144 + (unat b1 mod 64) * 4096 + (unat b2 mod 64) * 64
                   + unat b3 mod 64, 4)
             else (RuneError, 1)
         | _ \<Rightarrow> (RuneError, 1))
      else (RuneError, 1))"

declare decode_rune.simps [simp del]

fun utf8_decode :: "go_string \<Rightarrow> rune list" where
  "utf8_decode [] = []"
| "utf8_decode (b0 # bs) =
     fst (decode_rune b0 bs) # utf8_decode (drop (snd (decode_rune b0 bs) - 1) bs)"

definition encode_rune :: "rune \<Rightarrow> bytes" where
  "encode_rune r0 =
     (let r = (if scalar r0 then r0 else RuneError) in
      if r < 0x80 then [of_nat r]
      else if r < 0x800 then [of_nat (0xC0 + r div 64), of_nat (0x80 + r mod 64)]
      else if r < 0x10000 then
        [of_nat (0xE0 + r div 4096), of_nat (0x80 + r div 64 mod 64), of_nat (0x80 + r mod 64)]
      else [of_nat (0xF0 + r div 262144), of_nat (0x80 + r div 4096 mod 64),
            of_nat (0x80 + r div 64 mod 64), of_nat (0x80 + r mod 64)])"

definition utf8_encode :: "rune list \<Rightarrow> go_string" where
  "utf8_encode rs = concat (map encode_rune rs)"

definition valid_utf8 :: "go_string \<Rightarrow> bool" where
  "valid_utf8 s \<longleftrightarrow> utf8_encode (utf8_decode s) = s"

section \<open>UTF-16\<close>

fun utf16_encode :: "rune list \<Rightarrow> u16 list" where
  "utf16_encode [] = []"
| "utf16_encode (r # rs) =
     (if r < 0xD800 \<or> 0xE000 \<le> r \<and> r < 0x10000 then of_nat r # utf16_encode rs
      else if 0x10000 \<le> r \<and> r < 0x110000 then
        of_nat (0xD800 + (r - 0x10000) div 1024) # of_nat (0xDC00 + (r - 0x10000) mod 1024)
          # utf16_encode rs
      else of_nat RuneError # utf16_encode rs)"

fun utf16_decode :: "u16 list \<Rightarrow> rune list" where
  "utf16_decode [] = []"
| "utf16_decode (u # us) =
     (if unat u < 0xD800 \<or> 0xE000 \<le> unat u then unat u # utf16_decode us
      else (case us of
          v # vs \<Rightarrow>
            if unat u < 0xDC00 \<and> 0xDC00 \<le> unat v \<and> unat v < 0xE000
            then ((unat u - 0xD800) * 1024 + (unat v - 0xDC00) + 0x10000) # utf16_decode vs
            else RuneError # utf16_decode us
        | [] \<Rightarrow> RuneError # utf16_decode us))"

section \<open>Laws\<close>

lemma utf16_roundtrip: "list_all scalar rs \<Longrightarrow> utf16_decode (utf16_encode rs) = rs"
proof (induction rs)
  case Nil
  then show ?case by simp
next
  case (Cons r rs)
  show ?case
  proof (cases "r < 0x10000")
    case True
    with Cons show ?thesis by (auto simp: scalar_def)
  next
    case False
    with Cons have r: "0x10000 \<le> r" "r < 0x110000" by (auto simp: scalar_def)
    have "(r - 0x10000) div 1024 < 1024" using r by simp
    then have u: "unat (of_nat (0xD800 + (r - 0x10000) div 1024) :: u16) = 0xD800 + (r - 0x10000) div 1024"
      by (subst unat_of_nat_less) simp_all
    have v: "unat (of_nat (0xDC00 + (r - 0x10000) mod 1024) :: u16) = 0xDC00 + (r - 0x10000) mod 1024"
      using mod_less_divisor [of 1024 "r - 0x10000"] by (subst unat_of_nat_less) simp_all
    have "(r - 0x10000) div 1024 * 1024 + (r - 0x10000) mod 1024 + 0x10000 = r"
      using r by simp
    moreover have "(r - 0x10000) mod 1024 < 1024" by simp
    ultimately show ?thesis using Cons r \<open>(r - 0x10000) div 1024 < 1024\<close>
      by (simp add: u v del: of_nat_add of_nat_numeral)
  qed
qed

lemma cont_mod64: "0x80 \<le> n \<Longrightarrow> n \<le> 0xBF \<Longrightarrow> n mod 64 = n - (0x80 :: nat)"
proof -
  assume "0x80 \<le> n" "n \<le> 0xBF"
  then have "n = (n - 0x80) + 64 * 2" "n - 0x80 < 64" by simp_all
  then show ?thesis by (metis mod_less mod_mult_self2)
qed

lemma lead_mod:
  "0xE0 \<le> n \<Longrightarrow> n \<le> 0xEF \<Longrightarrow> n mod 16 = n - (0xE0 :: nat)"
  "0xF0 \<le> n \<Longrightarrow> n \<le> 0xF4 \<Longrightarrow> n mod 8 = n - (0xF0 :: nat)"
  "0xC2 \<le> n \<Longrightarrow> n \<le> 0xDF \<Longrightarrow> n mod 32 = n - (0xC0 :: nat)"
proof -
  show "n mod 16 = n - 0xE0" if "0xE0 \<le> n" "n \<le> 0xEF"
  proof -
    have "n = (n - 0xE0) + 16 * 14" "n - 0xE0 < 16" using that by simp_all
    then show ?thesis by (metis mod_less mod_mult_self2)
  qed
  show "n mod 8 = n - 0xF0" if "0xF0 \<le> n" "n \<le> 0xF4"
  proof -
    have "n = (n - 0xF0) + 8 * 30" "n - 0xF0 < 8" using that by simp_all
    then show ?thesis by (metis mod_less mod_mult_self2)
  qed
  show "n mod 32 = n - 0xC0" if "0xC2 \<le> n" "n \<le> 0xDF"
  proof -
    have "n = (n - 0xC0) + 32 * 6" "n - 0xC0 < 32" using that by simp_all
    then show ?thesis by (metis mod_less mod_mult_self2)
  qed
qed

text \<open>
  A successful multi-byte decode yields the value of its lead and continuation bits; the
  restricted second-byte ranges keep it a scalar value above the shorter forms.
\<close>

lemma decode_rune_cases:
  obtains (ascii) "unat b0 < 0x80" "decode_rune b0 bs = (unat b0, 1)"
  | (bad) "decode_rune b0 bs = (RuneError, 1)"
  | (multi) r w where "decode_rune b0 bs = (r, w)" "0x80 \<le> unat b0" "0x80 \<le> r" "scalar r" "1 \<le> w"
proof -
  let ?n = "unat b0"
  consider "?n < 0x80" | (two) "0xC2 \<le> ?n" "?n \<le> 0xDF" | (three) "0xE0 \<le> ?n" "?n \<le> 0xEF"
    | (four) "0xF0 \<le> ?n" "?n \<le> 0xF4" | "0x80 \<le> ?n" "?n < 0xC2 \<or> 0xF4 < ?n" by linarith
  then show thesis
  proof cases
    case 1
    then show thesis using ascii by (simp add: decode_rune.simps)
  next
    case two
    show thesis
    proof (cases "\<exists>b1 cs. bs = b1 # cs \<and> in_range 0x80 0xBF b1")
      case True
      then obtain b1 cs where b: "bs = b1 # cs" "0x80 \<le> unat b1" "unat b1 \<le> 0xBF"
        by (auto simp: in_range_def)
      have "decode_rune b0 bs = ((?n - 0xC0) * 64 + (unat b1 - 0x80), 2)"
        using two b by (simp add: decode_rune.simps second_range_def in_range_def lead_mod cont_mod64)
      then show thesis by (rule multi) (use two b in \<open>auto simp: scalar_def\<close>)
    next
      case False
      then show thesis using two bad
        by (cases bs) (auto simp: decode_rune.simps second_range_def)
    qed
  next
    case three
    define lo hi where "lo = fst (second_range ?n)" and "hi = snd (second_range ?n)"
    have lh: "second_range ?n = (lo, hi)" by (simp add: lo_def hi_def)
    show thesis
    proof (cases "\<exists>b1 b2 cs. bs = b1 # b2 # cs \<and> in_range lo hi b1 \<and> in_range 0x80 0xBF b2")
      case True
      then obtain b1 b2 cs where b: "bs = b1 # b2 # cs" "lo \<le> unat b1" "unat b1 \<le> hi"
          "0x80 \<le> unat b2" "unat b2 \<le> 0xBF"
        by (auto simp: in_range_def)
      have lohi: "0x80 \<le> lo" "hi \<le> 0xBF" "?n = 0xE0 \<longrightarrow> lo = 0xA0" "?n = 0xED \<longrightarrow> hi = 0x9F"
        by (auto simp: lo_def hi_def second_range_def)
      have "decode_rune b0 bs
          = ((?n - 0xE0) * 4096 + (unat b1 - 0x80) * 64 + (unat b2 - 0x80), 3)"
        using three b lohi by (simp add: decode_rune.simps lh in_range_def lead_mod cont_mod64)
      moreover have "0x80 \<le> (?n - 0xE0) * 4096 + (unat b1 - 0x80) * 64 + (unat b2 - 0x80)"
        using three b lohi by (cases "?n = 0xE0") linarith+
      moreover have "scalar ((?n - 0xE0) * 4096 + (unat b1 - 0x80) * 64 + (unat b2 - 0x80))"
      proof -
        consider "?n \<le> 0xEC" | "?n = 0xED" | "0xEE \<le> ?n" by linarith
        then show ?thesis using three b lohi unfolding scalar_def by cases linarith+
      qed
      ultimately show thesis using multi three by simp
    next
      case False
      then show thesis using three bad
        by (cases bs; cases "tl bs") (auto simp: decode_rune.simps lh)
    qed
  next
    case four
    define lo hi where "lo = fst (second_range ?n)" and "hi = snd (second_range ?n)"
    have lh: "second_range ?n = (lo, hi)" by (simp add: lo_def hi_def)
    show thesis
    proof (cases "\<exists>b1 b2 b3 cs. bs = b1 # b2 # b3 # cs \<and> in_range lo hi b1
        \<and> in_range 0x80 0xBF b2 \<and> in_range 0x80 0xBF b3")
      case True
      then obtain b1 b2 b3 cs where b: "bs = b1 # b2 # b3 # cs" "lo \<le> unat b1" "unat b1 \<le> hi"
          "0x80 \<le> unat b2" "unat b2 \<le> 0xBF" "0x80 \<le> unat b3" "unat b3 \<le> 0xBF"
        by (auto simp: in_range_def)
      have lohi: "0x80 \<le> lo" "hi \<le> 0xBF" "?n = 0xF0 \<longrightarrow> lo = 0x90" "?n = 0xF4 \<longrightarrow> hi = 0x8F"
        by (auto simp: lo_def hi_def second_range_def)
      have "decode_rune b0 bs = ((?n - 0xF0) * 262144 + (unat b1 - 0x80) * 4096
          + (unat b2 - 0x80) * 64 + (unat b3 - 0x80), 4)"
        using four b lohi by (simp add: decode_rune.simps lh in_range_def lead_mod cont_mod64)
      moreover have "0x10000 \<le> (?n - 0xF0) * 262144 + (unat b1 - 0x80) * 4096
          + (unat b2 - 0x80) * 64 + (unat b3 - 0x80)"
        using four b lohi by (cases "?n = 0xF0") linarith+
      moreover have "(?n - 0xF0) * 262144 + (unat b1 - 0x80) * 4096
          + (unat b2 - 0x80) * 64 + (unat b3 - 0x80) < 0x110000"
        using four b lohi by (cases "?n = 0xF4") linarith+
      ultimately show thesis using multi four by (simp add: scalar_def)
    next
      case False
      then show thesis using four bad
        by (cases bs; cases "tl bs"; cases "tl (tl bs)") (auto simp: decode_rune.simps lh)
    qed
  next
    case 5
    then show thesis using bad by (auto simp: decode_rune.simps split: prod.splits)
  qed
qed

lemma decode_rune_scalar: "scalar (fst (decode_rune b bs))"
  by (cases rule: decode_rune_cases [of b bs]) (auto simp: scalar_def RuneError_def)

lemma decode_rune_zero: "fst (decode_rune b bs) = 0 \<Longrightarrow> b = 0"
  by (cases rule: decode_rune_cases [of b bs]) (auto simp: RuneError_def unat_eq_0)

lemma utf8_decode_scalar: "list_all scalar (utf8_decode s)"
  by (induction s rule: utf8_decode.induct) (auto simp: decode_rune_scalar)

lemma utf8_decode_nonzero: "0 \<notin> set s \<Longrightarrow> 0 \<notin> set (utf8_decode s)"
proof (induction s rule: utf8_decode.induct)
  case (2 b0 bs)
  then show ?case using decode_rune_zero [of b0 bs] by (auto dest: in_set_dropD)
qed simp

lemma utf16_encode_nonzero:
  "list_all scalar rs \<Longrightarrow> 0 \<notin> set rs \<Longrightarrow> 0 \<notin> set (utf16_encode rs)"
proof (induction rs)
  case (Cons r rs)
  have nz: "n < 0x10000 \<Longrightarrow> 0 < n \<Longrightarrow> (of_nat n :: u16) \<noteq> 0" for n
    using unat_of_nat_less [of n, where ?'a = 16] by fastforce
  have "(r - 0x10000) div 1024 < 1024" "(r - 0x10000) mod 1024 < 1024" if "r < 0x110000"
    using that by simp_all
  then show ?case using Cons nz [of r] nz [of "0xD800 + (r - 0x10000) div 1024"]
      nz [of "0xDC00 + (r - 0x10000) mod 1024"]
    by (auto simp: scalar_def)
qed simp

text \<open>A valid string survives the detour through UTF-16.\<close>

lemma utf16_string_roundtrip:
  "valid_utf8 s \<Longrightarrow> utf8_encode (utf16_decode (utf16_encode (utf8_decode s))) = s"
  by (simp add: utf16_roundtrip utf8_decode_scalar valid_utf8_def)

end
