(* ===== verification/Ext_Core.thy ===== *)
theory Ext_Core
  imports Mapi Go_Text
begin

text \<open>
  The primitive layer of \<^verbatim>\<open>internal/ext\<close> (\<^verbatim>\<open>ext.go\<close>, \<^verbatim>\<open>primitives.go\<close>, \<^verbatim>\<open>binary.go\<close>): the write
  buffer \<open>push\<close>, the read cursor \<open>pull\<close>, their primitive operations, and the codec
  interface the structured codecs are built on.

  A \<^verbatim>\<open>*Push\<close> method returns the extended buffer; a fallible one returns \<open>ext_error + push\<close>. A
  \<^verbatim>\<open>*Pull\<close> method returns \<open>ext_error + ('a \<times> pull)\<close>: the value and the advanced cursor. After
  an error neither the partial value nor the partly advanced cursor is used by any caller, so
  both are dropped. \<^verbatim>\<open>float32\<close> and \<^verbatim>\<open>float64\<close> are their IEEE-754 bit patterns.
\<close>

section \<open>Flags, errors, buffers (ext.go)\<close>

abbreviation (input) FlagUTF16 :: u32 where "FlagUTF16 \<equiv> 1"
abbreviation (input) FlagWCount :: u32 where "FlagWCount \<equiv> 2"
abbreviation (input) FlagTBLLMT :: u32 where "FlagTBLLMT \<equiv> 4"
abbreviation (input) FlagABK :: u32 where "FlagABK \<equiv> 8"

definition has_flag :: "u32 \<Rightarrow> u32 \<Rightarrow> bool" where
  "has_flag fl m \<longleftrightarrow> fl AND m \<noteq> 0"

datatype ext_error = ErrUnderflow | ErrFormat | ErrTooDeep | ErrFuel

text \<open>
  \<open>ErrTooDeep\<close> stands for \<^verbatim>\<open>errRestrictionTooDeep\<close> and \<^verbatim>\<open>errTypedValTooDeep\<close>. \<open>ErrFuel\<close> is no error
  of the program: it marks an exhausted recursion bound of the model and is shown never to
  be returned.
\<close>

record push =
  buf :: bytes
  pflags :: u32

definition NewPush :: "u32 \<Rightarrow> push" where
  "NewPush fl = \<lparr>buf = [], pflags = fl\<rparr>"

definition PushLen :: "push \<Rightarrow> nat" where
  "PushLen q = length (buf q)"

record pull =
  rbuf :: bytes
  off :: nat
  rflags :: u32
  resDepth :: nat
  valDepth :: nat

definition NewPull :: "bytes \<Rightarrow> u32 \<Rightarrow> pull" where
  "NewPull b fl = \<lparr>rbuf = b, off = 0, rflags = fl, resDepth = 0, valDepth = 0\<rparr>"

definition Remaining :: "pull \<Rightarrow> int" where
  "Remaining p = int (length (rbuf p)) - int (off p)"

definition checkCount :: "pull \<Rightarrow> u32 \<Rightarrow> ext_error + unit" where
  "checkCount p n = (if uint n > Remaining p then Inl ErrUnderflow else Inr ())"

definition need :: "pull \<Rightarrow> int \<Rightarrow> ext_error + unit" where
  "need p n = (if n < 0 \<or> int (off p) + n > int (length (rbuf p)) then Inl ErrUnderflow else Inr ())"

definition adv :: "nat \<Rightarrow> pull \<Rightarrow> pull" where
  "adv n p = p\<lparr>off := off p + n\<rparr>"

type_synonym 'a reader = "pull \<Rightarrow> ext_error + ('a \<times> pull)"
type_synonym 'a writer = "push \<Rightarrow> 'a \<Rightarrow> ext_error + push"

section \<open>Integers, booleans, raw bytes (primitives.go)\<close>

definition PushUint8 :: "push \<Rightarrow> u8 \<Rightarrow> push" where
  "PushUint8 q v = q\<lparr>buf := buf q @ [v]\<rparr>"

definition PushUint16 :: "push \<Rightarrow> u16 \<Rightarrow> push" where
  "PushUint16 q v = q\<lparr>buf := buf q @ le_bytes 2 v\<rparr>"

definition PushUint32 :: "push \<Rightarrow> u32 \<Rightarrow> push" where
  "PushUint32 q v = q\<lparr>buf := buf q @ le_bytes 4 v\<rparr>"

definition PushUint64 :: "push \<Rightarrow> u64 \<Rightarrow> push" where
  "PushUint64 q v = q\<lparr>buf := buf q @ le_bytes 8 v\<rparr>"

definition PullUint8 :: "u8 reader" where
  "PullUint8 p = bindr (need p 1) (\<lambda>_. Inr (rbuf p ! off p, adv 1 p))"

definition PullUint16 :: "u16 reader" where
  "PullUint16 p = bindr (need p 2) (\<lambda>_. Inr (le_word (take 2 (drop (off p) (rbuf p))), adv 2 p))"

definition PullUint32 :: "u32 reader" where
  "PullUint32 p = bindr (need p 4) (\<lambda>_. Inr (le_word (take 4 (drop (off p) (rbuf p))), adv 4 p))"

definition PullUint64 :: "u64 reader" where
  "PullUint64 p = bindr (need p 8) (\<lambda>_. Inr (le_word (take 8 (drop (off p) (rbuf p))), adv 8 p))"

definition PushFloat32 :: "push \<Rightarrow> u32 \<Rightarrow> push" where
  "PushFloat32 q v = PushUint32 q v"

definition PushFloat64 :: "push \<Rightarrow> u64 \<Rightarrow> push" where
  "PushFloat64 q v = PushUint64 q v"

definition PullFloat32 :: "u32 reader" where
  "PullFloat32 p = PullUint32 p"

definition PullFloat64 :: "u64 reader" where
  "PullFloat64 p = PullUint64 p"

definition PushBool :: "push \<Rightarrow> bool \<Rightarrow> push" where
  "PushBool q v = (if v then PushUint8 q 1 else PushUint8 q 0)"

definition PullBool :: "bool reader" where
  "PullBool p = bindr (PullUint8 p) (\<lambda>(v, p). if v > 1 then Inl ErrFormat else Inr (v = 1, p))"

definition PushRaw :: "push \<Rightarrow> bytes \<Rightarrow> push" where
  "PushRaw q b = q\<lparr>buf := buf q @ b\<rparr>"

definition PullRaw :: "int \<Rightarrow> bytes reader" where
  "PullRaw n p = bindr (need p n)
     (\<lambda>_. Inr (take (nat n) (drop (off p) (rbuf p)), adv (nat n) p))"

definition PushGUID :: "push \<Rightarrow> guid \<Rightarrow> push" where
  "PushGUID q g =
     PushRaw (PushUint16 (PushUint16 (PushUint32 q (Data1 g)) (Data2 g)) (Data3 g)) (Data4 g)"

definition PullGUID :: "guid reader" where
  "PullGUID p =
     bindr (PullUint32 p) (\<lambda>(d1, p).
     bindr (PullUint16 p) (\<lambda>(d2, p).
     bindr (PullUint16 p) (\<lambda>(d3, p).
     bindr (need p 8) (\<lambda>_.
     Inr (\<lparr>Data1 = d1, Data2 = d2, Data3 = d3, Data4 = take 8 (drop (off p) (rbuf p))\<rparr>,
          adv 8 p)))))"

section \<open>Length-prefixed blobs (primitives.go, binary.go)\<close>

definition PushBin :: "bytes writer" where
  "PushBin q b =
     (if has_flag (pflags q) FlagWCount then Inr (PushRaw (PushUint32 q (of_nat (length b))) b)
      else if length b > 0xFFFF then Inl ErrFormat
      else Inr (PushRaw (PushUint16 q (of_nat (length b))) b))"

definition PullBin :: "bytes reader" where
  "PullBin p =
     (if has_flag (rflags p) FlagWCount
      then bindr (PullUint32 p) (\<lambda>(v, p). PullRaw (uint v) p)
      else bindr (PullUint16 p) (\<lambda>(v, p). PullRaw (uint v) p))"

definition PushBinShort :: "bytes writer" where
  "PushBinShort q b =
     (if length b > 0xFFFF then Inl ErrFormat
      else Inr (PushRaw (PushUint16 q (of_nat (length b))) b))"

definition PullBinShort :: "bytes reader" where
  "PullBinShort p = bindr (PullUint16 p) (\<lambda>(n, p). PullRaw (uint n) p)"

definition PushBinEx :: "push \<Rightarrow> bytes \<Rightarrow> push" where
  "PushBinEx q b = PushRaw (PushUint32 q (of_nat (length b))) b"

definition PullBinEx :: "bytes reader" where
  "PullBinEx p = bindr (PullUint32 p) (\<lambda>(n, p). PullRaw (uint n) p)"

definition PushBlob :: "push \<Rightarrow> bytes \<Rightarrow> push" where
  "PushBlob q b = PushRaw q b"

definition PullBlob :: "bytes reader" where
  "PullBlob p = PullRaw (Remaining p) p"

section \<open>Strings (primitives.go)\<close>

definition PushString8 :: "push \<Rightarrow> go_string \<Rightarrow> push" where
  "PushString8 q s =
     (let b = (if has_flag (pflags q) FlagTBLLMT \<and> length s > 509 then take 509 s else s)
      in PushUint8 (PushRaw q b) 0)"

text \<open>The scan of \<^verbatim>\<open>String8\<close> for the NUL terminator, from the cursor on.\<close>

fun scan_nul :: "bytes \<Rightarrow> bytes option" where
  "scan_nul [] = None"
| "scan_nul (b # bs) = (if b = 0 then Some [] else map_option (Cons b) (scan_nul bs))"

definition PullString8 :: "go_string reader" where
  "PullString8 p =
     (case scan_nul (drop (off p) (rbuf p)) of
        Some s \<Rightarrow> Inr (s, adv (length s + 1) p)
      | None \<Rightarrow> Inl ErrFormat)"

definition PushUnicode :: "push \<Rightarrow> go_string \<Rightarrow> push" where
  "PushUnicode q s =
     (if \<not> has_flag (pflags q) FlagUTF16 then PushString8 q s
      else (let units = utf16_encode (utf8_decode s);
                units = (if has_flag (pflags q) FlagTBLLMT \<and> (length units + 1) * 2 > 510
                         then take 254 units else units)
            in PushUint16 (fold (\<lambda>u q. PushUint16 q u) units q) 0))"

text \<open>
  The scan of \<^verbatim>\<open>Unicode\<close> for the aligned \<^verbatim>\<open>00 00\<close> terminator, collecting the code units
  before it.
\<close>

fun scan_units :: "bytes \<Rightarrow> u16 list option" where
  "scan_units (a # b # bs) =
     (if a = 0 \<and> b = 0 then Some [] else map_option (Cons (le_word [a, b])) (scan_units bs))"
| "scan_units _ = None"

definition PullUnicode :: "go_string reader" where
  "PullUnicode p =
     (if \<not> has_flag (rflags p) FlagUTF16 then PullString8 p
      else (case scan_units (drop (off p) (rbuf p)) of
          Some units \<Rightarrow> Inr (utf8_encode (utf16_decode units), adv (2 * length units + 2) p)
        | None \<Rightarrow> Inl ErrFormat))"

section \<open>SYSTEMTIME and the RPC header (binary.go, rpc.go)\<close>

record system_time =
  Year :: u16
  Month :: u16
  DayOfWeek :: u16
  Day :: u16
  Hour :: u16
  Minute :: u16
  Second :: u16
  Milliseconds :: u16

definition PushSystemTime :: "push \<Rightarrow> system_time \<Rightarrow> push" where
  "PushSystemTime q t =
     fold (\<lambda>v q. PushUint16 q v)
       [Year t, Month t, DayOfWeek t, Day t, Hour t, Minute t, Second t, Milliseconds t] q"

definition PullSystemTime :: "system_time reader" where
  "PullSystemTime p =
     bindr (PullUint16 p) (\<lambda>(y, p). bindr (PullUint16 p) (\<lambda>(mo, p).
     bindr (PullUint16 p) (\<lambda>(dw, p). bindr (PullUint16 p) (\<lambda>(d, p).
     bindr (PullUint16 p) (\<lambda>(h, p). bindr (PullUint16 p) (\<lambda>(mi, p).
     bindr (PullUint16 p) (\<lambda>(s, p). bindr (PullUint16 p) (\<lambda>(ms, p).
     Inr (\<lparr>Year = y, Month = mo, DayOfWeek = dw, Day = d, Hour = h, Minute = mi,
          Second = s, Milliseconds = ms\<rparr>, p)))))))))"

record rpc_header_ext =
  Version :: u16
  HFlags :: u16
  HSize :: u16
  SizeActual :: u16

definition PushRPCHeaderExt :: "push \<Rightarrow> rpc_header_ext \<Rightarrow> push" where
  "PushRPCHeaderExt q h =
     PushUint16 (PushUint16 (PushUint16 (PushUint16 q (Version h)) (HFlags h)) (HSize h)) (SizeActual h)"

definition PullRPCHeaderExt :: "rpc_header_ext reader" where
  "PullRPCHeaderExt p =
     bindr (PullUint16 p) (\<lambda>(v, p). bindr (PullUint16 p) (\<lambda>(f, p).
     bindr (PullUint16 p) (\<lambda>(s, p). bindr (PullUint16 p) (\<lambda>(a, p).
     Inr (\<lparr>Version = v, HFlags = f, HSize = s, SizeActual = a\<rparr>, p)))))"

section \<open>Loops over elements\<close>

text \<open>
  \<^verbatim>\<open>for _, x := range xs { if err := write(p, x); err != nil { return err } }\<close> and the loop that
  fills a slice of length \<open>n\<close> element by element.
\<close>

fun pushEach :: "'a writer \<Rightarrow> push \<Rightarrow> 'a list \<Rightarrow> ext_error + push" where
  "pushEach wr q [] = Inr q"
| "pushEach wr q (x # xs) = bindr (wr q x) (\<lambda>q. pushEach wr q xs)"

fun pullN :: "nat \<Rightarrow> 'a reader \<Rightarrow> 'a list reader" where
  "pullN 0 rd p = Inr ([], p)"
| "pullN (Suc n) rd p =
     bindr (rd p) (\<lambda>(x, p). bindr (pullN n rd p) (\<lambda>(xs, p). Inr (x # xs, p)))"

text \<open>
  The counted-array code repeated through \<^verbatim>\<open>propval.go\<close>, \<^verbatim>\<open>arrays.go\<close> and \<^verbatim>\<open>propname.go\<close>: a 16- or
  32-bit count, then the elements. The readers ending in \<open>z\<close> return early on a zero count.
\<close>

definition pushArr16 :: "'a writer \<Rightarrow> 'a list writer" where
  "pushArr16 wr q xs =
     (if length xs > 0xFFFF then Inl ErrFormat
      else pushEach wr (PushUint16 q (of_nat (length xs))) xs)"

definition pushArr32 :: "'a writer \<Rightarrow> 'a list writer" where
  "pushArr32 wr q xs = pushEach wr (PushUint32 q (of_nat (length xs))) xs"

definition pullArr16 :: "'a reader \<Rightarrow> 'a list reader" where
  "pullArr16 rd p = bindr (PullUint16 p) (\<lambda>(n, p).
     bindr (checkCount p (ucast n)) (\<lambda>_. pullN (unat n) rd p))"

definition pullArr32 :: "'a reader \<Rightarrow> 'a list reader" where
  "pullArr32 rd p = bindr (PullUint32 p) (\<lambda>(n, p).
     bindr (checkCount p n) (\<lambda>_. pullN (unat n) rd p))"

definition pullArr16z :: "'a reader \<Rightarrow> 'a list reader" where
  "pullArr16z rd p = bindr (PullUint16 p) (\<lambda>(n, p). if n = 0 then Inr ([], p)
     else bindr (checkCount p (ucast n)) (\<lambda>_. pullN (unat n) rd p))"

definition pullArr32z :: "'a reader \<Rightarrow> 'a list reader" where
  "pullArr32z rd p = bindr (PullUint32 p) (\<lambda>(n, p). if n = 0 then Inr ([], p)
     else bindr (checkCount p n) (\<lambda>_. pullN (unat n) rd p))"

lemma pushEach_cong [fundef_cong]:
  assumes "xs = ys" "\<And>q x. x \<in> set ys \<Longrightarrow> f q x = g q x" "q = q'"
  shows "pushEach f q xs = pushEach g q' ys"
proof -
  have "(\<And>q x. x \<in> set ys \<Longrightarrow> f q x = g q x) \<Longrightarrow> pushEach f q' ys = pushEach g q' ys"
    by (induction ys arbitrary: q') (auto intro!: bindr_cong)
  then show ?thesis using assms by simp
qed

section \<open>The cursor and its unread bytes\<close>

definition wf_pull :: "pull \<Rightarrow> bool" where
  "wf_pull p \<longleftrightarrow> off p \<le> length (rbuf p)"

definition unread :: "pull \<Rightarrow> bytes" where
  "unread p = drop (off p) (rbuf p)"

lemma adv_simps [simp]:
  "rbuf (adv n p) = rbuf p" "off (adv n p) = off p + n" "rflags (adv n p) = rflags p"
  "resDepth (adv n p) = resDepth p" "valDepth (adv n p) = valDepth p"
  "adv 0 p = p" "adv m (adv n p) = adv (n + m) p"
  by (simp_all add: adv_def)

lemma unread_adv [simp]: "unread (adv n p) = drop n (unread p)"
  by (simp add: unread_def add.commute)

lemma wf_adv [simp]: "wf_pull p \<Longrightarrow> n \<le> length (unread p) \<Longrightarrow> wf_pull (adv n p)"
  by (simp add: wf_pull_def unread_def)

lemma wf_NewPull [simp]: "wf_pull (NewPull b fl)"
  and unread_NewPull [simp]: "unread (NewPull b fl) = b"
  and NewPull_sel [simp]: "rflags (NewPull b fl) = fl" "resDepth (NewPull b fl) = 0"
    "valDepth (NewPull b fl) = 0"
  by (simp_all add: wf_pull_def unread_def NewPull_def)

lemma need_eq [reader_eqs]:
  "wf_pull p \<Longrightarrow> need p n = (if n < 0 \<or> int (length (unread p)) < n then Inl ErrUnderflow else Inr ())"
  by (auto simp: need_def wf_pull_def unread_def)

lemma Remaining_eq: "wf_pull p \<Longrightarrow> Remaining p = int (length (unread p))"
  by (simp add: Remaining_def wf_pull_def unread_def)

lemma checkCount_eq [reader_eqs]:
  "wf_pull p \<Longrightarrow> checkCount p n = (if length (unread p) < unat n then Inl ErrUnderflow else Inr ())"
proof -
  assume "wf_pull p"
  moreover have "uint n = int (unat n)" by simp
  ultimately show ?thesis by (simp only: checkCount_def Remaining_eq of_nat_less_iff)
qed

lemma PullUint8_eq [reader_eqs]:
  "wf_pull p \<Longrightarrow> PullUint8 p = (if unread p = [] then Inl ErrUnderflow else Inr (hd (unread p), adv 1 p))"
  by (auto simp: PullUint8_def need_eq) (simp add: unread_def hd_drop_conv_nth)

lemma PullUintN_eqs [reader_eqs]:
  "wf_pull p \<Longrightarrow> PullUint16 p = (if length (unread p) < 2 then Inl ErrUnderflow
     else Inr (le_word (take 2 (unread p)), adv 2 p))"
  "wf_pull p \<Longrightarrow> PullUint32 p = (if length (unread p) < 4 then Inl ErrUnderflow
     else Inr (le_word (take 4 (unread p)), adv 4 p))"
  "wf_pull p \<Longrightarrow> PullUint64 p = (if length (unread p) < 8 then Inl ErrUnderflow
     else Inr (le_word (take 8 (unread p)), adv 8 p))"
  by (auto simp: PullUint16_def PullUint32_def PullUint64_def need_eq unread_def)

lemma PullRaw_eq [reader_eqs]:
  "wf_pull p \<Longrightarrow> PullRaw n p = (if n < 0 \<or> int (length (unread p)) < n then Inl ErrUnderflow
     else Inr (take (nat n) (unread p), adv (nat n) p))"
  by (auto simp: PullRaw_def need_eq unread_def)

lemma PullGUID_eq [reader_eqs]:
  "wf_pull p \<Longrightarrow> PullGUID p = (if length (unread p) < 16 then Inl ErrUnderflow
     else Inr (FlatToGUID (take 16 (unread p)), adv 16 p))"
  by (auto simp: PullGUID_def reader_eqs FlatToGUID_def drop_take min_def add.commute)
    (simp_all add: unread_def add.commute)

lemma PullString8_eq [reader_eqs]:
  "PullString8 p = (case scan_nul (unread p) of
     Some s \<Rightarrow> Inr (s, adv (length s + 1) p) | None \<Rightarrow> Inl ErrFormat)"
  by (simp add: PullString8_def unread_def)

lemma PullUnicode_eq [reader_eqs]:
  "has_flag (rflags p) FlagUTF16 \<Longrightarrow> PullUnicode p = (case scan_units (unread p) of
     Some units \<Rightarrow> Inr (utf8_encode (utf16_decode units), adv (2 * length units + 2) p)
   | None \<Rightarrow> Inl ErrFormat)"
  "\<not> has_flag (rflags p) FlagUTF16 \<Longrightarrow> PullUnicode p = PullString8 p"
  by (simp_all add: PullUnicode_def unread_def)

lemma scan_nul_append [simp]: "0 \<notin> set s \<Longrightarrow> scan_nul (s @ 0 # rest) = Some s"
  by (induction s) auto

lemma scan_nul_Some: "scan_nul bs = Some s \<Longrightarrow> length s < length bs \<and> 0 \<notin> set s"
  by (induction bs arbitrary: s) (auto split: if_splits)

lemma le_bytes_2: "le_bytes 2 w = [ucast w, ucast (drop_bit 8 w)]"
  by (simp add: numeral_2_eq_2)

lemma le_bytes_2_zero: "le_bytes 2 (u :: u16) = [a, b] \<Longrightarrow> a = 0 \<and> b = 0 \<longleftrightarrow> u = 0"
proof -
  assume h: "le_bytes 2 u = [a, b]"
  have "u = le_word [a, b]" using le_word_le_bytes [of 2 u] by (simp add: h)
  then show ?thesis using h by (auto simp: numeral_2_eq_2)
qed

lemma scan_units_append [simp]:
  "0 \<notin> set us \<Longrightarrow> scan_units (concat (map (le_bytes 2) us) @ 0 # 0 # rest) = Some us"
proof (induction us)
  case Nil
  then show ?case by simp
next
  case (Cons u us)
  obtain a b where ab: "le_bytes 2 u = [a, b]" by (simp add: le_bytes_2)
  have "le_word [a, b] = u" using le_word_le_bytes [of 2 u] by (simp add: ab)
  moreover have "\<not> (a = 0 \<and> b = 0)" using Cons.prems le_bytes_2_zero [OF ab] by auto
  ultimately show ?case using Cons by (simp add: ab)
qed

lemma scan_units_Some: "scan_units bs = Some us \<Longrightarrow> 2 * length us + 2 \<le> length bs"
  by (induction bs arbitrary: us rule: scan_units.induct) (auto split: if_splits)

section \<open>Write operations as appends\<close>

named_theorems push_eqs \<open>every writer as one append of raw bytes\<close>

lemma PushRaw_simps [simp]:
  "pflags (PushRaw q bs) = pflags q" "buf (PushRaw q bs) = buf q @ bs"
  "PushRaw (PushRaw q bs) cs = PushRaw q (bs @ cs)" "PushRaw q [] = q"
  by (simp_all add: PushRaw_def)

lemma PushUint_eqs [push_eqs]:
  "PushUint8 q v8 = PushRaw q [v8]" "PushUint16 q v16 = PushRaw q (le_bytes 2 v16)"
  "PushUint32 q v32 = PushRaw q (le_bytes 4 v32)" "PushUint64 q v64 = PushRaw q (le_bytes 8 v64)"
  by (simp_all add: PushUint8_def PushUint16_def PushUint32_def PushUint64_def PushRaw_def)

lemma PushGUID_eq [push_eqs]: "guid_wf g \<Longrightarrow> PushGUID q g = PushRaw q (Flat g)"
  by (simp add: PushGUID_def push_eqs Flat_def guid_wf_def)

lemma PushString8_eq [push_eqs]:
  "\<not> (has_flag (pflags q) FlagTBLLMT \<and> 509 < length s) \<Longrightarrow> PushString8 q s = PushRaw q (s @ [0])"
  by (auto simp: PushString8_def push_eqs)

lemma replicate_2: "replicate 2 x = [x, x]"
  by (simp add: numeral_2_eq_2)

lemma fold_PushUint16: "fold (\<lambda>u q. PushUint16 q u) us q = PushRaw q (concat (map (le_bytes 2) us))"
  by (induction us arbitrary: q) (simp_all add: push_eqs)

lemma PushUnicode_eq [push_eqs]:
  "\<not> has_flag (pflags q) FlagUTF16 \<Longrightarrow> PushUnicode q s = PushString8 q s"
  "has_flag (pflags q) FlagUTF16 \<Longrightarrow>
     \<not> (has_flag (pflags q) FlagTBLLMT \<and> 254 < length (utf16_encode (utf8_decode s))) \<Longrightarrow>
     PushUnicode q s = PushRaw q (concat (map (le_bytes 2) (utf16_encode (utf8_decode s))) @ [0, 0])"
  unfolding PushUnicode_def Let_def fold_PushUint16
  by (auto simp: push_eqs replicate_2)

section \<open>What a reader consumes\<close>

text \<open>
  \<open>consumes m rd\<close>: a successful read moves the cursor forward by at least \<open>m\<close> bytes, stays
  inside the buffer and changes nothing else of the cursor.
\<close>

definition consumes :: "nat \<Rightarrow> 'a reader \<Rightarrow> bool" where
  "consumes m rd \<longleftrightarrow> (\<forall>p x p'. wf_pull p \<longrightarrow> rd p = Inr (x, p') \<longrightarrow>
     (\<exists>k. m \<le> k \<and> k \<le> length (unread p) \<and> p' = adv k p))"

named_theorems consume_rules \<open>compositional rules for \<open>consumes\<close>\<close>

lemma consumesI:
  "(\<And>p x p'. wf_pull p \<Longrightarrow> rd p = Inr (x, p') \<Longrightarrow>
     \<exists>k. m \<le> k \<and> k \<le> length (unread p) \<and> p' = adv k p) \<Longrightarrow> consumes m rd"
  by (simp add: consumes_def)

lemma consumesE:
  assumes "consumes m rd" "wf_pull p" "rd p = Inr (x, p')"
  obtains k where "m \<le> k" "k \<le> length (unread p)" "p' = adv k p"
  using assms unfolding consumes_def by blast

lemma consumes_mono: "consumes m rd \<Longrightarrow> n \<le> m \<Longrightarrow> consumes n rd"
  unfolding consumes_def by (meson order_trans)

lemma consumes_return [consume_rules]: "consumes 0 (\<lambda>p. Inr (x, p))"
  by (auto intro!: consumesI exI [of _ 0])

lemma consumes_fail [consume_rules]: "consumes m (\<lambda>p. Inl e)"
  by (auto intro!: consumesI)

lemma consumes_bind:
  assumes "consumes m rd" "\<And>x. consumes n (f x)"
  shows "consumes (m + n) (\<lambda>p. bindr (rd p) (case_prod f))"
proof (rule consumesI)
  fix p y p'
  assume "wf_pull p" and "bindr (rd p) (case_prod f) = Inr (y, p')"
  then obtain x p1 where 1: "rd p = Inr (x, p1)" and 2: "f x p1 = Inr (y, p')" by auto
  from assms(1) \<open>wf_pull p\<close> 1 obtain k where k: "m \<le> k" "k \<le> length (unread p)" "p1 = adv k p"
    by (rule consumesE)
  then have "wf_pull p1" using \<open>wf_pull p\<close> by simp
  from assms(2) this 2 obtain j where "n \<le> j" "j \<le> length (unread p1)" "p' = adv j p1"
    by (rule consumesE)
  with k show "\<exists>i. m + n \<le> i \<and> i \<le> length (unread p) \<and> p' = adv i p"
    by (intro exI [of _ "k + j"]) simp
qed

lemma consumes_bind0 [consume_rules]:
  "consumes m rd \<Longrightarrow> (\<And>x. consumes 0 (f x)) \<Longrightarrow> consumes m (\<lambda>p. bindr (rd p) (case_prod f))"
  using consumes_bind [of m rd 0 f] by simp

lemma consumes_if [consume_rules]:
  "consumes m a \<Longrightarrow> consumes m b \<Longrightarrow> consumes m (\<lambda>p. if c p then a p else b p)"
  by (auto simp: consumes_def)

lemma consumes_test [consume_rules]:
  "(\<And>u. consumes m (rd u)) \<Longrightarrow> consumes m (\<lambda>p. bindr (t p) (\<lambda>u. rd u p))"
  by (auto intro!: consumesI elim: consumesE)

lemma consumes_option [consume_rules]:
  "consumes m a \<Longrightarrow> (\<And>x. consumes m (b x)) \<Longrightarrow>
     consumes m (\<lambda>p. case v of None \<Rightarrow> a p | Some x \<Rightarrow> b x p)"
  by (cases v) auto

lemma consumes_let_pair [consume_rules]:
  "(\<And>x y. consumes m (f x y)) \<Longrightarrow> consumes m (\<lambda>p. case z of (x, y) \<Rightarrow> f x y p)"
  by (cases z) auto

lemma consumes_pullN: "consumes m rd \<Longrightarrow> consumes (n * m) (pullN n rd)"
proof (induction n)
  case 0
  then show ?case by (auto intro!: consumesI exI [of _ 0])
next
  case (Suc n)
  have "consumes (m + n * m)
      (\<lambda>p. bindr (rd p) (\<lambda>(x, p). bindr (pullN n rd p) (\<lambda>(xs, p). Inr (x # xs, p))))"
    by (rule consumes_bind [OF Suc.prems]) (intro consume_rules Suc.IH Suc.prems)
  then show ?case by (simp add: consumes_def)
qed

lemma consumes_pullN0 [consume_rules]: "consumes m rd \<Longrightarrow> consumes 0 (pullN n rd)"
  by (rule consumes_mono [OF consumes_pullN]) auto

lemma consumes_PullUint8: "consumes 1 PullUint8"
  by (auto intro!: consumesI exI [of _ 1] simp: reader_eqs Suc_le_eq split: if_splits)

lemma consumes_PullUint16: "consumes 2 PullUint16"
  and consumes_PullUint32: "consumes 4 PullUint32"
  and consumes_PullUint64: "consumes 8 PullUint64"
  by (rule consumesI, simp add: reader_eqs split: if_splits, fastforce)+

lemma consumes_PullRaw: "consumes (nat n) (PullRaw n)"
  by (rule consumesI) (auto simp: reader_eqs split: if_splits)

lemma consumes_PullGUID: "consumes 16 PullGUID"
  by (rule consumesI, simp add: reader_eqs split: if_splits, fastforce)

lemma consumes_PullString8: "consumes 1 PullString8"
  by (rule consumesI)
    (auto simp: reader_eqs dest!: scan_nul_Some split: option.splits intro!: exI [of _ "Suc _"])

lemma consumes_PullUnicode: "consumes 1 PullUnicode"
proof (rule consumesI)
  fix p x p'
  assume *: "wf_pull p" "PullUnicode p = Inr (x, p')"
  show "\<exists>k. 1 \<le> k \<and> k \<le> length (unread p) \<and> p' = adv k p"
  proof (cases "has_flag (rflags p) FlagUTF16")
    case True
    with * obtain us where "scan_units (unread p) = Some us" "p' = adv (2 * length us + 2) p"
      by (auto simp: reader_eqs split: option.splits)
    then show ?thesis by (intro exI [of _ "2 * length us + 2"]) (auto dest: scan_units_Some)
  next
    case False
    with * show ?thesis using consumes_PullString8 by (auto simp: PullUnicode_eq elim: consumesE)
  qed
qed

lemmas consumes_word0 [consume_rules] =
  consumes_PullUint8 [THEN consumes_mono] consumes_PullUint16 [THEN consumes_mono]
  consumes_PullUint32 [THEN consumes_mono] consumes_PullUint64 [THEN consumes_mono]
  consumes_PullGUID [THEN consumes_mono] consumes_PullRaw [THEN consumes_mono]
  consumes_PullString8 [THEN consumes_mono] consumes_PullUnicode [THEN consumes_mono]

lemma consumes_PullBool: "consumes 1 PullBool"
  unfolding PullBool_def [abs_def] by (intro consume_rules) simp_all

lemma consumes_PullBin: "consumes 2 PullBin"
  unfolding PullBin_def [abs_def] by (intro consume_rules) simp_all

lemma consumes_PullBinShort: "consumes 2 PullBinShort"
  unfolding PullBinShort_def [abs_def] by (intro consume_rules) simp_all

lemma consumes_PullBinEx: "consumes 4 PullBinEx"
  unfolding PullBinEx_def [abs_def] by (intro consume_rules) simp_all

lemma consumes_PullSystemTime: "consumes 2 PullSystemTime"
  unfolding PullSystemTime_def [abs_def] by (intro consume_rules) simp_all

lemma consumes_PullRPCHeaderExt: "consumes 2 PullRPCHeaderExt"
  unfolding PullRPCHeaderExt_def [abs_def] by (intro consume_rules) simp_all

section \<open>The codec interface\<close>

text \<open>
  \<open>reads rd G bs x\<close>: wherever the guard \<open>G\<close> holds and the unread bytes start with \<open>bs\<close>, the
  reader returns \<open>x\<close> and stops right behind \<open>bs\<close>.
\<close>

definition reads :: "'a reader \<Rightarrow> (pull \<Rightarrow> bool) \<Rightarrow> bytes \<Rightarrow> 'a \<Rightarrow> bool" where
  "reads rd G bs x \<longleftrightarrow> (\<forall>p rest. wf_pull p \<longrightarrow> G p \<longrightarrow> unread p = bs @ rest \<longrightarrow>
     rd p = Inr (x, adv (length bs) p))"

lemma readsI:
  "(\<And>p rest. wf_pull p \<Longrightarrow> G p \<Longrightarrow> unread p = bs @ rest \<Longrightarrow> rd p = Inr (x, adv (length bs) p)) \<Longrightarrow>
     reads rd G bs x"
  by (simp add: reads_def)

lemma readsD:
  "reads rd G bs x \<Longrightarrow> wf_pull p \<Longrightarrow> G p \<Longrightarrow> unread p = bs @ rest \<Longrightarrow>
     rd p = Inr (x, adv (length bs) p)"
  by (auto simp: reads_def)

lemma reads_mono: "reads rd G bs x \<Longrightarrow> (\<And>p. H p \<Longrightarrow> G p) \<Longrightarrow> reads rd H bs x"
  by (auto simp: reads_def)

lemma reads_return: "reads (\<lambda>p. Inr (x, p)) G [] x"
  by (simp add: reads_def)

lemma reads_bind:
  assumes "reads rd G bs x" "reads (f x) G cs y" "\<And>n p. G p \<Longrightarrow> G (adv n p)"
  shows "reads (\<lambda>p. bindr (rd p) (case_prod f)) G (bs @ cs) y"
proof (rule readsI)
  fix p rest
  assume p: "wf_pull p" "G p" "unread p = (bs @ cs) @ rest"
  then have "rd p = Inr (x, adv (length bs) p)"
    using readsD [OF assms(1), of p "cs @ rest"] by simp
  moreover have "f x (adv (length bs) p) = Inr (y, adv (length cs) (adv (length bs) p))"
    using p by (intro readsD [OF assms(2), of _ rest] assms(3)) simp_all
  ultimately show "bindr (rd p) (case_prod f) = Inr (y, adv (length (bs @ cs)) p)" by simp
qed

text \<open>
  A codec is a writer and a reader that agree: on every value admitted by \<open>ok\<close> under the
  writer's flags, writing succeeds, appends a non-empty byte string, and the reader under the
  same flags gets the value back from exactly those bytes. \<open>G\<close> is what reading needs of the
  cursor besides the flags (its nesting depths).
\<close>

locale codec =
  fixes wr :: "'a writer" and rd :: "'a reader" and ok :: "u32 \<Rightarrow> 'a \<Rightarrow> bool"
    and G :: "'a \<Rightarrow> pull \<Rightarrow> bool"
  assumes stable: "G x p \<Longrightarrow> G x (adv n p)"
    and write_read: "ok (pflags q) x \<Longrightarrow> \<exists>bs. bs \<noteq> [] \<and> wr q x = Inr (PushRaw q bs)
      \<and> reads rd (\<lambda>p. rflags p = pflags q \<and> G x p) bs x"
begin

lemma elements:
  "list_all (ok (pflags q)) xs \<Longrightarrow> \<exists>bs. length xs \<le> length bs \<and> pushEach wr q xs = Inr (PushRaw q bs)
     \<and> reads (pullN (length xs) rd) (\<lambda>p. rflags p = pflags q \<and> (\<forall>x\<in>set xs. G x p)) bs xs"
proof (induction xs arbitrary: q)
  case Nil
  then show ?case by (auto simp: reads_def intro!: exI [of _ "[]"])
next
  case (Cons x xs)
  then obtain bs where bs: "bs \<noteq> []" "wr q x = Inr (PushRaw q bs)"
      "reads rd (\<lambda>p. rflags p = pflags q \<and> G x p) bs x"
    using write_read [of q x] by auto
  from Cons obtain cs where cs: "length xs \<le> length cs" "pushEach wr (PushRaw q bs) xs = Inr (PushRaw q (bs @ cs))"
      "reads (pullN (length xs) rd) (\<lambda>p. rflags p = pflags q \<and> (\<forall>x\<in>set xs. G x p)) cs xs"
    using Cons.IH [of "PushRaw q bs"] by auto
  let ?H = "\<lambda>p. rflags p = pflags q \<and> (\<forall>y\<in>set (x # xs). G y p)"
  have "reads (\<lambda>p. bindr (pullN (length xs) rd p) (\<lambda>(ys, p). Inr (x # ys, p))) ?H (cs @ []) (x # xs)"
    by (rule reads_bind [OF reads_mono [OF cs(3)] reads_return]) (auto intro: stable)
  then have "reads (\<lambda>p. bindr (rd p) (\<lambda>(x, p). bindr (pullN (length xs) rd p) (\<lambda>(ys, p). Inr (x # ys, p))))
      ?H (bs @ cs @ []) (x # xs)"
    by (intro reads_bind [OF reads_mono [OF bs(3)]]) (auto intro: stable)
  then have "reads (pullN (length (x # xs)) rd) ?H (bs @ cs) (x # xs)"
    by (simp add: reads_def)
  moreover have "length (x # xs) \<le> length (bs @ cs)"
    using bs(1) cs(1) by (cases bs) auto
  moreover have "pushEach wr q (x # xs) = Inr (PushRaw q (bs @ cs))" using bs(2) cs(2) by simp
  ultimately show ?case by blast
qed

text \<open>
  Counted arrays: the count check against the bytes left never refuses what the writer
  produced.
\<close>

lemma array16:
  assumes "list_all (ok (pflags q)) xs" "length xs \<le> 0xFFFF"
  shows "\<exists>bs. bs \<noteq> [] \<and> pushArr16 wr q xs = Inr (PushRaw q bs)
     \<and> reads (pullArr16 rd) (\<lambda>p. rflags p = pflags q \<and> (\<forall>x\<in>set xs. G x p)) bs xs"
proof -
  let ?c = "of_nat (length xs) :: u16"
  obtain bs where bs: "length xs \<le> length bs"
      "pushEach wr (PushUint16 q ?c) xs = Inr (PushRaw (PushUint16 q ?c) bs)"
      "reads (pullN (length xs) rd) (\<lambda>p. rflags p = pflags q \<and> (\<forall>x\<in>set xs. G x p)) bs xs"
    using elements [of "PushUint16 q ?c" xs] assms(1) by (auto simp: push_eqs)
  have cnt: "unat ?c = length xs" "unat (ucast ?c :: u32) = length xs"
    using assms(2) by (simp_all add: unsigned_ucast_eq take_bit_nat_eq_self)
  have "reads (pullArr16 rd) (\<lambda>p. rflags p = pflags q \<and> (\<forall>x\<in>set xs. G x p)) (le_bytes 2 ?c @ bs) xs"
  proof (rule readsI, elim conjE)
    fix p rest
    assume p: "wf_pull p" "rflags p = pflags q" "\<forall>x\<in>set xs. G x p"
      "unread p = (le_bytes 2 ?c @ bs) @ rest"
    have "pullN (length xs) rd (adv 2 p) = Inr (xs, adv (length bs) (adv 2 p))"
      using readsD [OF bs(3), of "adv 2 p" rest] p by (simp add: stable)
    then show "pullArr16 rd p = Inr (xs, adv (length (le_bytes 2 ?c @ bs)) p)"
      using p bs(1) by (simp add: pullArr16_def reader_eqs cnt)
  qed
  moreover have "pushArr16 wr q xs = Inr (PushRaw q (le_bytes 2 ?c @ bs))"
    using bs(2) assms(2) by (simp add: pushArr16_def push_eqs)
  ultimately show ?thesis by (intro exI [of _ "le_bytes 2 ?c @ bs"]) simp
qed

lemma array32:
  assumes "list_all (ok (pflags q)) xs" "length xs < 2 ^ 32"
  shows "\<exists>bs. bs \<noteq> [] \<and> pushArr32 wr q xs = Inr (PushRaw q bs)
     \<and> reads (pullArr32 rd) (\<lambda>p. rflags p = pflags q \<and> (\<forall>x\<in>set xs. G x p)) bs xs"
proof -
  let ?c = "of_nat (length xs) :: u32"
  obtain bs where bs: "length xs \<le> length bs"
      "pushEach wr (PushUint32 q ?c) xs = Inr (PushRaw (PushUint32 q ?c) bs)"
      "reads (pullN (length xs) rd) (\<lambda>p. rflags p = pflags q \<and> (\<forall>x\<in>set xs. G x p)) bs xs"
    using elements [of "PushUint32 q ?c" xs] assms(1) by (auto simp: push_eqs)
  have cnt: "unat ?c = length xs" using assms(2) by simp
  have "reads (pullArr32 rd) (\<lambda>p. rflags p = pflags q \<and> (\<forall>x\<in>set xs. G x p)) (le_bytes 4 ?c @ bs) xs"
  proof (rule readsI, elim conjE)
    fix p rest
    assume p: "wf_pull p" "rflags p = pflags q" "\<forall>x\<in>set xs. G x p"
      "unread p = (le_bytes 4 ?c @ bs) @ rest"
    have "pullN (length xs) rd (adv 4 p) = Inr (xs, adv (length bs) (adv 4 p))"
      using readsD [OF bs(3), of "adv 4 p" rest] p by (simp add: stable)
    then show "pullArr32 rd p = Inr (xs, adv (length (le_bytes 4 ?c @ bs)) p)"
      using p bs(1) by (simp add: pullArr32_def reader_eqs cnt)
  qed
  moreover have "pushArr32 wr q xs = Inr (PushRaw q (le_bytes 4 ?c @ bs))"
    using bs(2) by (simp add: pushArr32_def push_eqs)
  ultimately show ?thesis by (intro exI [of _ "le_bytes 4 ?c @ bs"]) simp
qed

end

text \<open>The loop form of an array that returns \<^verbatim>\<open>nil\<close> early on a zero count reads the same list.\<close>

lemma pullArr16z_eq: "wf_pull p \<Longrightarrow> pullArr16z rd p = pullArr16 rd p"
  by (auto simp: pullArr16z_def pullArr16_def reader_eqs)

lemma pullArr32z_eq: "wf_pull p \<Longrightarrow> pullArr32z rd p = pullArr32 rd p"
  by (auto simp: pullArr32z_def pullArr32_def reader_eqs)

lemma reads_arr_z:
  "reads (pullArr16 rd) G bs x \<Longrightarrow> reads (pullArr16z rd) G bs x"
  "reads (pullArr32 rd) G bs x \<Longrightarrow> reads (pullArr32z rd) G bs x"
  by (auto simp: reads_def pullArr16z_eq pullArr32z_eq)

lemma consumes_arr [consume_rules]:
  "consumes m rd \<Longrightarrow> k \<le> 2 \<Longrightarrow> consumes k (pullArr16 rd)"
  "consumes m rd \<Longrightarrow> k \<le> 4 \<Longrightarrow> consumes k (pullArr32 rd)"
  "consumes m rd \<Longrightarrow> k \<le> 2 \<Longrightarrow> consumes k (pullArr16z rd)"
  "consumes m rd \<Longrightarrow> k \<le> 4 \<Longrightarrow> consumes k (pullArr32z rd)"
  unfolding pullArr16_def [abs_def] pullArr32_def [abs_def] pullArr16z_def [abs_def]
    pullArr32z_def [abs_def]
  by (intro consume_rules; assumption)+

section \<open>The primitive codecs\<close>

definition str_ok :: "u32 \<Rightarrow> go_string \<Rightarrow> bool" where
  "str_ok fl s \<longleftrightarrow> 0 \<notin> set s \<and> \<not> (has_flag fl FlagTBLLMT \<and> 509 < length s)"

definition uni_ok :: "u32 \<Rightarrow> go_string \<Rightarrow> bool" where
  "uni_ok fl s \<longleftrightarrow>
     (if has_flag fl FlagUTF16
      then 0 \<notin> set s \<and> valid_utf8 s
        \<and> \<not> (has_flag fl FlagTBLLMT \<and> 254 < length (utf16_encode (utf8_decode s)))
      else str_ok fl s)"

definition bin_ok :: "u32 \<Rightarrow> bytes \<Rightarrow> bool" where
  "bin_ok fl b \<longleftrightarrow> (if has_flag fl FlagWCount then length b < 2 ^ 32 else length b \<le> 0xFFFF)"

interpretation c8: codec "\<lambda>q x. Inr (PushUint8 q x)" PullUint8 "\<lambda>_ _. True" "\<lambda>_ _. True"
  by unfold_locales (auto simp: push_eqs reads_def reader_eqs)

interpretation c16: codec "\<lambda>q x. Inr (PushUint16 q x)" PullUint16 "\<lambda>_ _. True" "\<lambda>_ _. True"
  by unfold_locales (auto simp: push_eqs reads_def reader_eqs intro!: exI [of _ "le_bytes 2 _"])

interpretation c32: codec "\<lambda>q x. Inr (PushUint32 q x)" PullUint32 "\<lambda>_ _. True" "\<lambda>_ _. True"
  by unfold_locales (auto simp: push_eqs reads_def reader_eqs intro!: exI [of _ "le_bytes 4 _"])

interpretation c64: codec "\<lambda>q x. Inr (PushUint64 q x)" PullUint64 "\<lambda>_ _. True" "\<lambda>_ _. True"
  by unfold_locales (auto simp: push_eqs reads_def reader_eqs intro!: exI [of _ "le_bytes 8 _"])

lemma Flat_not_Nil [simp]: "Flat g \<noteq> []"
  by (simp add: Flat_def)

interpretation cguid: codec "\<lambda>q x. Inr (PushGUID q x)" PullGUID "\<lambda>_. guid_wf" "\<lambda>_ _. True"
  by unfold_locales (auto simp: push_eqs reads_def reader_eqs intro!: exI [of _ "Flat _"])

interpretation cbool: codec "\<lambda>q x. Inr (PushBool q x)" PullBool "\<lambda>_ _. True" "\<lambda>_ _. True"
  by unfold_locales (auto simp: PushBool_def PullBool_def push_eqs reads_def reader_eqs)

interpretation cstr8: codec "\<lambda>q x. Inr (PushString8 q x)" PullString8 str_ok "\<lambda>_ _. True"
  by unfold_locales
    (auto simp: str_ok_def push_eqs reads_def reader_eqs intro!: exI [of _ "_ @ [0]"])

interpretation cuni: codec "\<lambda>q x. Inr (PushUnicode q x)" PullUnicode uni_ok "\<lambda>_ _. True"
proof
  fix q :: push and x :: bytes
  assume ok: "uni_ok (pflags q) x"
  show "\<exists>bs. bs \<noteq> [] \<and> Inr (PushUnicode q x) = (Inr (PushRaw q bs) :: ext_error + push)
      \<and> reads PullUnicode (\<lambda>p. rflags p = pflags q \<and> True) bs x"
  proof (cases "has_flag (pflags q) FlagUTF16")
    case True
    let ?us = "utf16_encode (utf8_decode x)"
    from ok True have "0 \<notin> set ?us" "valid_utf8 x"
      by (auto simp: uni_ok_def utf16_encode_nonzero utf8_decode_scalar utf8_decode_nonzero)
    then have "reads PullUnicode (\<lambda>p. rflags p = pflags q \<and> True) (concat (map (le_bytes 2) ?us) @ [0, 0]) x"
      using True
      by (intro readsI)
        (simp add: PullUnicode_eq utf16_string_roundtrip length_concat comp_def sum_list_triv mult.commute)
    moreover have "PushUnicode q x = PushRaw q (concat (map (le_bytes 2) ?us) @ [0, 0])"
      using ok True by (intro PushUnicode_eq) (auto simp: uni_ok_def)
    ultimately show ?thesis by (intro exI [of _ "concat (map (le_bytes 2) ?us) @ [0, 0]"]) simp
  next
    case False
    then show ?thesis using ok cstr8.write_read [of q x]
      by (auto simp: uni_ok_def PushUnicode_eq PullUnicode_eq reads_def)
  qed
qed simp

lemma uint_of_nat_small: "n < 2 ^ LENGTH('a) \<Longrightarrow> uint (of_nat n :: 'a::len word) = int n"
  by (metis unat_of_nat_less of_nat_unat)

interpretation cbin: codec PushBin PullBin bin_ok "\<lambda>_ _. True"
proof
  fix q :: push and x :: bytes
  assume ok: "bin_ok (pflags q) x"
  show "\<exists>bs. bs \<noteq> [] \<and> PushBin q x = Inr (PushRaw q bs)
      \<and> reads PullBin (\<lambda>p. rflags p = pflags q \<and> True) bs x"
  proof (cases "has_flag (pflags q) FlagWCount")
    case True
    with ok show ?thesis
      by (intro exI [of _ "le_bytes 4 (of_nat (length x) :: u32) @ x"])
        (simp add: bin_ok_def PushBin_def PullBin_def push_eqs reads_def reader_eqs uint_of_nat_small)
  next
    case False
    with ok show ?thesis
      by (intro exI [of _ "le_bytes 2 (of_nat (length x) :: u16) @ x"])
        (simp add: bin_ok_def PushBin_def PullBin_def push_eqs reads_def reader_eqs uint_of_nat_small)
  qed
qed simp

interpretation cbins: codec PushBinShort PullBinShort "\<lambda>_ b. length b \<le> 0xFFFF" "\<lambda>_ _. True"
proof
  fix q :: push and x :: bytes
  assume "length x \<le> 0xFFFF"
  then show "\<exists>bs. bs \<noteq> [] \<and> PushBinShort q x = Inr (PushRaw q bs)
      \<and> reads PullBinShort (\<lambda>p. rflags p = pflags q \<and> True) bs x"
    by (intro exI [of _ "le_bytes 2 (of_nat (length x) :: u16) @ x"])
      (simp add: PushBinShort_def PullBinShort_def push_eqs reads_def reader_eqs uint_of_nat_small)
qed simp

interpretation cbinex: codec "\<lambda>q x. Inr (PushBinEx q x)" PullBinEx "\<lambda>_ b. length b < 2 ^ 32" "\<lambda>_ _. True"
proof
  fix q :: push and x :: bytes
  assume "length x < 2 ^ 32"
  then show "\<exists>bs. bs \<noteq> [] \<and> Inr (PushBinEx q x) = (Inr (PushRaw q bs) :: ext_error + push)
      \<and> reads PullBinEx (\<lambda>p. rflags p = pflags q \<and> True) bs x"
    by (intro exI [of _ "le_bytes 4 (of_nat (length x) :: u32) @ x"])
      (simp add: PushBinEx_def PullBinEx_def push_eqs reads_def reader_eqs uint_of_nat_small)
qed simp

interpretation csystime: codec "\<lambda>q x. Inr (PushSystemTime q x)" PullSystemTime "\<lambda>_ _. True" "\<lambda>_ _. True"
proof
  fix q :: push and t :: system_time
  show "\<exists>bs. bs \<noteq> [] \<and> Inr (PushSystemTime q t) = (Inr (PushRaw q bs) :: ext_error + push)
      \<and> reads PullSystemTime (\<lambda>p. rflags p = pflags q \<and> True) bs t"
    by (intro exI [of _ "concat (map (le_bytes 2)
          [Year t, Month t, DayOfWeek t, Day t, Hour t, Minute t, Second t, Milliseconds t])"])
      (simp add: PushSystemTime_def PullSystemTime_def push_eqs reads_def reader_eqs)
qed simp

interpretation crpc: codec "\<lambda>q x. Inr (PushRPCHeaderExt q x)" PullRPCHeaderExt "\<lambda>_ _. True" "\<lambda>_ _. True"
proof
  fix q :: push and h :: rpc_header_ext
  show "\<exists>bs. bs \<noteq> [] \<and> Inr (PushRPCHeaderExt q h) = (Inr (PushRaw q bs) :: ext_error + push)
      \<and> reads PullRPCHeaderExt (\<lambda>p. rflags p = pflags q \<and> True) bs h"
    by (intro exI [of _ "concat (map (le_bytes 2) [Version h, HFlags h, HSize h, SizeActual h])"])
      (simp add: PushRPCHeaderExt_def PullRPCHeaderExt_def push_eqs reads_def reader_eqs)
qed simp

section \<open>Structure codecs, field by field\<close>

text \<open>
  \<open>trip fl G w rd x\<close>: with flags \<open>fl\<close> the write \<open>w\<close> appends bytes from which \<open>rd\<close> reads \<open>x\<close> back.
  The rules below follow the statement sequence of a writer and of its reader in step.
\<close>

definition trip :: "u32 \<Rightarrow> (pull \<Rightarrow> bool) \<Rightarrow> (push \<Rightarrow> ext_error + push) \<Rightarrow> 'a reader \<Rightarrow> 'a \<Rightarrow> bool" where
  "trip fl G w rd x \<longleftrightarrow> (\<forall>q. pflags q = fl \<longrightarrow> (\<exists>bs. w q = Inr (PushRaw q bs)
     \<and> reads rd (\<lambda>p. rflags p = fl \<and> G p) bs x))"

definition steady :: "(pull \<Rightarrow> bool) \<Rightarrow> bool" where
  "steady G \<longleftrightarrow> (\<forall>n p. G p \<longrightarrow> G (adv n p))"

lemma steady_True [simp]: "steady (\<lambda>_. True)"
  by (simp add: steady_def)

lemma tripE:
  assumes "trip fl G w rd x" "pflags q = fl"
  obtains bs where "w q = Inr (PushRaw q bs)" "reads rd (\<lambda>p. rflags p = fl \<and> G p) bs x"
  using assms unfolding trip_def by blast

lemma trip_mono: "trip fl G w rd x \<Longrightarrow> (\<And>p. H p \<Longrightarrow> G p) \<Longrightarrow> trip fl H w rd x"
  unfolding trip_def reads_def by fast

lemma trip_bind:
  assumes "trip fl G w rd x" "trip fl G w' (f x) y" "steady G"
  shows "trip fl G (\<lambda>q. bindr (w q) w') (\<lambda>p. bindr (rd p) (case_prod f)) y"
  unfolding trip_def
proof (intro allI impI)
  fix q :: push assume q: "pflags q = fl"
  obtain bs where bs: "w q = Inr (PushRaw q bs)" "reads rd (\<lambda>p. rflags p = fl \<and> G p) bs x"
    using assms(1) q by (rule tripE)
  obtain cs where cs: "w' (PushRaw q bs) = Inr (PushRaw (PushRaw q bs) cs)"
      "reads (f x) (\<lambda>p. rflags p = fl \<and> G p) cs y"
    using assms(2) q by (elim tripE [of _ _ _ _ _ "PushRaw q bs"]) simp_all
  have "reads (\<lambda>p. bindr (rd p) (case_prod f)) (\<lambda>p. rflags p = fl \<and> G p) (bs @ cs) y"
    using bs(2) cs(2) assms(3) by (intro reads_bind) (auto simp: steady_def)
  then show "\<exists>bs. bindr (w q) w' = Inr (PushRaw q bs)
      \<and> reads (\<lambda>p. bindr (rd p) (case_prod f)) (\<lambda>p. rflags p = fl \<and> G p) bs y"
    using bs(1) cs(1) by (intro exI [of _ "bs @ cs"]) simp
qed

lemma trip_let:
  assumes "trip fl G (\<lambda>q. Inr (A q)) rd x" "trip fl G w' (f x) y" "steady G"
  shows "trip fl G (\<lambda>q. Let (A q) w') (\<lambda>p. bindr (rd p) (case_prod f)) y"
  using trip_bind [of fl G _ rd x _ f y, OF assms] by simp

lemma trip_let_Inr:
  assumes "trip fl G (\<lambda>q. Inr (A q)) rd x" "trip fl G (\<lambda>q. Inr (w' q)) (f x) y" "steady G"
  shows "trip fl G (\<lambda>q. Inr (Let (A q) w')) (\<lambda>p. bindr (rd p) (case_prod f)) y"
  using trip_bind [of fl G _ rd x _ f y, OF assms] by simp

lemma trip_fin:
  assumes "trip fl G w rd x" "f x = (\<lambda>p. Inr (y, p))"
  shows "trip fl G w (\<lambda>p. bindr (rd p) (case_prod f)) y"
  using assms by (fastforce simp: trip_def reads_def)

lemma trip_return: "x = y \<Longrightarrow> trip fl G Inr (\<lambda>p. Inr (x, p)) y"
  unfolding trip_def by (auto simp: reads_return intro!: exI [of _ "[]"])

lemmas trip_steps = trip_let_Inr trip_let trip_bind

lemma trip_reads: "reads rd (\<lambda>p. rflags p = fl \<and> G p) bs x \<Longrightarrow> trip fl G (\<lambda>q. Inr (PushRaw q bs)) rd x"
  by (auto simp: trip_def)

lemma trip_cong_reader:
  "trip fl G w rd x \<Longrightarrow> (\<And>p. wf_pull p \<Longrightarrow> rd' p = rd p) \<Longrightarrow> trip fl G w rd' x"
  by (simp add: trip_def reads_def)

lemma trip_if_reader:
  "c \<Longrightarrow> trip fl G w a x \<Longrightarrow> trip fl G w (\<lambda>p. if c then a p else b p) x"
  "\<not> c \<Longrightarrow> trip fl G w b x \<Longrightarrow> trip fl G w (\<lambda>p. if c then a p else b p) x"
  by simp_all

lemma trip_NewPush:
  assumes "trip fl G w rd x" "\<And>b. G (NewPull b fl)"
  shows "\<exists>q. w (NewPush fl) = Inr q \<and>
    rd (NewPull (buf q @ rest) fl) = Inr (x, adv (length (buf q)) (NewPull (buf q @ rest) fl))"
proof -
  obtain bs where "w (NewPush fl) = Inr (PushRaw (NewPush fl) bs)"
      "reads rd (\<lambda>p. rflags p = fl \<and> G p) bs x"
    using assms(1) by (rule tripE [of _ _ _ _ _ "NewPush fl"]) (simp add: NewPush_def)
  then show ?thesis
    using assms(2) readsD [of rd "\<lambda>p. rflags p = fl \<and> G p" bs x "NewPull (bs @ rest) fl" rest]
    by (intro exI [of _ "PushRaw (NewPush fl) bs"]) (simp add: NewPush_def)
qed

lemma trip_if_writer:
  "\<not> c \<Longrightarrow> trip fl G b rd x \<Longrightarrow> trip fl G (\<lambda>q. if c then a q else b q) rd x"
  by simp

context codec
begin

lemma field: "ok fl x \<Longrightarrow> (\<And>p. H p \<Longrightarrow> G x p) \<Longrightarrow> trip fl H (\<lambda>q. wr q x) rd x"
  unfolding trip_def
proof (intro allI impI)
  fix q :: push
  assume *: "ok fl x" "\<And>p. H p \<Longrightarrow> G x p" "pflags q = fl"
  then obtain bs where "wr q x = Inr (PushRaw q bs)" "reads rd (\<lambda>p. rflags p = fl \<and> G x p) bs x"
    using write_read [of q x] by auto
  then show "\<exists>bs. wr q x = Inr (PushRaw q bs) \<and> reads rd (\<lambda>p. rflags p = fl \<and> H p) bs x"
    using *(2) unfolding reads_def by fast
qed

lemma field_array16:
  "list_all (ok fl) xs \<Longrightarrow> length xs \<le> 0xFFFF \<Longrightarrow> (\<And>x p. x \<in> set xs \<Longrightarrow> H p \<Longrightarrow> G x p) \<Longrightarrow>
     trip fl H (\<lambda>q. pushArr16 wr q xs) (pullArr16 rd) xs"
  unfolding trip_def
proof (intro allI impI)
  fix q :: push
  assume *: "list_all (ok fl) xs" "length xs \<le> 0xFFFF" "\<And>x p. x \<in> set xs \<Longrightarrow> H p \<Longrightarrow> G x p" "pflags q = fl"
  then obtain bs where "pushArr16 wr q xs = Inr (PushRaw q bs)"
      "reads (pullArr16 rd) (\<lambda>p. rflags p = fl \<and> (\<forall>x\<in>set xs. G x p)) bs xs"
    using array16 [of q xs] by auto
  then show "\<exists>bs. pushArr16 wr q xs = Inr (PushRaw q bs)
      \<and> reads (pullArr16 rd) (\<lambda>p. rflags p = fl \<and> H p) bs xs"
    using *(3) unfolding reads_def by fast
qed

lemma field_array32:
  "list_all (ok fl) xs \<Longrightarrow> length xs < 2 ^ 32 \<Longrightarrow> (\<And>x p. x \<in> set xs \<Longrightarrow> H p \<Longrightarrow> G x p) \<Longrightarrow>
     trip fl H (\<lambda>q. pushArr32 wr q xs) (pullArr32 rd) xs"
  unfolding trip_def
proof (intro allI impI)
  fix q :: push
  assume *: "list_all (ok fl) xs" "length xs < 2 ^ 32" "\<And>x p. x \<in> set xs \<Longrightarrow> H p \<Longrightarrow> G x p" "pflags q = fl"
  then obtain bs where "pushArr32 wr q xs = Inr (PushRaw q bs)"
      "reads (pullArr32 rd) (\<lambda>p. rflags p = fl \<and> (\<forall>x\<in>set xs. G x p)) bs xs"
    using array32 [of q xs] by auto
  then show "\<exists>bs. pushArr32 wr q xs = Inr (PushRaw q bs)
      \<and> reads (pullArr32 rd) (\<lambda>p. rflags p = fl \<and> H p) bs xs"
    using *(3) unfolding reads_def by fast
qed

end

text \<open>A structure whose bytes cannot be empty (its reader consumes) is a codec once it trips.\<close>

lemma codec_of_trip:
  assumes "\<And>fl x. ok fl x \<Longrightarrow> trip fl (G x) (\<lambda>q. wr q x) rd x" "\<And>x. steady (G x)"
    "consumes m rd" "0 < m" "\<And>fl x. ok fl x \<Longrightarrow> \<exists>p. wf_pull p \<and> rflags p = fl \<and> G x p \<and> unread p = []"
  shows "codec wr rd ok G"
proof
  fix q :: push and x
  assume ok: "ok (pflags q) x"
  obtain bs where bs: "wr q x = Inr (PushRaw q bs)" "reads rd (\<lambda>p. rflags p = pflags q \<and> G x p) bs x"
    using assms(1) [OF ok] by (rule tripE) simp
  have "bs \<noteq> []"
  proof
    assume "bs = []"
    moreover obtain p where p: "wf_pull p" "rflags p = pflags q" "G x p" "unread p = []"
      using assms(5) [OF ok] by blast
    ultimately have "rd p = Inr (x, p)" using readsD [OF bs(2), of p "[]"] by simp
    with assms(3,4) p show False by (auto elim: consumesE)
  qed
  with bs show "\<exists>bs. bs \<noteq> [] \<and> wr q x = Inr (PushRaw q bs)
      \<and> reads rd (\<lambda>p. rflags p = pflags q \<and> G x p) bs x" by blast
qed (use assms(2) in \<open>simp add: steady_def\<close>)

lemma trip_raw: "int (length b) = n \<Longrightarrow> trip fl G (\<lambda>q. Inr (PushRaw q b)) (PullRaw n) b"
  by (auto intro!: trip_reads simp: reads_def reader_eqs)

lemmas trip_prims =
  c8.field [OF TrueI TrueI] c16.field [OF TrueI TrueI] c32.field [OF TrueI TrueI]
  c64.field [OF TrueI TrueI] cbool.field [OF TrueI TrueI] cguid.field [OF _ TrueI]
  cstr8.field [OF _ TrueI] cuni.field [OF _ TrueI] cbin.field [OF _ TrueI]
  cbins.field [OF _ TrueI] cbinex.field [OF _ TrueI] csystime.field [OF TrueI TrueI] trip_raw

end
