(* ===== verification/Ext_Ids.thy ===== *)
theory Ext_Ids
  imports Ext_Core
begin

text \<open>
  The identifier codecs of \<^verbatim>\<open>internal/ext\<close>: \<^verbatim>\<open>entryid.go\<close> (flat UIDs, global counters, XIDs, long-term
  ids, folder, store and message entry ids), \<^verbatim>\<open>pcl.go\<close> (predecessor change lists) and
  \<^verbatim>\<open>propname.go\<close> (named properties), over the structures of \<^verbatim>\<open>internal/mapi\<close>.
\<close>

section \<open>Structures (mapi/entryid.go, mapi/propname.go)\<close>

record xid =
  XGUID :: guid
  LocalID :: bytes

record long_term_id =
  LGUID :: guid
  GlobalCounter :: glob_cnt
  Padding :: u16

record folder_entry_id =
  FFlags :: u32
  FProviderUID :: flat_uid
  FEIDType :: u16
  FolderDBGUID :: guid
  FolderGC :: glob_cnt
  Pad1 :: bytes

record store_entry_id =
  SFlags :: u32
  SVersion :: u8
  IVFlag :: u8
  WrappedFlags :: u32
  WrappedProviderUID :: flat_uid
  WrappedType :: u32
  ServerName :: go_string
  MailboxDN :: go_string

record message_entry_id =
  MFlags :: u32
  MProviderUID :: flat_uid
  MEIDType :: u16
  MFolderDBGUID :: guid
  MFolderGC :: glob_cnt
  MPad1 :: bytes
  MessageDBGUID :: guid
  MessageGC :: glob_cnt
  MPad2 :: bytes

record property_name =
  Kind :: u8
  NGUID :: guid
  LID :: u32
  Name :: go_string

abbreviation (input) MnidID :: u8 where "MnidID \<equiv> 0"
abbreviation (input) MnidString :: u8 where "MnidString \<equiv> 1"
abbreviation (input) KindNone :: u8 where "KindNone \<equiv> 0xFF"

definition MuidStoreWrap :: flat_uid where
  "MuidStoreWrap = [0x38, 0xA1, 0xBB, 0x10, 0x05, 0xE5, 0x10, 0x1A,
     0xA1, 0xBB, 0x08, 0x00, 0x2B, 0x2A, 0x56, 0xC2]"

section \<open>Operations (ext/entryid.go)\<close>

definition PushFlatUID :: "push \<Rightarrow> flat_uid \<Rightarrow> push" where
  "PushFlatUID q f = PushRaw q f"

definition PullFlatUID :: "flat_uid reader" where
  "PullFlatUID p = PullRaw 16 p"

definition PushGlobCnt :: "push \<Rightarrow> glob_cnt \<Rightarrow> push" where
  "PushGlobCnt q gc = PushRaw q gc"

definition PullGlobCnt :: "glob_cnt reader" where
  "PullGlobCnt p = PullRaw 6 p"

definition PushXID :: "xid writer" where
  "PushXID q x =
     (let size = 16 + length (LocalID x) in
      if size < 17 \<or> size > 24 then Inl ErrFormat
      else (let q = PushGUID q (XGUID x) in Inr (PushRaw q (LocalID x))))"

definition PullXID :: "int \<Rightarrow> xid reader" where
  "PullXID sz p =
     (if sz < 17 \<or> sz > 24 then Inl ErrFormat
      else bindr (PullGUID p) (\<lambda>(g, p).
           bindr (PullRaw (sz - 16) p) (\<lambda>(l, p).
           Inr (\<lparr>XGUID = g, LocalID = l\<rparr>, p))))"

definition PushLongTermID :: "push \<Rightarrow> long_term_id \<Rightarrow> push" where
  "PushLongTermID q l =
     (let q = PushGUID q (LGUID l);
          q = PushGlobCnt q (GlobalCounter l)
      in PushUint16 q (Padding l))"

definition PullLongTermID :: "long_term_id reader" where
  "PullLongTermID p =
     bindr (PullGUID p) (\<lambda>(g, p). bindr (PullGlobCnt p) (\<lambda>(c, p). bindr (PullUint16 p) (\<lambda>(d, p).
     Inr (\<lparr>LGUID = g, GlobalCounter = c, Padding = d\<rparr>, p))))"

definition PushFolderEntryID :: "push \<Rightarrow> folder_entry_id \<Rightarrow> push" where
  "PushFolderEntryID q f =
     (let q = PushUint32 q (FFlags f);
          q = PushFlatUID q (FProviderUID f);
          q = PushUint16 q (FEIDType f);
          q = PushGUID q (FolderDBGUID f);
          q = PushGlobCnt q (FolderGC f)
      in PushRaw q (Pad1 f))"

definition PullFolderEntryID :: "folder_entry_id reader" where
  "PullFolderEntryID p =
     bindr (PullUint32 p) (\<lambda>(fl, p). bindr (PullFlatUID p) (\<lambda>(u, p). bindr (PullUint16 p) (\<lambda>(t, p).
     bindr (PullGUID p) (\<lambda>(g, p). bindr (PullGlobCnt p) (\<lambda>(c, p). bindr (PullRaw 2 p) (\<lambda>(pad, p).
     Inr (\<lparr>FFlags = fl, FProviderUID = u, FEIDType = t, FolderDBGUID = g, FolderGC = c,
          Pad1 = pad\<rparr>, p)))))))"

definition wrappedProviderDLL :: bytes where
  "wrappedProviderDLL = [0x65, 0x6D, 0x73, 0x6D, 0x64, 0x62, 0x2E, 0x64, 0x6C, 0x6C, 0, 0, 0, 0]"

definition PushStoreEntryID :: "push \<Rightarrow> store_entry_id \<Rightarrow> push" where
  "PushStoreEntryID q s =
     (let q = PushUint32 q (SFlags s);
          q = PushFlatUID q MuidStoreWrap;
          q = PushUint8 q (SVersion s);
          q = PushUint8 q (IVFlag s);
          q = PushRaw q wrappedProviderDLL;
          q = PushUint32 q (WrappedFlags s);
          q = PushFlatUID q (WrappedProviderUID s);
          q = PushUint32 q (WrappedType s);
          q = PushString8 q (ServerName s)
      in PushString8 q (MailboxDN s))"

definition empty_store_entry_id :: store_entry_id where
  "empty_store_entry_id = \<lparr>SFlags = 0, SVersion = 0, IVFlag = 0, WrappedFlags = 0,
     WrappedProviderUID = replicate 16 0, WrappedType = 0, ServerName = [], MailboxDN = []\<rparr>"

definition storeEntryIDWrapper :: "store_entry_id reader" where
  "storeEntryIDWrapper p =
     bindr (PullUint32 p) (\<lambda>(fl, p).
     bindr (PullFlatUID p) (\<lambda>(wrap, p).
     if wrap \<noteq> MuidStoreWrap then Inl ErrFormat
     else bindr (PullUint8 p) (\<lambda>(ver, p).
     if ver \<noteq> 0 then Inl ErrFormat
     else bindr (PullUint8 p) (\<lambda>(iv, p).
     Inr (empty_store_entry_id\<lparr>SFlags := fl, SVersion := ver, IVFlag := iv\<rparr>, p)))))"

definition storeEntryIDRecord :: "store_entry_id \<Rightarrow> store_entry_id reader" where
  "storeEntryIDRecord s p =
     bindr (PullRaw 14 p) (\<lambda>(_, p).
     bindr (PullUint32 p) (\<lambda>(wf, p). bindr (PullFlatUID p) (\<lambda>(u, p). bindr (PullUint32 p) (\<lambda>(t, p).
     bindr (PullString8 p) (\<lambda>(sn, p). bindr (PullString8 p) (\<lambda>(dn, p).
     Inr (s\<lparr>WrappedFlags := wf, WrappedProviderUID := u, WrappedType := t, ServerName := sn,
          MailboxDN := dn\<rparr>, p)))))))"

definition PullStoreEntryID :: "store_entry_id reader" where
  "PullStoreEntryID p =
     bindr (storeEntryIDWrapper p) (\<lambda>(s, p).
     if IVFlag s = 0 then storeEntryIDRecord s p
     else if IVFlag s = 1
       then bindr (PullFlatUID p) (\<lambda>(u, p). Inr (s\<lparr>WrappedProviderUID := u\<rparr>, p))
     else Inl ErrFormat)"

definition PushMessageEntryID :: "push \<Rightarrow> message_entry_id \<Rightarrow> push" where
  "PushMessageEntryID q m =
     (let q = PushUint32 q (MFlags m);
          q = PushFlatUID q (MProviderUID m);
          q = PushUint16 q (MEIDType m);
          q = PushGUID q (MFolderDBGUID m);
          q = PushGlobCnt q (MFolderGC m);
          q = PushRaw q (MPad1 m);
          q = PushGUID q (MessageDBGUID m);
          q = PushGlobCnt q (MessageGC m)
      in PushRaw q (MPad2 m))"

definition PullMessageEntryID :: "message_entry_id reader" where
  "PullMessageEntryID p =
     bindr (PullUint32 p) (\<lambda>(fl, p). bindr (PullFlatUID p) (\<lambda>(u, p). bindr (PullUint16 p) (\<lambda>(t, p).
     bindr (PullGUID p) (\<lambda>(g, p). bindr (PullGlobCnt p) (\<lambda>(c, p). bindr (PullRaw 2 p) (\<lambda>(pad1, p).
     bindr (PullGUID p) (\<lambda>(mg, p). bindr (PullGlobCnt p) (\<lambda>(mc, p). bindr (PullRaw 2 p) (\<lambda>(pad2, p).
     Inr (\<lparr>MFlags = fl, MProviderUID = u, MEIDType = t, MFolderDBGUID = g, MFolderGC = c,
          MPad1 = pad1, MessageDBGUID = mg, MessageGC = mc, MPad2 = pad2\<rparr>, p))))))))))"

section \<open>Predecessor change lists (ext/pcl.go)\<close>

fun PushPCL :: "push \<Rightarrow> xid list \<Rightarrow> ext_error + push" where
  "PushPCL q [] = Inr q"
| "PushPCL q (x # xids) =
     (let size = 16 + length (LocalID x) in
      if size < 17 \<or> size > 24 then Inl ErrFormat
      else bindr (PushXID (PushUint8 q (of_nat size)) x) (\<lambda>q. PushPCL q xids))"

lemma PullUint8_moves: "PullUint8 p = Inr (v, p') \<Longrightarrow> rbuf p' = rbuf p \<and> off p' = off p + 1 \<and> off p < length (rbuf p)"
  by (auto simp: PullUint8_def need_def split: if_splits)

lemma PullXID_moves: "PullXID n p = Inr (x, p') \<Longrightarrow> rbuf p' = rbuf p \<and> off p \<le> off p'"
  by (auto simp: PullXID_def PullGUID_def PullRaw_def PullUint16_def PullUint32_def split: if_splits)

function PullPCL :: "xid list reader" where
  "PullPCL p =
     (if Remaining p > 0 then
        bindr (PullUint8 p) (\<lambda>(size, p).
        if size < 17 \<or> size > 24 then Inl ErrFormat
        else bindr (PullXID (uint size) p) (\<lambda>(x, p).
             bindr (PullPCL p) (\<lambda>(out, p). Inr (x # out, p))))
      else Inr ([], p))"
  by pat_completeness auto
termination
  by (relation "measure (\<lambda>p. length (rbuf p) - off p)")
    (auto dest!: PullUint8_moves PullXID_moves)

declare PullPCL.simps [simp del]

section \<open>Named properties (ext/propname.go)\<close>

definition PushPropertyName :: "property_name writer" where
  "PushPropertyName q n =
     (let q = PushGUID (PushUint8 q (Kind n)) (NGUID n) in
      if Kind n = MnidID then Inr (PushUint32 q (LID n))
      else if Kind n = MnidString then
        (let nb = buf (PushUnicode (NewPush (pflags q)) (Name n)) in
         if length nb > 0xFF then Inl ErrFormat
         else Inr (PushRaw (PushUint8 q (of_nat (length nb))) nb))
      else Inr q)"

definition PullPropertyName :: "property_name reader" where
  "PullPropertyName p =
     bindr (PullUint8 p) (\<lambda>(k, p). bindr (PullGUID p) (\<lambda>(g, p).
     (let n = \<lparr>Kind = k, NGUID = g, LID = 0, Name = []\<rparr> in
      if k = MnidID then bindr (PullUint32 p) (\<lambda>(l, p). Inr (n\<lparr>LID := l\<rparr>, p))
      else if k = MnidString then
        bindr (PullUint8 p) (\<lambda>(nameSize, p).
        if nameSize < 1 then Inl ErrFormat
        else (let end = off p + unat nameSize in
              if end > length (rbuf p) then Inl ErrUnderflow
              else bindr (PullUnicode p) (\<lambda>(nm, p).
                   if off p > end then Inl ErrFormat
                   else Inr (n\<lparr>Name := nm\<rparr>, p\<lparr>off := end\<rparr>))))
      else Inr (n, p))))"

definition PushPropertyNames :: "property_name list writer" where
  "PushPropertyNames = pushArr16 PushPropertyName"

definition PullPropertyNames :: "property_name list reader" where
  "PullPropertyNames = pullArr16z PullPropertyName"

definition PushPropIDs :: "u16 list writer" where
  "PushPropIDs = pushArr16 (\<lambda>q x. Inr (PushUint16 q x))"

definition PullPropIDs :: "u16 list reader" where
  "PullPropIDs = pullArr16 PullUint16"

section \<open>Laws\<close>

definition ltid_wf :: "long_term_id \<Rightarrow> bool" where
  "ltid_wf l \<longleftrightarrow> guid_wf (LGUID l) \<and> length (GlobalCounter l) = 6"

definition feid_wf :: "folder_entry_id \<Rightarrow> bool" where
  "feid_wf f \<longleftrightarrow> length (FProviderUID f) = 16 \<and> guid_wf (FolderDBGUID f)
     \<and> length (FolderGC f) = 6 \<and> length (Pad1 f) = 2"

definition meid_wf :: "message_entry_id \<Rightarrow> bool" where
  "meid_wf m \<longleftrightarrow> length (MProviderUID m) = 16 \<and> guid_wf (MFolderDBGUID m) \<and> length (MFolderGC m) = 6
     \<and> length (MPad1 m) = 2 \<and> guid_wf (MessageDBGUID m) \<and> length (MessageGC m) = 6
     \<and> length (MPad2 m) = 2"

text \<open>What a store entry id must satisfy to be read back: the inline form and version 0.\<close>

definition seid_ok :: "u32 \<Rightarrow> store_entry_id \<Rightarrow> bool" where
  "seid_ok fl s \<longleftrightarrow> SVersion s = 0 \<and> IVFlag s = 0 \<and> length (WrappedProviderUID s) = 16
     \<and> str_ok fl (ServerName s) \<and> str_ok fl (MailboxDN s)"

definition xid_wf :: "xid \<Rightarrow> bool" where
  "xid_wf x \<longleftrightarrow> guid_wf (XGUID x) \<and> LocalID x \<noteq> [] \<and> length (LocalID x) \<le> 8"

definition pname_ok :: "u32 \<Rightarrow> property_name \<Rightarrow> bool" where
  "pname_ok fl n \<longleftrightarrow> guid_wf (NGUID n)
     \<and> (if Kind n = MnidID then Name n = []
        else if Kind n = MnidString then LID n = 0 \<and> uni_ok fl (Name n)
          \<and> length (buf (PushUnicode (NewPush fl) (Name n))) \<le> 0xFF
        else LID n = 0 \<and> Name n = [])"

lemma length_MuidStoreWrap [simp]: "length MuidStoreWrap = 16"
  by (simp add: MuidStoreWrap_def)

lemma length_wrappedProviderDLL [simp]: "length wrappedProviderDLL = 14"
  by (simp add: wrappedProviderDLL_def)

lemma consumes_ids:
  "consumes 16 PullFlatUID" "consumes 6 PullGlobCnt" "consumes 16 PullLongTermID"
  "consumes 4 PullFolderEntryID" "consumes 4 PullStoreEntryID" "consumes 4 PullMessageEntryID"
  "consumes 16 (PullXID n)"
  unfolding PullFlatUID_def [abs_def] PullGlobCnt_def [abs_def] PullLongTermID_def [abs_def]
    PullFolderEntryID_def [abs_def] PullStoreEntryID_def [abs_def] storeEntryIDWrapper_def [abs_def]
    storeEntryIDRecord_def [abs_def] PullMessageEntryID_def [abs_def] PullXID_def [abs_def]
  by (intro consume_rules; simp)+

lemma trip_uid: "length u = 16 \<Longrightarrow> trip fl G (\<lambda>q. Inr (PushFlatUID q u)) PullFlatUID u"
  "length c = 6 \<Longrightarrow> trip fl G (\<lambda>q. Inr (PushGlobCnt q c)) PullGlobCnt c"
  unfolding PushFlatUID_def PullFlatUID_def [abs_def] PushGlobCnt_def PullGlobCnt_def [abs_def]
  by (rule trip_raw; simp)+

lemmas id_prims = trip_prims trip_uid

lemma trip_LongTermID: "ltid_wf l \<Longrightarrow> trip fl (\<lambda>_. True) (\<lambda>q. Inr (PushLongTermID q l)) PullLongTermID l"
  unfolding PushLongTermID_def PullLongTermID_def [abs_def] ltid_wf_def
  by (cases l) (rule trip_steps | rule trip_fin | rule id_prims | (simp; fail))+

lemma trip_FolderEntryID: "feid_wf f \<Longrightarrow> trip fl (\<lambda>_. True) (\<lambda>q. Inr (PushFolderEntryID q f)) PullFolderEntryID f"
  unfolding PushFolderEntryID_def PullFolderEntryID_def [abs_def] feid_wf_def
  by (cases f) (rule trip_steps | rule trip_fin | rule id_prims | (simp; fail))+

lemma trip_MessageEntryID:
  "meid_wf m \<Longrightarrow> trip fl (\<lambda>_. True) (\<lambda>q. Inr (PushMessageEntryID q m)) PullMessageEntryID m"
  unfolding PushMessageEntryID_def PullMessageEntryID_def [abs_def] meid_wf_def
  by (cases m) (rule trip_steps | rule trip_fin | rule id_prims | (simp; fail))+

lemma trip_XID: "xid_wf x \<Longrightarrow> trip fl (\<lambda>_. True) (\<lambda>q. PushXID q x) (PullXID (int (16 + length (LocalID x)))) x"
  unfolding PushXID_def PullXID_def [abs_def] xid_wf_def Let_def [of "16 + length (LocalID x)"]
  by (cases x) (rule trip_if_writer, (simp; fail) | rule trip_if_reader(2), (simp; fail)
    | rule trip_steps | rule trip_fin | rule id_prims | (simp; fail))+

lemma PullStoreEntryID_flat:
  "PullStoreEntryID p = bindr (PullUint32 p) (\<lambda>(fl, p). bindr (PullFlatUID p) (\<lambda>(wrap, p).
     if wrap \<noteq> MuidStoreWrap then Inl ErrFormat
     else bindr (PullUint8 p) (\<lambda>(ver, p). if ver \<noteq> 0 then Inl ErrFormat
     else bindr (PullUint8 p) (\<lambda>(iv, p).
       let s = empty_store_entry_id\<lparr>SFlags := fl, SVersion := ver, IVFlag := iv\<rparr> in
       if iv = 0 then storeEntryIDRecord s p
       else if iv = 1 then bindr (PullFlatUID p) (\<lambda>(u, p). Inr (s\<lparr>WrappedProviderUID := u\<rparr>, p))
       else Inl ErrFormat))))"
  unfolding PullStoreEntryID_def storeEntryIDWrapper_def
  by (auto simp: bindr_def split: sum.splits prod.splits)

lemma trip_StoreEntryID:
  "seid_ok fl s \<Longrightarrow> trip fl (\<lambda>_. True) (\<lambda>q. Inr (PushStoreEntryID q s)) PullStoreEntryID s"
  unfolding PushStoreEntryID_def PullStoreEntryID_flat [abs_def] seid_ok_def Let_def [of "empty_store_entry_id\<lparr>SFlags := _, SVersion := _, IVFlag := _\<rparr>"]
    storeEntryIDRecord_def [abs_def]
  by (cases s) (rule trip_steps | rule trip_fin | rule id_prims | rule trip_if_reader(2), (simp; fail) | rule trip_if_reader(1), (simp; fail) | (simp add: empty_store_entry_id_def; fail))+

text \<open>The reader of every structure below consumes input, so each is a codec of the interface.\<close>

lemma exhausted_cursor: "\<exists>p. wf_pull p \<and> rflags p = fl \<and> True \<and> unread p = []"
  by (rule exI [of _ "NewPull [] fl"]) simp

lemmas codec_of_trip_True = codec_of_trip [where G = "\<lambda>_ _. True", OF _ steady_True _ _ exhausted_cursor]

interpretation cltid: codec "\<lambda>q x. Inr (PushLongTermID q x)" PullLongTermID "\<lambda>_. ltid_wf" "\<lambda>_ _. True"
  by (rule codec_of_trip_True [OF trip_LongTermID consumes_ids(3)]) simp_all

interpretation cfeid: codec "\<lambda>q x. Inr (PushFolderEntryID q x)" PullFolderEntryID "\<lambda>_. feid_wf" "\<lambda>_ _. True"
  by (rule codec_of_trip_True [OF trip_FolderEntryID consumes_ids(4)]) simp_all

interpretation cseid: codec "\<lambda>q x. Inr (PushStoreEntryID q x)" PullStoreEntryID seid_ok "\<lambda>_ _. True"
  by (rule codec_of_trip_True [OF trip_StoreEntryID consumes_ids(5)]) simp_all

interpretation cmeid: codec "\<lambda>q x. Inr (PushMessageEntryID q x)" PullMessageEntryID "\<lambda>_. meid_wf" "\<lambda>_ _. True"
  by (rule codec_of_trip_True [OF trip_MessageEntryID consumes_ids(6)]) simp_all

subsection \<open>Predecessor change lists\<close>

lemma PullPCL_Nil: "wf_pull p \<Longrightarrow> unread p = [] \<Longrightarrow> PullPCL p = Inr ([], p)"
  by (subst PullPCL.simps) (simp add: Remaining_eq)

lemma pcl_size_byte:
  assumes "17 \<le> n" "n \<le> 24"
  shows "\<not> (of_nat n :: u8) < 17" "\<not> 24 < (of_nat n :: u8)" "uint (of_nat n :: u8) = int n"
proof -
  have "unat (of_nat n :: u8) = n" using assms(2) by (intro unat_of_nat_less) simp
  then show "\<not> (of_nat n :: u8) < 17" "\<not> 24 < (of_nat n :: u8)" "uint (of_nat n :: u8) = int n"
    using assms by (simp_all add: word_less_nat_alt uint_nat)
qed

lemma PCL_write_read:
  "list_all xid_wf xs \<Longrightarrow> \<exists>bs. PushPCL q xs = Inr (PushRaw q bs) \<and>
     (\<forall>p. wf_pull p \<longrightarrow> rflags p = pflags q \<longrightarrow> unread p = bs \<longrightarrow> PullPCL p = Inr (xs, adv (length bs) p))"
proof (induction xs arbitrary: q)
  case Nil
  then show ?case by (auto simp: PullPCL_Nil intro!: exI [of _ "[]"])
next
  case (Cons x xs)
  let ?n = "16 + length (LocalID x)"
  have x: "xid_wf x" using Cons.prems by simp
  have n: "17 \<le> ?n" "?n \<le> 24" using x by (simp_all add: xid_wf_def Suc_le_eq)
  note sz = pcl_size_byte [OF n]
  let ?q = "PushRaw q [of_nat ?n]"
  obtain b1 where b1: "PushXID ?q x = Inr (PushRaw ?q b1)"
      "reads (PullXID (int (16 + length (LocalID x)))) (\<lambda>p. rflags p = pflags q \<and> True) b1 x"
    using trip_XID [OF x, of "pflags q"] by (rule tripE [of _ _ _ _ _ ?q]) simp
  obtain b2 where b2: "PushPCL (PushRaw ?q b1) xs = Inr (PushRaw (PushRaw ?q b1) b2)"
      "\<And>p. wf_pull p \<Longrightarrow> rflags p = pflags q \<Longrightarrow> unread p = b2 \<Longrightarrow> PullPCL p = Inr (xs, adv (length b2) p)"
    using Cons.IH [of "PushRaw ?q b1"] Cons.prems by auto
  let ?bs = "of_nat ?n # b1 @ b2"
  have "PullPCL p = Inr (x # xs, adv (length ?bs) p)"
    if p: "wf_pull p" "rflags p = pflags q" "unread p = ?bs" for p
  proof -
    have "PullXID (int (16 + length (LocalID x))) (adv 1 p) = Inr (x, adv (length b1) (adv 1 p))"
      using p by (intro readsD [OF b1(2), of _ b2]) simp_all
    moreover have "PullPCL (adv (Suc (length b1)) p) = Inr (xs, adv (length b2) (adv (Suc (length b1)) p))"
      using p by (intro b2(2)) simp_all
    ultimately show ?thesis
      using p sz by (subst PullPCL.simps) (simp add: Remaining_eq reader_eqs del: of_nat_add)
  qed
  moreover have "PushPCL q (x # xs) = Inr (PushRaw q ?bs)"
    using n x b1(1) b2(1) by (simp add: xid_wf_def push_eqs Let_def del: of_nat_add)
  ultimately show ?case by blast
qed

subsection \<open>Named properties\<close>

text \<open>
  The name is written into its own buffer first, so the declared size covers exactly the
  terminated string and the reader's skip to the declared end is a no-op on what was written.
\<close>

lemma adv_set_off: "(adv k p)\<lparr>off := off p + n\<rparr> = adv n p"
  by (simp add: adv_def)

lemma trip_PropertyName_string:
  assumes "pname_ok fl n" "Kind n = MnidString"
  shows "trip fl (\<lambda>_. True) (\<lambda>q. PushPropertyName q n) PullPropertyName n"
  unfolding trip_def
proof (intro allI impI)
  fix q :: push
  assume q: "pflags q = fl"
  have ok: "guid_wf (NGUID n)" "uni_ok fl (Name n)" "LID n = 0"
    and len: "length (buf (PushUnicode (NewPush fl) (Name n))) \<le> 0xFF"
    using assms by (simp_all add: pname_ok_def)
  obtain b where b: "b \<noteq> []" "PushUnicode (NewPush fl) (Name n) = PushRaw (NewPush fl) b"
      "reads PullUnicode (\<lambda>p. rflags p = fl \<and> True) b (Name n)"
    using cuni.write_read [of "NewPush fl" "Name n"] ok(2) by (auto simp: NewPush_def)
  let ?m = "of_nat (length b) :: u8"
  have m: "unat ?m = length b" "length b \<le> 255" using len b(2) by (simp_all add: NewPush_def)
  then have m1: "\<not> ?m < 1" using b(1) by (simp add: word_less_nat_alt Suc_le_eq)
  let ?bs = "1 # Flat (NGUID n) @ ?m # b"
  have "reads PullPropertyName (\<lambda>p. rflags p = fl \<and> True) ?bs n"
  proof (rule readsI, elim conjE)
    fix p rest
    assume p: "wf_pull p" "rflags p = fl" "unread p = ?bs @ rest"
    have "PullUnicode (adv 18 p) = Inr (Name n, adv (length b) (adv 18 p))"
      using p ok(1) by (intro readsD [OF b(3), of _ rest]) simp_all
    moreover have "\<not> length (rbuf p) < off p + 18 + length b"
      using p(1) ok(1) arg_cong [OF p(3), of length] by (simp add: unread_def wf_pull_def)
    moreover have "n = \<lparr>Kind = 1, NGUID = NGUID n, LID = 0, Name = Name n\<rparr>"
      using assms(2) ok(3) by simp
    ultimately show "PullPropertyName p = Inr (n, adv (length ?bs) p)"
      using p ok(1) m m1 by (simp add: PullPropertyName_def reader_eqs Let_def adv_set_off add.assoc)
  qed
  moreover have "PushPropertyName q n = Inr (PushRaw q ?bs)"
    using assms(2) ok(1) m b(2) q by (simp add: PushPropertyName_def push_eqs NewPush_def Let_def)
  ultimately show "\<exists>bs. PushPropertyName q n = Inr (PushRaw q bs)
      \<and> reads PullPropertyName (\<lambda>p. rflags p = fl \<and> True) bs n" by blast
qed

lemma trip_PropertyName:
  assumes "pname_ok fl n"
  shows "trip fl (\<lambda>_. True) (\<lambda>q. PushPropertyName q n) PullPropertyName n"
proof (cases "Kind n = MnidString")
  case True
  with assms show ?thesis by (rule trip_PropertyName_string)
next
  case False
  let ?bs = "Kind n # Flat (NGUID n) @ (if Kind n = MnidID then le_bytes 4 (LID n) else [])"
  have wr: "PushPropertyName q n = Inr (PushRaw q ?bs)" for q
    using assms False by (auto simp: PushPropertyName_def pname_ok_def push_eqs Let_def)
  have "reads PullPropertyName (\<lambda>p. rflags p = fl \<and> True) ?bs n"
    using assms False
    by (cases n) (auto intro!: readsI simp: PullPropertyName_def pname_ok_def reader_eqs Let_def)
  then show ?thesis unfolding trip_def wr by blast
qed

definition pullNameString :: "property_name \<Rightarrow> property_name reader" where
  "pullNameString n p = bindr (PullUint8 p) (\<lambda>(nameSize, p).
     if nameSize < 1 then Inl ErrFormat
     else (let end = off p + unat nameSize in
           if end > length (rbuf p) then Inl ErrUnderflow
           else bindr (PullUnicode p) (\<lambda>(nm, p).
                if off p > end then Inl ErrFormat
                else Inr (n\<lparr>Name := nm\<rparr>, p\<lparr>off := end\<rparr>))))"

lemma consumes_pullNameString: "consumes 0 (pullNameString n)"
proof (rule consumesI)
  fix p x p'
  assume p: "wf_pull p" "pullNameString n p = Inr (x, p')"
  then obtain sz :: u8 and nm p1 where 1: "unread p \<noteq> []" "off p + 1 + unat sz \<le> length (rbuf p)"
      "PullUnicode (adv 1 p) = Inr (nm, p1)" "p' = p1\<lparr>off := off p + 1 + unat sz\<rparr>"
    by (auto simp: pullNameString_def reader_eqs Let_def split: if_splits intro!: that [of "hd (unread p)"])
  have "wf_pull (adv 1 p)" using p(1) 1(1) by (simp add: Suc_le_eq)
  from consumes_PullUnicode this 1(3) obtain k where "p1 = adv k (adv 1 p)" by (rule consumesE)
  with 1 show "\<exists>k. 0 \<le> k \<and> k \<le> length (unread p) \<and> p' = adv k p"
    by (intro exI [of _ "1 + unat sz"]) (simp add: adv_def unread_def)
qed

lemma consumes_PullPropertyName: "consumes 1 PullPropertyName"
proof -
  have eq: "PullPropertyName = (\<lambda>p. bindr (PullUint8 p) (\<lambda>(k, p). bindr (PullGUID p) (\<lambda>(g, p).
      if k = MnidID then bindr (PullUint32 p) (\<lambda>(l, p). Inr (\<lparr>Kind = k, NGUID = g, LID = l, Name = []\<rparr>, p))
      else if k = MnidString then pullNameString \<lparr>Kind = k, NGUID = g, LID = 0, Name = []\<rparr> p
      else Inr (\<lparr>Kind = k, NGUID = g, LID = 0, Name = []\<rparr>, p))))"
    by (simp add: PullPropertyName_def [abs_def] pullNameString_def Let_def cong: if_cong)
  show ?thesis unfolding eq by (intro consume_rules consumes_pullNameString; simp)
qed

interpretation cpname: codec PushPropertyName PullPropertyName pname_ok "\<lambda>_ _. True"
  by (rule codec_of_trip_True [OF trip_PropertyName consumes_PullPropertyName]) simp_all

section \<open>Properties\<close>

text \<open>
  C12. Every well-formed long-term id, folder entry id and message entry id, and every store
  entry id in the inline form, written by its \<^verbatim>\<open>Push\<close> method is read back by its \<^verbatim>\<open>Pull\<close> method
  unchanged, whatever bytes follow, and the cursor stops exactly behind the encoding.
\<close>

theorem entry_ids_roundtrip:
  assumes "ltid_wf l" "feid_wf f" "meid_wf m" "seid_ok fl s"
  shows "(let b = buf (PushLongTermID (NewPush fl) l); p = NewPull (b @ rest) fl in
        length b = 24 \<and> PullLongTermID p = Inr (l, adv 24 p)) \<and>
      (let b = buf (PushFolderEntryID (NewPush fl) f); p = NewPull (b @ rest) fl in
        length b = 46 \<and> PullFolderEntryID p = Inr (f, adv 46 p)) \<and>
      (let b = buf (PushMessageEntryID (NewPush fl) m); p = NewPull (b @ rest) fl in
        length b = 70 \<and> PullMessageEntryID p = Inr (m, adv 70 p)) \<and>
      (let b = buf (PushStoreEntryID (NewPush fl) s); p = NewPull (b @ rest) fl in
        PullStoreEntryID p = Inr (s, adv (length b) p))"
proof -
  have len: "length (buf (PushLongTermID (NewPush fl) l)) = 24"
    "length (buf (PushFolderEntryID (NewPush fl) f)) = 46"
    "length (buf (PushMessageEntryID (NewPush fl) m)) = 70"
    using assms(1-3) by (simp_all add: ltid_wf_def feid_wf_def meid_wf_def PushLongTermID_def
      PushFolderEntryID_def PushMessageEntryID_def PushGlobCnt_def PushFlatUID_def push_eqs NewPush_def)
  note again = trip_NewPush [where rest = rest, OF trip_LongTermID [OF assms(1), of fl]]
    trip_NewPush [where rest = rest, OF trip_FolderEntryID [OF assms(2), of fl]]
    trip_NewPush [where rest = rest, OF trip_MessageEntryID [OF assms(3), of fl]]
    trip_NewPush [where rest = rest, OF trip_StoreEntryID [OF assms(4)]]
  then show ?thesis using len by (simp add: Let_def)
qed

text \<open>
  A predecessor change list of well-formed XIDs (a GUID and one to eight bytes of local
  id) is written without error and \<^verbatim>\<open>PullPCL\<close> over exactly those bytes returns the same list and
  consumes all of them; a list holding an XID of any other size is refused with \<^verbatim>\<open>ErrFormat\<close>.
\<close>

lemma pcl_roundtrip:
  "if list_all xid_wf xs
   then \<exists>q. PushPCL (NewPush fl) xs = Inr q \<and>
     PullPCL (NewPull (buf q) fl) = Inr (xs, adv (length (buf q)) (NewPull (buf q) fl))
   else list_all (\<lambda>x. guid_wf (XGUID x)) xs \<longrightarrow> PushPCL (NewPush fl) xs = Inl ErrFormat"
proof (cases "list_all xid_wf xs")
  case True
  then show ?thesis using PCL_write_read [of xs "NewPush fl"] by (auto simp: NewPush_def)
next
  case False
  have "list_all (\<lambda>x. guid_wf (XGUID x)) xs \<Longrightarrow> \<not> list_all xid_wf xs \<Longrightarrow> PushPCL q xs = Inl ErrFormat" for q
  proof (induction xs arbitrary: q)
    case (Cons x xs)
    then show ?case by (cases "xid_wf x") (auto simp: xid_wf_def Let_def PushXID_def)
  qed simp
  with False show ?thesis by simp
qed

text \<open>Concrete values the witnesses below use.\<close>

definition g0 :: guid where
  "g0 = \<lparr>Data1 = 0x00062008, Data2 = 0, Data3 = 0, Data4 = [0xC0, 0, 0, 0, 0, 0, 0, 0x46]\<rparr>"

lemma guid_wf_g0 [simp]: "guid_wf g0"
  by (simp add: g0_def guid_wf_def)

theorem entry_ids_roundtrip_witness:
  "let s = empty_store_entry_id\<lparr>ServerName := [0x73], MailboxDN := [0x2F, 0x6F]\<rparr>;
       b = buf (PushStoreEntryID (NewPush 1) s); p = NewPull (b @ [7]) 1
   in PullStoreEntryID p = Inr (s, adv (length b) p)"
  using entry_ids_roundtrip [of "\<lparr>LGUID = g0, GlobalCounter = replicate 6 1, Padding = 0\<rparr>"
      "\<lparr>FFlags = 0, FProviderUID = replicate 16 2, FEIDType = 1, FolderDBGUID = g0,
        FolderGC = replicate 6 1, Pad1 = [0, 0]\<rparr>"
      "\<lparr>MFlags = 0, MProviderUID = replicate 16 2, MEIDType = 7, MFolderDBGUID = g0,
        MFolderGC = replicate 6 1, MPad1 = [0, 0], MessageDBGUID = g0, MessageGC = replicate 6 1,
        MPad2 = [0, 0]\<rparr>"
      1 "empty_store_entry_id\<lparr>ServerName := [0x73], MailboxDN := [0x2F, 0x6F]\<rparr>" "[7]"]
  by (simp add: ltid_wf_def feid_wf_def meid_wf_def seid_ok_def empty_store_entry_id_def
      str_ok_def Let_def)

text \<open>
  A list of at most 65535 named properties, each numeric, string or kindless with the
  fields of its kind, is written by \<^verbatim>\<open>PropertyNames\<close> and read back by its reader unchanged; the
  name's size byte is the exact length of the terminated string, and a string name whose
  encoding exceeds 255 bytes is refused with \<^verbatim>\<open>ErrFormat\<close>.
\<close>

lemma property_names_roundtrip:
  assumes "length ns \<le> 0xFFFF"
  shows "(list_all (pname_ok fl) ns \<longrightarrow> (\<exists>q. PushPropertyNames (NewPush fl) ns = Inr q \<and>
      PullPropertyNames (NewPull (buf q @ rest) fl)
        = Inr (ns, adv (length (buf q)) (NewPull (buf q @ rest) fl))))
    \<and> (\<forall>n \<in> set ns. Kind n = MnidString \<longrightarrow> length (buf (PushUnicode (NewPush fl) (Name n))) > 0xFF
         \<longrightarrow> PushPropertyName (NewPush fl) n = Inl ErrFormat)"
proof (intro conjI impI ballI)
  assume "list_all (pname_ok fl) ns"
  then have "trip fl (\<lambda>_. True) (\<lambda>q. pushArr16 PushPropertyName q ns) (pullArr16 PullPropertyName) ns"
    using assms by (rule cpname.field_array16) simp
  then have "trip fl (\<lambda>_. True) (\<lambda>q. PushPropertyNames q ns) PullPropertyNames ns"
    unfolding PushPropertyNames_def PullPropertyNames_def by (rule trip_cong_reader) (rule pullArr16z_eq)
  then show "\<exists>q. PushPropertyNames (NewPush fl) ns = Inr q \<and>
      PullPropertyNames (NewPull (buf q @ rest) fl)
        = Inr (ns, adv (length (buf q)) (NewPull (buf q @ rest) fl))"
    by (rule trip_NewPush) simp
next
  fix n :: property_name
  assume "Kind n = MnidString" "length (buf (PushUnicode (NewPush fl) (Name n))) > 0xFF"
  then show "PushPropertyName (NewPush fl) n = Inl ErrFormat"
    by (simp add: PushPropertyName_def Let_def push_eqs PushGUID_def NewPush_def)
qed

text \<open>
  A store entry id carrying the abbreviated-form flag (\<^verbatim>\<open>IVFlag = 1\<close>) does not survive its own
  round trip: the writer emits the inline record after the flag, and the reader, told by the
  flag to expect a bare provider uid, takes the DLL name as the uid and leaves the rest of
  the record unread.
\<close>

lemma store_entry_id_abbreviated_form_lost:
  "let s = empty_store_entry_id\<lparr>IVFlag := 1, ServerName := [0x73]\<rparr>;
       b = buf (PushStoreEntryID (NewPush 0) s)
   in case PullStoreEntryID (NewPull b 0) of
        Inl e \<Rightarrow> False
      | Inr (s', p') \<Rightarrow> s' \<noteq> s \<and> WrappedProviderUID s' = wrappedProviderDLL @ [0, 0] \<and> Remaining p' = 25"
  by code_simp

end
