(* ===== verification/Ext_Values.thy ===== *)
theory Ext_Values
  imports Ext_Ids
begin

text \<open>
  The property values of \<^verbatim>\<open>internal/ext\<close>: \<^verbatim>\<open>propval.go\<close>, \<^verbatim>\<open>typedval.go\<close>, \<^verbatim>\<open>restriction.go\<close> and
  \<^verbatim>\<open>action.go\<close>, with the structures of \<^verbatim>\<open>internal/mapi\<close> they carry. A property value is a Go \<^verbatim>\<open>any\<close>;
  the datatype \<open>any\<close> has one constructor for each Go type the codec handles. Values, search
  restrictions and rule actions contain one another, so their codecs are mutually recursive.
\<close>

unbundle bit_operations_syntax

section \<open>Structures (mapi/restriction.go, rule.go, svreid.go, typedval.go)\<close>

record svreid =
  Bin :: "bytes option"
  FolderID :: eid
  MessageID :: eid
  Instance :: u32

record reply_action =
  TemplateFolderID :: eid
  TemplateMessageID :: eid
  TemplateGUID :: guid

datatype 'v restriction = Restriction (RType: u8) (RValue: 'v)

datatype 'v action_block = ActionBlock (AType: u8) (Flavor: u32) (AFlags: u32) (AData: 'v)

datatype 'v recipient_block = RecipientBlock (PropVals: "'v tagged_prop_val list")

datatype (plugins only: code size) any =
    ANil
  | AInt16 u16 | AInt32 u32 | AUint32 u32 | AFloat32 u32 | AFloat64 u64 | AInt64 u64 | AUint64 u64
  | ABool bool | AString go_string | AGuid guid | ABytes bytes | ASvrEID svreid
  | AInt16s "u16 list" | AInt32s "u32 list" | AInt64s "u64 list" | AUint64s "u64 list"
  | AFloat32s "u32 list" | AFloat64s "u64 list" | AStrings "go_string list" | AGuids "guid list"
  | ABytess "bytes list"
  | ATyped prop_type any
  | ATagged "any tagged_prop_val"
  | ARestriction "any restriction"
  | ARestrictions "any restriction list"
  | AContent u32 prop_tag "any tagged_prop_val"
  | AProperty u8 prop_tag "any tagged_prop_val"
  | ACompareProps u8 prop_tag prop_tag
  | ABitmask u8 prop_tag u32
  | ASize u8 prop_tag u32
  | AExist prop_tag
  | ASub u32 "any restriction"
  | AComment "any tagged_prop_val list" "any restriction option"
  | ACount u32 "any restriction"
  | ARuleActions "any action_block list"
  | AMoveCopy bool "store_entry_id option" any
  | AReply reply_action
  | AForward "any recipient_block list"

abbreviation (input) ResAnd :: u8 where "ResAnd \<equiv> 0x00"
abbreviation (input) ResOr :: u8 where "ResOr \<equiv> 0x01"
abbreviation (input) ResNot :: u8 where "ResNot \<equiv> 0x02"
abbreviation (input) ResContent :: u8 where "ResContent \<equiv> 0x03"
abbreviation (input) ResProperty :: u8 where "ResProperty \<equiv> 0x04"
abbreviation (input) ResPropCompare :: u8 where "ResPropCompare \<equiv> 0x05"
abbreviation (input) ResBitmask :: u8 where "ResBitmask \<equiv> 0x06"
abbreviation (input) ResSize :: u8 where "ResSize \<equiv> 0x07"
abbreviation (input) ResExist :: u8 where "ResExist \<equiv> 0x08"
abbreviation (input) ResSub :: u8 where "ResSub \<equiv> 0x09"
abbreviation (input) ResComment :: u8 where "ResComment \<equiv> 0x0A"
abbreviation (input) ResCount :: u8 where "ResCount \<equiv> 0x0B"
abbreviation (input) ResAnnotation :: u8 where "ResAnnotation \<equiv> 0x0C"
abbreviation (input) ResNull :: u8 where "ResNull \<equiv> 0xFF"

abbreviation (input) OpMove :: u8 where "OpMove \<equiv> 0x01"
abbreviation (input) OpCopy :: u8 where "OpCopy \<equiv> 0x02"
abbreviation (input) OpReply :: u8 where "OpReply \<equiv> 0x03"
abbreviation (input) OpOOFReply :: u8 where "OpOOFReply \<equiv> 0x04"
abbreviation (input) OpDeferAction :: u8 where "OpDeferAction \<equiv> 0x05"
abbreviation (input) OpBounce :: u8 where "OpBounce \<equiv> 0x06"
abbreviation (input) OpForward :: u8 where "OpForward \<equiv> 0x07"
abbreviation (input) OpDelegate :: u8 where "OpDelegate \<equiv> 0x08"
abbreviation (input) OpTag :: u8 where "OpTag \<equiv> 0x09"
abbreviation (input) OpDelete :: u8 where "OpDelete \<equiv> 0x0A"
abbreviation (input) OpMarkAsRead :: u8 where "OpMarkAsRead \<equiv> 0x0B"

section \<open>Server entry ids (typedval.go)\<close>

definition PushSVREID :: "svreid writer" where
  "PushSVREID q s =
     (case Bin s of
        Some b \<Rightarrow>
          if length b + 1 > 0xFFFF then Inl ErrFormat
          else Inr (PushRaw (PushUint8 (PushUint16 q (of_nat (length b + 1))) 0) b)
      | None \<Rightarrow>
          Inr (PushUint32 (PushUint64 (PushUint64 (PushUint8 (PushUint16 q 21) 1) (FolderID s)) (MessageID s)) (Instance s)))"

definition PullSVREID :: "svreid reader" where
  "PullSVREID p =
     bindr (PullUint16 p) (\<lambda>(len, p).
     bindr (PullUint8 p) (\<lambda>(ours, p).
       if ours = 0
       then bindr (PullRaw (if len > 0 then uint len - 1 else 0) p) (\<lambda>(b, p).
              Inr (\<lparr>Bin = Some b, FolderID = 0, MessageID = 0, Instance = 0\<rparr>, p))
       else if len \<noteq> 21 then Inl ErrFormat
       else
         bindr (PullUint64 p) (\<lambda>(folder, p).
         bindr (PullUint64 p) (\<lambda>(msg, p).
         bindr (PullUint32 p) (\<lambda>(inst, p).
         Inr (\<lparr>Bin = None, FolderID = folder, MessageID = msg, Instance = inst\<rparr>, p))))))"

section \<open>Values without substructure (propval.go)\<close>

definition abkGated :: "prop_type \<Rightarrow> bool" where
  "abkGated t \<longleftrightarrow> t = PtString8 \<or> t = PtUnicode \<or> t = PtBinary \<or> IsMultivalue t"

text \<open>
  The entries of \<^verbatim>\<open>propWriters\<close> and \<^verbatim>\<open>propReaders\<close> that hold no other value. A value of the wrong Go
  type is refused by \<^verbatim>\<open>asType\<close>.
\<close>

definition propWriters :: "prop_type \<Rightarrow> any writer option" where
  "propWriters t =
     (if t = PtNull then Some (\<lambda>q v. Inr q)
      else if t = PtSvrEID then Some (\<lambda>q v. case v of ASvrEID x \<Rightarrow> PushSVREID q x | _ \<Rightarrow> Inl ErrFormat)
      else if t = PtShort then Some (\<lambda>q v. case v of AInt16 x \<Rightarrow> Inr (PushUint16 q x) | _ \<Rightarrow> Inl ErrFormat)
      else if t = PtLong then Some (\<lambda>q v. case v of AInt32 x \<Rightarrow> Inr (PushUint32 q x) | _ \<Rightarrow> Inl ErrFormat)
      else if t = PtError then Some (\<lambda>q v. case v of AUint32 x \<Rightarrow> Inr (PushUint32 q x) | _ \<Rightarrow> Inl ErrFormat)
      else if t = PtFloat then Some (\<lambda>q v. case v of AFloat32 x \<Rightarrow> Inr (PushFloat32 q x) | _ \<Rightarrow> Inl ErrFormat)
      else if t = PtDouble \<or> t = PtAppTime
      then Some (\<lambda>q v. case v of AFloat64 x \<Rightarrow> Inr (PushFloat64 q x) | _ \<Rightarrow> Inl ErrFormat)
      else if t = PtCurrency \<or> t = PtI8
      then Some (\<lambda>q v. case v of AInt64 x \<Rightarrow> Inr (PushUint64 q x) | _ \<Rightarrow> Inl ErrFormat)
      else if t = PtSysTime then Some (\<lambda>q v. case v of AUint64 x \<Rightarrow> Inr (PushUint64 q x) | _ \<Rightarrow> Inl ErrFormat)
      else if t = PtBoolean then Some (\<lambda>q v. case v of ABool x \<Rightarrow> Inr (PushBool q x) | _ \<Rightarrow> Inl ErrFormat)
      else if t = PtString8 then Some (\<lambda>q v. case v of AString x \<Rightarrow> Inr (PushString8 q x) | _ \<Rightarrow> Inl ErrFormat)
      else if t = PtUnicode then Some (\<lambda>q v. case v of AString x \<Rightarrow> Inr (PushUnicode q x) | _ \<Rightarrow> Inl ErrFormat)
      else if t = PtCLSID then Some (\<lambda>q v. case v of AGuid x \<Rightarrow> Inr (PushGUID q x) | _ \<Rightarrow> Inl ErrFormat)
      else if t = PtBinary then Some (\<lambda>q v. case v of ABytes x \<Rightarrow> PushBin q x | _ \<Rightarrow> Inl ErrFormat)
      else if t = PtObject
      then Some (\<lambda>q v. if has_flag (pflags q) FlagABK then Inr q
                       else (case v of ABytes x \<Rightarrow> PushBin q x | _ \<Rightarrow> Inl ErrFormat))
      else if t = PtMvShort
      then Some (\<lambda>q v. case v of AInt16s xs \<Rightarrow> pushArr32 (\<lambda>q x. Inr (PushUint16 q x)) q xs | _ \<Rightarrow> Inl ErrFormat)
      else if t = PtMvLong
      then Some (\<lambda>q v. case v of AInt32s xs \<Rightarrow> pushArr32 (\<lambda>q x. Inr (PushUint32 q x)) q xs | _ \<Rightarrow> Inl ErrFormat)
      else if t = PtMvCurrency \<or> t = PtMvI8
      then Some (\<lambda>q v. case v of AInt64s xs \<Rightarrow> pushArr32 (\<lambda>q x. Inr (PushUint64 q x)) q xs | _ \<Rightarrow> Inl ErrFormat)
      else if t = PtMvDouble \<or> t = PtMvAppTime
      then Some (\<lambda>q v. case v of AFloat64s xs \<Rightarrow> pushArr32 (\<lambda>q x. Inr (PushFloat64 q x)) q xs | _ \<Rightarrow> Inl ErrFormat)
      else if t = PtMvSysTime
      then Some (\<lambda>q v. case v of AUint64s xs \<Rightarrow> pushArr32 (\<lambda>q x. Inr (PushUint64 q x)) q xs | _ \<Rightarrow> Inl ErrFormat)
      else if t = PtMvFloat
      then Some (\<lambda>q v. case v of AFloat32s xs \<Rightarrow> pushArr32 (\<lambda>q x. Inr (PushFloat32 q x)) q xs | _ \<Rightarrow> Inl ErrFormat)
      else if t = PtMvString8
      then Some (\<lambda>q v. case v of AStrings xs \<Rightarrow> pushArr32 (\<lambda>q x. Inr (PushString8 q x)) q xs | _ \<Rightarrow> Inl ErrFormat)
      else if t = PtMvUnicode
      then Some (\<lambda>q v. case v of AStrings xs \<Rightarrow> pushArr32 (\<lambda>q x. Inr (PushUnicode q x)) q xs | _ \<Rightarrow> Inl ErrFormat)
      else if t = PtMvCLSID
      then Some (\<lambda>q v. case v of AGuids xs \<Rightarrow> pushArr32 (\<lambda>q x. Inr (PushGUID q x)) q xs | _ \<Rightarrow> Inl ErrFormat)
      else if t = PtMvBinary
      then Some (\<lambda>q v. case v of ABytess xs \<Rightarrow> pushArr32 PushBin q xs | _ \<Rightarrow> Inl ErrFormat)
      else None)"

definition pullAs :: "('a \<Rightarrow> any) \<Rightarrow> 'a reader \<Rightarrow> any reader" where
  "pullAs mk rd p = bindr (rd p) (\<lambda>(x, p). Inr (mk x, p))"

definition propReaders :: "prop_type \<Rightarrow> any reader option" where
  "propReaders t =
     (if t = PtNull then Some (\<lambda>p. Inr (ANil, p))
      else if t = PtSvrEID then Some (pullAs ASvrEID PullSVREID)
      else if t = PtShort then Some (pullAs AInt16 PullUint16)
      else if t = PtLong then Some (pullAs AInt32 PullUint32)
      else if t = PtError then Some (pullAs AUint32 PullUint32)
      else if t = PtFloat then Some (pullAs AFloat32 PullFloat32)
      else if t = PtDouble \<or> t = PtAppTime then Some (pullAs AFloat64 PullFloat64)
      else if t = PtCurrency \<or> t = PtI8 then Some (pullAs AInt64 PullUint64)
      else if t = PtSysTime then Some (pullAs AUint64 PullUint64)
      else if t = PtBoolean then Some (pullAs ABool PullBool)
      else if t = PtString8 then Some (pullAs AString PullString8)
      else if t = PtUnicode then Some (pullAs AString PullUnicode)
      else if t = PtCLSID then Some (pullAs AGuid PullGUID)
      else if t = PtBinary then Some (pullAs ABytes PullBin)
      else if t = PtObject then Some (\<lambda>p. if has_flag (rflags p) FlagABK then Inr (ANil, p) else pullAs ABytes PullBin p)
      else if t = PtMvShort then Some (pullAs AInt16s (pullArr32 PullUint16))
      else if t = PtMvLong then Some (pullAs AInt32s (pullArr32 PullUint32))
      else if t = PtMvCurrency \<or> t = PtMvI8 then Some (pullAs AInt64s (pullArr32 PullUint64))
      else if t = PtMvDouble \<or> t = PtMvAppTime then Some (pullAs AFloat64s (pullArr32 PullFloat64))
      else if t = PtMvSysTime then Some (pullAs AUint64s (pullArr32 PullUint64))
      else if t = PtMvFloat then Some (pullAs AFloat32s (pullArr32 PullFloat32))
      else if t = PtMvString8 then Some (pullAs AStrings (pullArr32 PullString8))
      else if t = PtMvUnicode then Some (pullAs AStrings (pullArr32 PullUnicode))
      else if t = PtMvCLSID then Some (pullAs AGuids (pullArr32 PullGUID))
      else if t = PtMvBinary then Some (pullAs ABytess (pullArr32 PullBin))
      else None)"

section \<open>Writers (propval.go, typedval.go, restriction.go, action.go)\<close>

text \<open>\<^verbatim>\<open>patchU16\<close>: overwrite two bytes already written.\<close>

definition patchU16 :: "push \<Rightarrow> nat \<Rightarrow> u16 \<Rightarrow> push" where
  "patchU16 q offset v = q\<lparr>buf := take offset (buf q) @ le_bytes 2 v @ drop (offset + 2) (buf q)\<rparr>"

definition pushResCount :: "push \<Rightarrow> nat \<Rightarrow> ext_error + push" where
  "pushResCount q n =
     (if has_flag (pflags q) FlagWCount then Inr (PushUint32 q (of_nat n))
      else if n > 0xFFFF then Inl ErrFormat
      else Inr (PushUint16 q (of_nat n)))"

definition PushMoveCopyAction :: "push \<Rightarrow> bool \<Rightarrow> store_entry_id option \<Rightarrow> any \<Rightarrow> ext_error + push" where
  "PushMoveCopyAction q sameStore storeEID folderEID =
     (if sameStore then
        (let q = PushUint8 (PushUint16 (PushUint8 q 1) 1) 0 in
         case folderEID of ASvrEID svr \<Rightarrow> PushSVREID q svr | _ \<Rightarrow> Inl ErrFormat)
      else
        (let q = PushUint8 q 0 in
         case storeEID of
           None \<Rightarrow> Inl ErrFormat
         | Some e \<Rightarrow>
             (let lenOff = PushLen q;
                  q = PushStoreEntryID (PushUint16 q 0) e;
                  eidSize = PushLen q - (lenOff + 2)
              in if eidSize > 0xFFFF then Inl ErrFormat
                 else
                   (let q = patchU16 q lenOff (of_nat eidSize) in
                    case folderEID of ABytes bin \<Rightarrow> PushBin q bin | _ \<Rightarrow> Inl ErrFormat))))"

definition PushReply :: "push \<Rightarrow> reply_action \<Rightarrow> push" where
  "PushReply q r = PushGUID (PushUint64 (PushUint64 q (TemplateFolderID r)) (TemplateMessageID r)) (TemplateGUID r)"

text \<open>The writers recurse on the structure of the value.\<close>

lemma size_element: "x \<in> set xs \<Longrightarrow> f x < size_list f xs"
  by (induction xs) auto

lemma part_sizes [simp]:
  "size_tagged_prop_val f = (\<lambda>tp. Suc (f (TValue tp)))"
  "size_restriction f = (\<lambda>r. Suc (f (RValue r)))"
  "size_action_block f = (\<lambda>a. Suc (f (AData a)))"
  "size_recipient_block f = (\<lambda>rb. Suc (size_list (\<lambda>tp. Suc (f (TValue tp))) (PropVals rb)))"
proof -
  show tp: "size_tagged_prop_val f = (\<lambda>tp. Suc (f (TValue tp)))"
    by (rule ext) (case_tac tp, simp)
  show "size_recipient_block f = (\<lambda>rb. Suc (size_list (\<lambda>tp. Suc (f (TValue tp))) (PropVals rb)))"
    by (rule ext) (case_tac rb, simp add: tp)
qed (rule ext, case_tac r, simp, rule ext, case_tac a, simp)

function (sequential)
  PushPropValue :: "push \<Rightarrow> prop_type \<Rightarrow> any \<Rightarrow> ext_error + push" and
  pushValueOf :: "push \<Rightarrow> prop_type \<Rightarrow> any \<Rightarrow> ext_error + push" and
  PushTypedPropVal :: "push \<Rightarrow> prop_type \<Rightarrow> any \<Rightarrow> ext_error + push" and
  PushTaggedPropVal :: "push \<Rightarrow> any tagged_prop_val \<Rightarrow> ext_error + push" and
  PushRestriction :: "push \<Rightarrow> any restriction \<Rightarrow> ext_error + push" and
  pushResValue :: "push \<Rightarrow> u8 \<Rightarrow> any \<Rightarrow> ext_error + push" and
  PushRuleActions :: "push \<Rightarrow> any action_block list \<Rightarrow> ext_error + push" and
  pushActionBlock :: "push \<Rightarrow> any action_block \<Rightarrow> ext_error + push" and
  actionData :: "push \<Rightarrow> u8 \<Rightarrow> any \<Rightarrow> ext_error + push" and
  pushRecipientBlock :: "push \<Rightarrow> any recipient_block \<Rightarrow> ext_error + push"
where
  "PushPropValue q t v =
     (if has_flag (pflags q) FlagABK \<and> abkGated t then
        (if v = ANil then Inr (PushUint8 q 0) else pushValueOf (PushUint8 q 0xFF) t v)
      else pushValueOf q (if t AND MviFlag = MviFlag then t AND NOT MviFlag else t) v)"
| "pushValueOf q t v =
     (if t = PtUnspecified then
        (case v of ATyped t' v' \<Rightarrow> PushTypedPropVal q t' v' | _ \<Rightarrow> Inl ErrFormat)
      else if t = PtRestriction then (case v of ARestriction r \<Rightarrow> PushRestriction q r | _ \<Rightarrow> Inl ErrFormat)
      else if t = PtActions then (case v of ARuleActions bs \<Rightarrow> PushRuleActions q bs | _ \<Rightarrow> Inl ErrFormat)
      else (case propWriters t of Some write \<Rightarrow> write q v | None \<Rightarrow> Inl ErrFormat))"
| "PushTypedPropVal q t v = PushPropValue (PushUint16 q t) t v"
| "PushTaggedPropVal q tp = PushPropValue (PushUint32 q (Tag tp)) (TagType (Tag tp)) (TValue tp)"
| "PushRestriction q r = pushResValue (PushUint8 q (RType r)) (RType r) (RValue r)"
| "pushResValue q rt v =
     (if rt = ResAnd \<or> rt = ResOr then
        (case v of
           ARestrictions kids \<Rightarrow> bindr (pushResCount q (length kids)) (\<lambda>q. pushEach (\<lambda>q k. PushRestriction q k) q kids)
         | _ \<Rightarrow> Inl ErrFormat)
      else if rt = ResNot then (case v of ARestriction r \<Rightarrow> PushRestriction q r | _ \<Rightarrow> Inl ErrFormat)
      else if rt = ResComment \<or> rt = ResAnnotation then
        (case v of
           AComment pvs res \<Rightarrow>
             if length pvs = 0 \<or> length pvs > 0xFF then Inl ErrFormat
             else
               bindr (pushEach (\<lambda>q tp. PushTaggedPropVal q tp) (PushUint8 q (of_nat (length pvs))) pvs) (\<lambda>q.
                 case res of None \<Rightarrow> Inr (PushUint8 q 0) | Some r \<Rightarrow> PushRestriction (PushUint8 q 1) r)
         | _ \<Rightarrow> Inl ErrFormat)
      else if rt = ResContent then
        (case v of AContent fuzzy tag tp \<Rightarrow> PushTaggedPropVal (PushUint32 (PushUint32 q fuzzy) tag) tp | _ \<Rightarrow> Inl ErrFormat)
      else if rt = ResProperty then
        (case v of AProperty relop tag tp \<Rightarrow> PushTaggedPropVal (PushUint32 (PushUint8 q relop) tag) tp | _ \<Rightarrow> Inl ErrFormat)
      else if rt = ResPropCompare then
        (case v of ACompareProps relop t1 t2 \<Rightarrow> Inr (PushUint32 (PushUint32 (PushUint8 q relop) t1) t2) | _ \<Rightarrow> Inl ErrFormat)
      else if rt = ResBitmask then
        (case v of ABitmask relop tag m \<Rightarrow> Inr (PushUint32 (PushUint32 (PushUint8 q relop) tag) m) | _ \<Rightarrow> Inl ErrFormat)
      else if rt = ResSize then
        (case v of ASize relop tag sz \<Rightarrow> Inr (PushUint32 (PushUint32 (PushUint8 q relop) tag) sz) | _ \<Rightarrow> Inl ErrFormat)
      else if rt = ResExist then (case v of AExist tag \<Rightarrow> Inr (PushUint32 q tag) | _ \<Rightarrow> Inl ErrFormat)
      else if rt = ResSub then
        (case v of ASub so r \<Rightarrow> PushRestriction (PushUint32 q so) r | _ \<Rightarrow> Inl ErrFormat)
      else if rt = ResCount then
        (case v of ACount c r \<Rightarrow> PushRestriction (PushUint32 q c) r | _ \<Rightarrow> Inl ErrFormat)
      else if rt = ResNull then Inr q
      else Inl ErrFormat)"
| "PushRuleActions q bs =
     (if length bs = 0 \<or> length bs > 0xFFFF then Inl ErrFormat
      else pushEach (\<lambda>q b. pushActionBlock q b) (PushUint16 q (of_nat (length bs))) bs)"
| "pushActionBlock q a =
     (let lenOff = PushLen q in
      bindr (actionData (PushUint32 (PushUint32 (PushUint8 (PushUint16 q 0) (AType a)) (Flavor a)) (AFlags a)) (AType a) (AData a)) (\<lambda>q.
        let body = PushLen q - (lenOff + 2) in
        if body > 0xFFFF then Inl ErrFormat else Inr (patchU16 q lenOff (of_nat body))))"
| "actionData q ty v =
     (if ty = OpMove \<or> ty = OpCopy then
        (case v of AMoveCopy same store folder \<Rightarrow> PushMoveCopyAction q same store folder | _ \<Rightarrow> Inl ErrFormat)
      else if ty = OpReply \<or> ty = OpOOFReply then (case v of AReply r \<Rightarrow> Inr (PushReply q r) | _ \<Rightarrow> Inl ErrFormat)
      else if ty = OpForward \<or> ty = OpDelegate then
        (case v of
           AForward rs \<Rightarrow>
             if length rs = 0 \<or> length rs > 0xFFFF then Inl ErrFormat
             else pushEach (\<lambda>q rb. pushRecipientBlock q rb) (PushUint16 q (of_nat (length rs))) rs
         | _ \<Rightarrow> Inl ErrFormat)
      else if ty = OpDeferAction then (case v of ABytes b \<Rightarrow> Inr (PushRaw q b) | _ \<Rightarrow> Inl ErrFormat)
      else if ty = OpBounce then (case v of AUint32 code \<Rightarrow> Inr (PushUint32 q code) | _ \<Rightarrow> Inl ErrFormat)
      else if ty = OpTag then (case v of ATagged tp \<Rightarrow> PushTaggedPropVal q tp | _ \<Rightarrow> Inl ErrFormat)
      else if ty = OpDelete \<or> ty = OpMarkAsRead then Inr q
      else Inl ErrFormat)"
| "pushRecipientBlock q rb =
     (if length (PropVals rb) = 0 \<or> length (PropVals rb) > 0xFFFF then Inl ErrFormat
      else pushEach (\<lambda>q tp. PushTaggedPropVal q tp) (PushUint16 (PushUint8 q 0) (of_nat (length (PropVals rb)))) (PropVals rb))"
  by pat_completeness auto

termination
proof (relation "measure (case_sum
    (case_sum (case_sum (\<lambda>(q, t, v). 4 * size v + 2) (\<lambda>(q, t, v). 4 * size v + 1))
      (case_sum (\<lambda>(q, t, v). 4 * size v + 3)
        (case_sum (\<lambda>(q, tp). 4 * size_tagged_prop_val size tp) (\<lambda>(q, r). 4 * size_restriction size r))))
    (case_sum (case_sum (\<lambda>(q, rt, v). 4 * size v) (\<lambda>(q, bs). 4 * size_list (size_action_block size) bs))
      (case_sum (\<lambda>(q, a). 4 * size_action_block size a)
        (case_sum (\<lambda>(q, ty, v). 4 * size v) (\<lambda>(q, rb). 4 * size_recipient_block size rb)))))",
    goal_cases)
qed (auto dest: size_element [where f = "\<lambda>tp. Suc (size (TValue tp))"] size_element [where f = "\<lambda>r. Suc (size (RValue r))"]
    size_element [where f = "\<lambda>a. Suc (size (AData a))"]
    size_element [where f = "\<lambda>rb. Suc (size_list (\<lambda>tp. Suc (size (TValue tp))) (PropVals rb))"])

declare PushPropValue.simps [simp del] pushValueOf.simps [simp del] PushTypedPropVal.simps [simp del]
  PushTaggedPropVal.simps [simp del] PushRestriction.simps [simp del] pushResValue.simps [simp del]
  PushRuleActions.simps [simp del] pushActionBlock.simps [simp del] actionData.simps [simp del]
  pushRecipientBlock.simps [simp del]

end
