(* ===== verification/Ext_Read.thy ===== *)
theory Ext_Read
  imports Ext_Values
begin

text \<open>
  The readers of \<^verbatim>\<open>propval.go\<close>, \<^verbatim>\<open>typedval.go\<close>, \<^verbatim>\<open>restriction.go\<close> and \<^verbatim>\<open>action.go\<close>. Each is first defined
  over the readers it calls back (property values and restrictions), as the tables of the source are
  filled at start-up; the knot is tied by a recursion bound that is shown to be sufficient on every
  buffer, after which the readers satisfy the recursion equations of the source.
\<close>

unbundle bit_operations_syntax

section \<open>The readers over the readers they call\<close>

abbreviation (input) maxRestrictionDepth :: nat where "maxRestrictionDepth \<equiv> 100"
abbreviation (input) maxTypedValDepth :: nat where "maxTypedValDepth \<equiv> 100"

text \<open>The counters incremented on entry, tested, and decremented by the deferred call.\<close>

definition withResDepth :: "'a reader \<Rightarrow> 'a reader" where
  "withResDepth rd p =
     (let p = p\<lparr>resDepth := resDepth p + 1\<rparr> in
      if resDepth p > maxRestrictionDepth then Inl ErrTooDeep
      else bindr (rd p) (\<lambda>(x, p). Inr (x, p\<lparr>resDepth := resDepth p - 1\<rparr>)))"

definition withValDepth :: "'a reader \<Rightarrow> 'a reader" where
  "withValDepth rd p =
     (let p = p\<lparr>valDepth := valDepth p + 1\<rparr> in
      if valDepth p > maxTypedValDepth then Inl ErrTooDeep
      else bindr (rd p) (\<lambda>(x, p). Inr (x, p\<lparr>valDepth := valDepth p - 1\<rparr>)))"

type_synonym value_reader = "prop_type \<Rightarrow> any reader"

definition pullTypedPropVal :: "value_reader \<Rightarrow> (prop_type \<times> any) reader" where
  "pullTypedPropVal pv =
     withValDepth (\<lambda>p.
       bindr (PullUint16 p) (\<lambda>(t, p).
       bindr (pv t p) (\<lambda>(v, p). Inr ((t, v), p))))"

definition pullTaggedPropVal :: "value_reader \<Rightarrow> any tagged_prop_val reader" where
  "pullTaggedPropVal pv p =
     bindr (PullUint32 p) (\<lambda>(tag, p).
     bindr (pv (TagType tag) p) (\<lambda>(v, p). Inr (TaggedPropVal tag v, p)))"

definition pullResCount :: "u32 reader" where
  "pullResCount p =
     (if has_flag (rflags p) FlagWCount then PullUint32 p
      else bindr (PullUint16 p) (\<lambda>(v, p). Inr (ucast v, p)))"

definition pullResChildren :: "any restriction reader \<Rightarrow> any reader" where
  "pullResChildren res p =
     bindr (pullResCount p) (\<lambda>(n, p).
     bindr (checkCount p n) (\<lambda>_.
     bindr (pullN (unat n) res p) (\<lambda>(kids, p). Inr (ARestrictions kids, p))))"

definition pullResPropCompare :: "any reader" where
  "pullResPropCompare p =
     bindr (PullUint8 p) (\<lambda>(relop, p).
     bindr (PullUint32 p) (\<lambda>(t1, p).
     bindr (PullUint32 p) (\<lambda>(t2, p). Inr (ACompareProps relop t1 t2, p))))"

definition pullResSub :: "any restriction reader \<Rightarrow> any reader" where
  "pullResSub res p =
     bindr (PullUint32 p) (\<lambda>(so, p).
     bindr (res p) (\<lambda>(r, p). Inr (ASub so r, p)))"

definition pullResCountNode :: "any restriction reader \<Rightarrow> any reader" where
  "pullResCountNode res p =
     bindr (PullUint32 p) (\<lambda>(c, p).
     bindr (res p) (\<lambda>(r, p). Inr (ACount c r, p)))"

definition pullResContent :: "value_reader \<Rightarrow> any reader" where
  "pullResContent pv p =
     bindr (PullUint32 p) (\<lambda>(fuzzy, p).
     bindr (PullUint32 p) (\<lambda>(tag, p).
     bindr (pullTaggedPropVal pv p) (\<lambda>(tp, p). Inr (AContent fuzzy tag tp, p))))"

definition pullResProperty :: "value_reader \<Rightarrow> any reader" where
  "pullResProperty pv p =
     bindr (PullUint8 p) (\<lambda>(relop, p).
     bindr (PullUint32 p) (\<lambda>(tag, p).
     bindr (pullTaggedPropVal pv p) (\<lambda>(tp, p). Inr (AProperty relop tag tp, p))))"

definition pullResRelopTagValue :: "(u8 \<times> prop_tag \<times> u32) reader" where
  "pullResRelopTagValue p =
     bindr (PullUint8 p) (\<lambda>(relop, p).
     bindr (PullUint32 p) (\<lambda>(tag, p).
     bindr (PullUint32 p) (\<lambda>(x, p). Inr ((relop, tag, x), p))))"

definition pullResComment :: "value_reader \<Rightarrow> any restriction reader \<Rightarrow> any reader" where
  "pullResComment pv res p =
     bindr (PullUint8 p) (\<lambda>(cnt, p).
       if cnt = 0 then Inl ErrFormat
       else
         bindr (pullN (unat cnt) (pullTaggedPropVal pv) p) (\<lambda>(pvs, p).
         bindr (PullUint8 p) (\<lambda>(present, p).
           if present = 0 then Inr (AComment pvs None, p)
           else bindr (res p) (\<lambda>(r, p). Inr (AComment pvs (Some r), p)))))"

definition restrictionReaders :: "value_reader \<Rightarrow> any restriction reader \<Rightarrow> u8 \<Rightarrow> any reader option" where
  "restrictionReaders pv res rt =
     (if rt = ResAnd \<or> rt = ResOr then Some (pullResChildren res)
      else if rt = ResNot then Some (pullAs ARestriction res)
      else if rt = ResComment \<or> rt = ResAnnotation then Some (pullResComment pv res)
      else if rt = ResContent then Some (pullResContent pv)
      else if rt = ResProperty then Some (pullResProperty pv)
      else if rt = ResPropCompare then Some pullResPropCompare
      else if rt = ResBitmask then Some (pullAs (\<lambda>(relop, tag, m). ABitmask relop tag m) pullResRelopTagValue)
      else if rt = ResSize then Some (pullAs (\<lambda>(relop, tag, sz). ASize relop tag sz) pullResRelopTagValue)
      else if rt = ResExist then Some (pullAs AExist PullUint32)
      else if rt = ResSub then Some (pullResSub res)
      else if rt = ResCount then Some (pullResCountNode res)
      else if rt = ResNull then Some (\<lambda>p. Inr (ANil, p))
      else None)"

definition pullRestriction :: "value_reader \<Rightarrow> any restriction reader \<Rightarrow> any restriction reader" where
  "pullRestriction pv res =
     withResDepth (\<lambda>p.
       bindr (PullUint8 p) (\<lambda>(rt, p).
         case restrictionReaders pv res rt of
           None \<Rightarrow> Inl ErrFormat
         | Some rd \<Rightarrow> bindr (rd p) (\<lambda>(v, p). Inr (Restriction rt v, p))))"

definition PullMoveCopyAction :: "any reader" where
  "PullMoveCopyAction p =
     bindr (PullUint8 p) (\<lambda>(ss, p).
     bindr (PullUint16 p) (\<lambda>(eidSize, p).
       if ss \<noteq> 0
       then bindr (PullRaw (uint eidSize) p) (\<lambda>(_, p).
            bindr (PullSVREID p) (\<lambda>(svr, p). Inr (AMoveCopy True None (ASvrEID svr), p)))
       else bindr (PullStoreEntryID p) (\<lambda>(se, p).
            bindr (PullBin p) (\<lambda>(bin, p). Inr (AMoveCopy False (Some se) (ABytes bin), p)))))"

definition PullReply :: "any reader" where
  "PullReply p =
     bindr (PullUint64 p) (\<lambda>(folder, p).
     bindr (PullUint64 p) (\<lambda>(msg, p).
     bindr (PullGUID p) (\<lambda>(g, p).
     Inr (AReply \<lparr>TemplateFolderID = folder, TemplateMessageID = msg, TemplateGUID = g\<rparr>, p))))"

text \<open>The counted lists of action.go: a 16-bit count that must not be zero, checked, then the elements.\<close>

definition pullCounted :: "'a reader \<Rightarrow> 'a list reader" where
  "pullCounted rd p =
     bindr (PullUint16 p) (\<lambda>(n, p).
       if n = 0 then Inl ErrFormat
       else bindr (checkCount p (ucast n)) (\<lambda>_. pullN (unat n) rd p))"

definition pullRecipientBlock :: "value_reader \<Rightarrow> any recipient_block reader" where
  "pullRecipientBlock pv p =
     bindr (PullUint8 p) (\<lambda>(_, p).
     bindr (pullCounted (pullTaggedPropVal pv) p) (\<lambda>(pvs, p). Inr (RecipientBlock pvs, p)))"

definition pullForwardDelegateAction :: "value_reader \<Rightarrow> any reader" where
  "pullForwardDelegateAction pv = pullAs AForward (pullCounted (pullRecipientBlock pv))"

definition actionReaders :: "value_reader \<Rightarrow> u8 \<Rightarrow> (u16 \<Rightarrow> any reader) option" where
  "actionReaders pv ty =
     (if ty = OpMove \<or> ty = OpCopy then Some (\<lambda>_. PullMoveCopyAction)
      else if ty = OpReply \<or> ty = OpOOFReply then Some (\<lambda>_. PullReply)
      else if ty = OpForward \<or> ty = OpDelegate then Some (\<lambda>_. pullForwardDelegateAction pv)
      else if ty = OpDeferAction
      then Some (\<lambda>len p. if len < 9 then Inl ErrFormat else pullAs ABytes (PullRaw (uint len - 9)) p)
      else if ty = OpBounce then Some (\<lambda>_. pullAs AUint32 PullUint32)
      else if ty = OpTag then Some (\<lambda>_. pullAs ATagged (pullTaggedPropVal pv))
      else if ty = OpDelete \<or> ty = OpMarkAsRead then Some (\<lambda>_ p. Inr (ANil, p))
      else None)"

definition pullActionBlock :: "value_reader \<Rightarrow> any action_block reader" where
  "pullActionBlock pv p =
     bindr (PullUint16 p) (\<lambda>(len, p).
     bindr (PullUint8 p) (\<lambda>(ty, p).
     bindr (PullUint32 p) (\<lambda>(flavor, p).
     bindr (PullUint32 p) (\<lambda>(flags, p).
       case actionReaders pv ty of
         None \<Rightarrow> Inl ErrFormat
       | Some rd \<Rightarrow> bindr (rd len p) (\<lambda>(v, p). Inr (ActionBlock ty flavor flags v, p))))))"

definition pullRuleActions :: "value_reader \<Rightarrow> any action_block list reader" where
  "pullRuleActions pv = pullCounted (pullActionBlock pv)"

text \<open>The reader table with the three entries registered by \<^verbatim>\<open>init\<close>.\<close>

definition pullValueOf :: "value_reader \<Rightarrow> any restriction reader \<Rightarrow> prop_type \<Rightarrow> any reader" where
  "pullValueOf pv res t =
     (if t = PtUnspecified then pullAs (\<lambda>(t, v). ATyped t v) (pullTypedPropVal pv)
      else if t = PtRestriction then pullAs ARestriction res
      else if t = PtActions then pullAs ARuleActions (pullRuleActions pv)
      else (case propReaders t of Some rd \<Rightarrow> rd | None \<Rightarrow> (\<lambda>p. Inl ErrFormat)))"

definition pullPropValue :: "value_reader \<Rightarrow> any restriction reader \<Rightarrow> prop_type \<Rightarrow> any reader" where
  "pullPropValue pv res t p =
     (if has_flag (rflags p) FlagABK \<and> abkGated t
      then bindr (PullUint8 p) (\<lambda>(valueSet, p).
             if valueSet = 0 then Inr (ANil, p)
             else if valueSet \<noteq> 0xFF then Inl ErrFormat
             else pullValueOf pv res t p)
      else pullValueOf pv res (if t AND MviFlag = MviFlag then t AND NOT MviFlag else t) p)"

section \<open>The knot\<close>

fun readPropValue :: "nat \<Rightarrow> prop_type \<Rightarrow> any reader"
  and readRestriction :: "nat \<Rightarrow> any restriction reader" where
  "readPropValue 0 t p = Inl ErrFuel"
| "readPropValue (Suc n) t p = pullPropValue (readPropValue n) (readRestriction n) t p"
| "readRestriction 0 p = Inl ErrFuel"
| "readRestriction (Suc n) p = pullRestriction (readPropValue n) (readRestriction n) p"

definition PullPropValue :: "prop_type \<Rightarrow> any reader" where
  "PullPropValue t p = readPropValue (2 * length (rbuf p) + 2) t p"

definition PullRestriction :: "any restriction reader" where
  "PullRestriction p = readRestriction (2 * length (rbuf p) + 1) p"

definition PullTaggedPropVal :: "any tagged_prop_val reader" where
  "PullTaggedPropVal = pullTaggedPropVal PullPropValue"

definition PullTypedPropVal :: "(prop_type \<times> any) reader" where
  "PullTypedPropVal = pullTypedPropVal PullPropValue"

definition PullRuleActions :: "any action_block list reader" where
  "PullRuleActions = pullRuleActions PullPropValue"

section \<open>The readers only advance the cursor\<close>

lemma depth_cursor [simp]:
  "wf_pull (p\<lparr>resDepth := d\<rparr>) = wf_pull p" "unread (p\<lparr>resDepth := d\<rparr>) = unread p"
  "wf_pull (p\<lparr>valDepth := d\<rparr>) = wf_pull p" "unread (p\<lparr>valDepth := d\<rparr>) = unread p"
  "(adv k (p\<lparr>resDepth := d\<rparr>))\<lparr>resDepth := e\<rparr> = adv k (p\<lparr>resDepth := e\<rparr>)"
  "(adv k (p\<lparr>valDepth := d\<rparr>))\<lparr>valDepth := e\<rparr> = adv k (p\<lparr>valDepth := e\<rparr>)"
  by (simp_all add: wf_pull_def unread_def adv_def)

lemma consumes_depth [consume_rules]:
  assumes "consumes m rd"
  shows "consumes m (withResDepth rd)" "consumes m (withValDepth rd)"
proof -
  show "consumes m (withResDepth rd)"
  proof (rule consumesI)
    fix p x p'
    assume "wf_pull p" "withResDepth rd p = Inr (x, p')"
    then obtain p1 where "wf_pull (p\<lparr>resDepth := resDepth p + 1\<rparr>)" "rd (p\<lparr>resDepth := resDepth p + 1\<rparr>) = Inr (x, p1)"
      "p' = p1\<lparr>resDepth := resDepth p1 - 1\<rparr>"
      by (auto simp: withResDepth_def Let_def split: if_splits)
    with assms show "\<exists>k. m \<le> k \<and> k \<le> length (unread p) \<and> p' = adv k p"
      by (elim consumesE) auto
  qed
  show "consumes m (withValDepth rd)"
  proof (rule consumesI)
    fix p x p'
    assume "wf_pull p" "withValDepth rd p = Inr (x, p')"
    then obtain p1 where "wf_pull (p\<lparr>valDepth := valDepth p + 1\<rparr>)" "rd (p\<lparr>valDepth := valDepth p + 1\<rparr>) = Inr (x, p1)"
      "p' = p1\<lparr>valDepth := valDepth p1 - 1\<rparr>"
      by (auto simp: withValDepth_def Let_def split: if_splits)
    with assms show "\<exists>k. m \<le> k \<and> k \<le> length (unread p) \<and> p' = adv k p"
      by (elim consumesE) auto
  qed
qed

lemma consumes_pullAs [consume_rules]: "consumes m rd \<Longrightarrow> consumes m (pullAs mk rd)"
  unfolding pullAs_def [abs_def] by (intro consume_rules)

lemmas consumes_more [consume_rules] = consumes_PullBool [THEN consumes_mono] consumes_PullBin [THEN consumes_mono]
  consumes_ids(5) [THEN consumes_mono]

lemma consumes_PullSVREID: "consumes 2 PullSVREID"
  unfolding PullSVREID_def [abs_def] by (intro consume_rules) simp_all

lemma consumes_propReaders: "propReaders t = Some rd \<Longrightarrow> consumes 0 rd"
  unfolding propReaders_def PullFloat32_def [abs_def] PullFloat64_def [abs_def]
  by (auto split: if_splits intro!: consume_rules consumes_mono [OF consumes_PullSVREID]
      consumes_mono [OF consumes_PullUint32] consumes_mono [OF consumes_PullUint64])

text \<open>What the readers that call back consume, given that the readers they call only advance.\<close>

lemma consumes_tagged [consume_rules]:
  "(\<And>t. consumes 0 (pv t)) \<Longrightarrow> k \<le> 4 \<Longrightarrow> consumes k (pullTaggedPropVal pv)"
  "(\<And>t. consumes 0 (pv t)) \<Longrightarrow> k \<le> 2 \<Longrightarrow> consumes k (pullTypedPropVal pv)"
  unfolding pullTaggedPropVal_def [abs_def] pullTypedPropVal_def
  by (intro consume_rules; assumption)+

lemma consumes_pullResCount [consume_rules]: "k \<le> 2 \<Longrightarrow> consumes k pullResCount"
  unfolding pullResCount_def [abs_def] by (intro consume_rules; simp)

lemma consumes_nodes:
  assumes "\<And>t. consumes 0 (pv t)" "consumes 0 res"
  shows "consumes 0 (pullResChildren res)" "consumes 0 pullResPropCompare" "consumes 0 (pullResSub res)"
    "consumes 0 (pullResCountNode res)" "consumes 0 (pullResContent pv)" "consumes 0 (pullResProperty pv)"
    "consumes 0 pullResRelopTagValue"
  unfolding pullResChildren_def [abs_def] pullResPropCompare_def [abs_def] pullResSub_def [abs_def]
    pullResCountNode_def [abs_def] pullResContent_def [abs_def] pullResProperty_def [abs_def]
    pullResRelopTagValue_def [abs_def]
  by (intro consume_rules; (rule assms | simp))+

lemma consumes_comment:
  assumes "\<And>t. consumes 0 (pv t)" "consumes 0 res"
  shows "consumes 0 (pullResComment pv res)"
proof -
  have t: "consumes 0 (pullN n (pullTaggedPropVal pv))" for n
    by (rule consumes_pullN0 [OF consumes_tagged(1) [of pv 4]]) (simp_all add: assms(1))
  show ?thesis unfolding pullResComment_def [abs_def]
    by (intro consumes_bind0 consumes_if consumes_return consumes_fail consumes_word0; (rule t assms | simp))
qed

lemma consumes_restrictionReaders:
  assumes "\<And>t. consumes 0 (pv t)" "consumes 0 res" "restrictionReaders pv res rt = Some rd"
  shows "consumes 0 rd"
  using assms(3) consumes_nodes [of pv res, OF assms(1,2)] consumes_comment [of pv res, OF assms(1,2)] assms(2)
  unfolding restrictionReaders_def
  by (auto split: if_splits intro: consumes_pullAs consumes_word0 consumes_return)

lemma consumes_pullRestriction:
  assumes "\<And>t. consumes 0 (pv t)" "consumes 0 res"
  shows "consumes 1 (pullRestriction pv res)"
proof -
  have t: "consumes 0 (\<lambda>p. case restrictionReaders pv res rt of None \<Rightarrow> Inl ErrFormat
      | Some rd \<Rightarrow> bindr (rd p) (\<lambda>(v, p). Inr (Restriction rt v, p)))" for rt
    using consumes_restrictionReaders [of pv res rt, OF assms]
    by (cases "restrictionReaders pv res rt") (auto intro: consume_rules)
  show ?thesis unfolding pullRestriction_def
    by (rule consumes_depth(1), rule consumes_bind0 [OF consumes_PullUint8]) (rule t)
qed

lemma consumes_pullCounted [consume_rules]: "consumes 0 rd \<Longrightarrow> k \<le> 2 \<Longrightarrow> consumes k (pullCounted rd)"
  unfolding pullCounted_def [abs_def] by (intro consume_rules)

lemma consumes_recipient [consume_rules]: "(\<And>t. consumes 0 (pv t)) \<Longrightarrow> consumes 0 (pullRecipientBlock pv)"
  unfolding pullRecipientBlock_def [abs_def] by (intro consume_rules) simp_all

lemma consumes_actions:
  assumes "\<And>t. consumes 0 (pv t)"
  shows "consumes 0 PullMoveCopyAction" "consumes 0 PullReply" "consumes 0 (pullForwardDelegateAction pv)"
  unfolding PullMoveCopyAction_def [abs_def] PullReply_def [abs_def] pullForwardDelegateAction_def
  by (intro consume_rules consumes_mono [OF consumes_PullSVREID]; (rule assms | simp))+

lemma consumes_actionReaders:
  assumes "\<And>t. consumes 0 (pv t)" "actionReaders pv ty = Some rd"
  shows "consumes 0 (rd len)"
  using assms(2) consumes_actions [of pv, OF assms(1)] consumes_tagged(1) [of pv 0, OF assms(1)]
  unfolding actionReaders_def
  by (auto split: if_splits intro!: consumes_pullAs consumes_word0 consumes_return consumes_fail consumes_if)

lemma consumes_pullActionBlock [consume_rules]:
  assumes "\<And>t. consumes 0 (pv t)"
  shows "consumes 0 (pullActionBlock pv)"
proof -
  have t: "consumes 0 (\<lambda>p. case actionReaders pv ty of None \<Rightarrow> Inl ErrFormat
      | Some rd \<Rightarrow> bindr (rd len p) (\<lambda>(v, p). Inr (ActionBlock ty fv fg v, p)))" for ty len fv fg
    using consumes_actionReaders [of pv ty, OF assms]
    by (cases "actionReaders pv ty") (auto intro: consume_rules)
  show ?thesis unfolding pullActionBlock_def [abs_def]
    by (intro consumes_bind0 consumes_word0 t) simp_all
qed

lemma consumes_pullValueOf:
  assumes "\<And>t. consumes 0 (pv t)" "consumes 0 res"
  shows "consumes 0 (pullValueOf pv res t)"
  using assms consumes_propReaders [of t]
  by (auto simp: pullValueOf_def pullRuleActions_def split: option.splits intro!: consume_rules)

lemma consumes_pullPropValue:
  assumes "\<And>t. consumes 0 (pv t)" "consumes 0 res"
  shows "consumes 0 (pullPropValue pv res t)"
  using consumes_pullValueOf [of pv res, OF assms] unfolding pullPropValue_def [abs_def] by (intro consume_rules) simp_all

lemma consumes_read:
  "consumes 0 (readPropValue n t)" "consumes 0 (readRestriction n)"
proof (induction n arbitrary: t)
  case 0
  { case 1 show ?case by (simp add: consumes_def) next case 2 show ?case by (simp add: consumes_def) }
next
  case (Suc n)
  { case 1 show ?case using consumes_pullPropValue [of "readPropValue n" "readRestriction n", OF Suc] by (simp add: consumes_def)
  next case 2 show ?case
      using consumes_mono [OF consumes_pullRestriction [of "readPropValue n" "readRestriction n", OF Suc], of 0]
      by (simp add: consumes_def) }
qed

section \<open>The recursion bound is enough\<close>

text \<open>
  \<open>agree r rd rd'\<close>: on every cursor with at most \<open>r\<close> unread bytes the two readers do the same, and do not
  run out of the bound.
\<close>

definition agree :: "nat \<Rightarrow> 'a reader \<Rightarrow> 'a reader \<Rightarrow> bool" where
  "agree r rd rd' \<longleftrightarrow> (\<forall>p. wf_pull p \<longrightarrow> length (unread p) \<le> r \<longrightarrow> rd' p = rd p \<and> rd p \<noteq> Inl ErrFuel)"

named_theorems agree_rules

lemma agreeI:
  "(\<And>p. wf_pull p \<Longrightarrow> length (unread p) \<le> r \<Longrightarrow> rd' p = rd p \<and> rd p \<noteq> Inl ErrFuel) \<Longrightarrow> agree r rd rd'"
  unfolding agree_def by blast

lemma agree_mono: "agree r rd rd' \<Longrightarrow> r' \<le> r \<Longrightarrow> agree r' rd rd'"
  by (auto simp: agree_def)

lemma agree_return [agree_rules]: "agree r (\<lambda>p. Inr (x, p)) (\<lambda>p. Inr (x, p))"
  by (simp add: agree_def)

lemma agree_fail [agree_rules]: "e \<noteq> ErrFuel \<Longrightarrow> agree r (\<lambda>p. Inl e) (\<lambda>p. Inl e)"
  by (simp add: agree_def)

lemma agree_bind:
  assumes "agree r rd rd'" "consumes m rd" "\<And>x. m \<le> r \<Longrightarrow> agree (r - m) (f x) (f' x)"
  shows "agree r (\<lambda>p. bindr (rd p) (case_prod f)) (\<lambda>p. bindr (rd' p) (case_prod f'))"
proof (rule agreeI)
  fix p assume p: "wf_pull p" "length (unread p) \<le> r"
  then have eq: "rd' p = rd p" "rd p \<noteq> Inl ErrFuel" using assms(1) by (auto simp: agree_def)
  show "bindr (rd' p) (case_prod f') = bindr (rd p) (case_prod f) \<and> bindr (rd p) (case_prod f) \<noteq> Inl ErrFuel"
  proof (cases "rd p")
    case (Inl e)
    then show ?thesis using eq by simp
  next
    case (Inr y)
    obtain x p' where y: "y = (x, p')" by (cases y)
    obtain k where "m \<le> k" "k \<le> length (unread p)" "p' = adv k p"
      using consumesE [OF assms(2) p(1) Inr [unfolded y]] by blast
    then have "wf_pull p'" "length (unread p') \<le> r - m" "m \<le> r" using p by auto
    then show ?thesis using assms(3) [of x] Inr y eq by (auto simp: agree_def)
  qed
qed

lemma agree_bind0:
  "agree r rd rd' \<Longrightarrow> consumes 0 rd \<Longrightarrow> (\<And>x. agree r (f x) (f' x)) \<Longrightarrow>
     agree r (\<lambda>p. bindr (rd p) (case_prod f)) (\<lambda>p. bindr (rd' p) (case_prod f'))"
  using agree_bind [of r rd rd' 0 f f'] by simp

lemma agree_if [agree_rules]:
  "agree r a a' \<Longrightarrow> agree r b b' \<Longrightarrow> agree r (\<lambda>p. if c p then a p else b p) (\<lambda>p. if c p then a' p else b' p)"
  by (auto simp: agree_def)

lemma agree_test:
  "(\<And>p. t p \<noteq> Inl ErrFuel) \<Longrightarrow> (\<And>u. agree r (rd u) (rd' u)) \<Longrightarrow>
     agree r (\<lambda>p. bindr (t p) (\<lambda>u. rd u p)) (\<lambda>p. bindr (t p) (\<lambda>u. rd' u p))"
  by (rule agreeI) (case_tac "t p", auto simp: agree_def)

lemma agree_pullN:
  assumes "agree r rd rd'" "consumes 0 rd"
  shows "agree r (pullN n rd) (pullN n rd')"
proof (induction n)
  case 0
  then show ?case by (simp add: agree_def)
next
  case (Suc n)
  have "agree r (\<lambda>p. bindr (rd p) (\<lambda>(x, p). bindr (pullN n rd p) (\<lambda>(xs, p). Inr (x # xs, p))))
      (\<lambda>p. bindr (rd' p) (\<lambda>(x, p). bindr (pullN n rd' p) (\<lambda>(xs, p). Inr (x # xs, p))))"
    by (intro agree_bind0 Suc.IH assms agree_return consumes_pullN0 [OF assms(2)])
  then show ?case by (simp add: agree_def)
qed

lemma agree_depth:
  assumes "agree r rd rd'"
  shows "agree r (withResDepth rd) (withResDepth rd')" "agree r (withValDepth rd) (withValDepth rd')"
proof -
  have "withResDepth rd' p = withResDepth rd p \<and> withResDepth rd p \<noteq> Inl ErrFuel
      \<and> withValDepth rd' p = withValDepth rd p \<and> withValDepth rd p \<noteq> Inl ErrFuel"
    if "wf_pull p" "length (unread p) \<le> r" for p
    using assms that
    by (auto simp: agree_def withResDepth_def withValDepth_def Let_def bindr_eq_Inl_iff)
  then show "agree r (withResDepth rd) (withResDepth rd')" "agree r (withValDepth rd) (withValDepth rd')"
    by (simp_all add: agree_def)
qed

lemma agree_pullAs:
  "agree r rd rd' \<Longrightarrow> agree r (pullAs mk rd) (pullAs mk rd')"
  unfolding pullAs_def [abs_def] by (auto simp: agree_def bindr_eq_Inl_iff)

lemma agree_refl: "(\<And>p. rd p \<noteq> Inl ErrFuel) \<Longrightarrow> agree r rd rd"
  by (simp add: agree_def)

lemma prims_no_fuel:
  "need p n \<noteq> Inl ErrFuel" "checkCount p c \<noteq> Inl ErrFuel"
  "PullUint8 p \<noteq> Inl ErrFuel" "PullUint16 p \<noteq> Inl ErrFuel" "PullUint32 p \<noteq> Inl ErrFuel"
  "PullUint64 p \<noteq> Inl ErrFuel" "PullRaw n p \<noteq> Inl ErrFuel" "PullGUID p \<noteq> Inl ErrFuel" "PullBool p \<noteq> Inl ErrFuel"
  "PullString8 p \<noteq> Inl ErrFuel" "PullUnicode p \<noteq> Inl ErrFuel" "PullBin p \<noteq> Inl ErrFuel"
  by (auto simp: need_def checkCount_def PullUint8_def PullUint16_def PullUint32_def PullUint64_def PullRaw_def PullGUID_def
      PullBool_def PullString8_def PullUnicode_def PullBin_def bindr_eq_Inl_iff split: if_splits option.splits)

lemma ids_no_fuel: "PullSVREID p \<noteq> Inl ErrFuel" "PullStoreEntryID p \<noteq> Inl ErrFuel"
  by (auto simp: PullSVREID_def PullStoreEntryID_def storeEntryIDWrapper_def storeEntryIDRecord_def PullFlatUID_def
      bindr_eq_Inl_iff prims_no_fuel Let_def split: if_splits)

lemmas agree_prims [agree_rules] =
  agree_refl [of PullUint8, OF prims_no_fuel(3)] agree_refl [of PullUint16, OF prims_no_fuel(4)]
  agree_refl [of PullUint32, OF prims_no_fuel(5)] agree_refl [of PullUint64, OF prims_no_fuel(6)]
  agree_refl [of "PullRaw _", OF prims_no_fuel(7)] agree_refl [of PullGUID, OF prims_no_fuel(8)]
  agree_refl [of PullBool, OF prims_no_fuel(9)] agree_refl [of PullString8, OF prims_no_fuel(10)]
  agree_refl [of PullUnicode, OF prims_no_fuel(11)] agree_refl [of PullBin, OF prims_no_fuel(12)]
  agree_refl [of PullSVREID, OF ids_no_fuel(1)] agree_refl [of PullStoreEntryID, OF ids_no_fuel(2)]

lemma agree_array:
  assumes "agree r rd rd'" "consumes 0 rd"
  shows "agree r (pullArr32 rd) (pullArr32 rd')"
  unfolding pullArr32_def [abs_def]
  by (intro agree_bind0 agree_test agree_pullN assms agree_prims prims_no_fuel consumes_word0) simp

lemma agree_propReaders: "propReaders t = Some rd \<Longrightarrow> agree r rd rd"
  unfolding propReaders_def PullFloat32_def [abs_def] PullFloat64_def [abs_def]
  by (auto split: if_splits
      intro!: agree_pullAs agree_array agree_prims agree_if agree_return consumes_word0 consumes_more)

definition callbacks :: "nat \<Rightarrow> value_reader \<Rightarrow> value_reader \<Rightarrow> any restriction reader \<Rightarrow> any restriction reader \<Rightarrow> bool" where
  "callbacks r pv pv' res res' \<longleftrightarrow>
     (\<forall>t. agree r (pv t) (pv' t) \<and> consumes 0 (pv t)) \<and> agree r res res' \<and> consumes 0 res"

lemma agree_tagged:
  assumes "\<And>t. 4 \<le> r \<Longrightarrow> agree (r - 4) (pv t) (pv' t)" "\<And>t. consumes 0 (pv t)"
  shows "agree r (pullTaggedPropVal pv) (pullTaggedPropVal pv')"
  unfolding pullTaggedPropVal_def [abs_def]
  by (intro agree_bind [OF agree_prims(3) consumes_PullUint32] agree_bind0 agree_return assms)

lemma agree_typed:
  assumes "\<And>t. 2 \<le> r \<Longrightarrow> agree (r - 2) (pv t) (pv' t)" "\<And>t. consumes 0 (pv t)"
  shows "agree r (pullTypedPropVal pv) (pullTypedPropVal pv')"
  unfolding pullTypedPropVal_def
  by (intro agree_depth agree_bind [OF agree_prims(2) consumes_PullUint16] agree_bind0 agree_return assms)

lemma callback_rules:
  assumes "callbacks r pv pv' res res'"
  shows "agree r (pv t) (pv' t)" "consumes 0 (pv t)" "agree r res res'" "consumes 0 res"
    "agree r (pullTaggedPropVal pv) (pullTaggedPropVal pv')" "consumes 0 (pullTaggedPropVal pv)"
proof -
  show 1: "agree r (pv t) (pv' t)" "consumes 0 (pv t)" "agree r res res'" "consumes 0 res" for t
    using assms by (simp_all add: callbacks_def)
  show "agree r (pullTaggedPropVal pv) (pullTaggedPropVal pv')"
    by (rule agree_tagged [OF agree_mono [OF 1(1)] 1(2)]) simp
  show "consumes 0 (pullTaggedPropVal pv)" by (rule consumes_tagged(1) [OF 1(2)]) simp
qed

lemma agree_nodes:
  assumes "callbacks r pv pv' res res'"
  shows "agree r (pullResChildren res) (pullResChildren res')" "agree r pullResPropCompare pullResPropCompare"
    "agree r (pullResSub res) (pullResSub res')" "agree r (pullResCountNode res) (pullResCountNode res')"
    "agree r (pullResContent pv) (pullResContent pv')" "agree r (pullResProperty pv) (pullResProperty pv')"
    "agree r pullResRelopTagValue pullResRelopTagValue" "agree r (pullResComment pv res) (pullResComment pv' res')"
proof -
  note cb = callback_rules [OF assms]
  note rules = agree_bind0 agree_test agree_if agree_pullN agree_prims agree_return agree_fail prims_no_fuel cb
    consumes_word0 consumes_pullN0 [OF cb(4)] consumes_pullN0 [OF cb(6)]
  have cnt: "agree r pullResCount pullResCount" "consumes 0 pullResCount"
    unfolding pullResCount_def [abs_def] by (intro rules; simp) (rule consumes_pullResCount [unfolded pullResCount_def [abs_def]], simp)
  show "agree r (pullResChildren res) (pullResChildren res')" unfolding pullResChildren_def [abs_def]
    by (intro rules cnt)
  show "agree r pullResPropCompare pullResPropCompare" unfolding pullResPropCompare_def [abs_def]
    by (intro rules; simp)
  show "agree r (pullResSub res) (pullResSub res')" unfolding pullResSub_def [abs_def]
    by (intro rules; simp)
  show "agree r (pullResCountNode res) (pullResCountNode res')" unfolding pullResCountNode_def [abs_def]
    by (intro rules; simp)
  show "agree r (pullResContent pv) (pullResContent pv')" unfolding pullResContent_def [abs_def]
    by (intro rules; simp)
  show "agree r (pullResProperty pv) (pullResProperty pv')" unfolding pullResProperty_def [abs_def]
    by (intro rules; simp)
  show "agree r pullResRelopTagValue pullResRelopTagValue" unfolding pullResRelopTagValue_def [abs_def]
    by (intro rules; simp)
  show "agree r (pullResComment pv res) (pullResComment pv' res')" unfolding pullResComment_def [abs_def]
    by (intro rules; simp)
qed

lemma agree_restrictionReaders:
  assumes "callbacks r pv pv' res res'"
  shows "rel_option (agree r) (restrictionReaders pv res rt) (restrictionReaders pv' res' rt)"
  using agree_nodes [OF assms] callback_rules(3) [OF assms]
  by (auto simp: restrictionReaders_def intro: agree_pullAs agree_prims agree_return)

lemma agree_pullRestriction:
  assumes "1 \<le> r \<Longrightarrow> callbacks (r - 1) pv pv' res res'"
  shows "agree r (pullRestriction pv res) (pullRestriction pv' res')"
proof -
  have "agree (r - 1)
      (\<lambda>p. case restrictionReaders pv res rt of None \<Rightarrow> Inl ErrFormat | Some rd \<Rightarrow> bindr (rd p) (\<lambda>(v, p). Inr (Restriction rt v, p)))
      (\<lambda>p. case restrictionReaders pv' res' rt of None \<Rightarrow> Inl ErrFormat | Some rd \<Rightarrow> bindr (rd p) (\<lambda>(v, p). Inr (Restriction rt v, p)))" if "1 \<le> r" for rt
    using agree_restrictionReaders [OF assms, of rt] consumes_restrictionReaders [of pv res rt]
      callback_rules(2,4) [OF assms] that
    by (cases "restrictionReaders pv res rt"; cases "restrictionReaders pv' res' rt")
      (auto intro!: agree_bind0 agree_return agree_fail)
  then show ?thesis unfolding pullRestriction_def
    by (intro agree_depth agree_bind [OF agree_prims(1) consumes_PullUint8])
qed

lemma agree_pullCounted:
  assumes "2 \<le> r \<Longrightarrow> agree (r - 2) rd rd'" "consumes 0 rd"
  shows "agree r (pullCounted rd) (pullCounted rd')"
  unfolding pullCounted_def [abs_def]
  by (intro agree_bind [OF agree_prims(2) consumes_PullUint16] agree_if agree_fail agree_test agree_pullN assms prims_no_fuel) simp

lemma agree_actions:
  assumes "callbacks r pv pv' res res'"
  shows "agree r PullMoveCopyAction PullMoveCopyAction" "agree r PullReply PullReply"
    "agree r (pullForwardDelegateAction pv) (pullForwardDelegateAction pv')"
proof -
  note cb = callback_rules [OF assms]
  note rules = agree_bind0 agree_if agree_prims agree_return agree_fail consumes_word0
  show "agree r PullMoveCopyAction PullMoveCopyAction" unfolding PullMoveCopyAction_def [abs_def]
    by (intro rules consumes_more consumes_mono [OF consumes_PullSVREID]; simp)
  show "agree r PullReply PullReply" unfolding PullReply_def [abs_def] by (intro rules; simp)
  have "agree r' (pullRecipientBlock pv) (pullRecipientBlock pv')" if "r' \<le> r" for r'
    unfolding pullRecipientBlock_def [abs_def]
    by (intro rules agree_pullCounted agree_mono [OF cb(5)] consumes_pullCounted cb(6); use that in simp)
  then show "agree r (pullForwardDelegateAction pv) (pullForwardDelegateAction pv')"
    unfolding pullForwardDelegateAction_def
    by (intro agree_pullAs agree_pullCounted consumes_recipient cb(2)) simp
qed

lemma agree_actionReaders:
  assumes "callbacks r pv pv' res res'"
  shows "rel_option (\<lambda>rd rd'. \<forall>len. agree r (rd len) (rd' len)) (actionReaders pv ty) (actionReaders pv' ty)"
  using agree_actions [OF assms] callback_rules(5) [OF assms]
  by (auto simp: actionReaders_def intro!: agree_pullAs agree_prims agree_return agree_if agree_fail)

lemma agree_pullActionBlock:
  assumes "callbacks r pv pv' res res'"
  shows "agree r (pullActionBlock pv) (pullActionBlock pv')"
proof -
  have "agree r
      (\<lambda>p. case actionReaders pv ty of None \<Rightarrow> Inl ErrFormat | Some rd \<Rightarrow> bindr (rd len p) (\<lambda>(v, p). Inr (ActionBlock ty fv fg v, p)))
      (\<lambda>p. case actionReaders pv' ty of None \<Rightarrow> Inl ErrFormat | Some rd \<Rightarrow> bindr (rd len p) (\<lambda>(v, p). Inr (ActionBlock ty fv fg v, p)))"
    for ty len fv fg
    using agree_actionReaders [OF assms, of ty] consumes_actionReaders [of pv ty] callback_rules(2) [OF assms]
    by (cases "actionReaders pv ty"; cases "actionReaders pv' ty") (auto intro!: agree_bind0 agree_return agree_fail)
  then show ?thesis unfolding pullActionBlock_def [abs_def]
    by (intro agree_bind0 agree_prims consumes_word0) simp_all
qed

lemma agree_pullPropValue:
  assumes "2 \<le> r \<Longrightarrow> callbacks (r - 2) pv pv' res res'" "\<And>t. consumes 0 (pv t)" "agree r res res'" "consumes 0 res"
  shows "agree r (pullPropValue pv res t) (pullPropValue pv' res' t)"
proof -
  have acts: "agree r' (pullRuleActions pv) (pullRuleActions pv')" if "r' \<le> r" for r'
    unfolding pullRuleActions_def
    by (rule agree_pullCounted [OF agree_mono [OF agree_pullActionBlock [OF assms(1)]] consumes_pullActionBlock [OF assms(2)]])
      (use that in simp_all)
  have typed: "agree r' (pullTypedPropVal pv) (pullTypedPropVal pv')" if "r' \<le> r" for r'
    by (rule agree_typed [OF agree_mono [OF callback_rules(1) [OF assms(1)]] assms(2)]) (use that in simp_all)
  have "agree r' (pullValueOf pv res t) (pullValueOf pv' res' t)" if "r' \<le> r" for r' t
    using acts [OF that] typed [OF that] agree_mono [OF assms(3) that] agree_propReaders [of t]
    by (auto simp: pullValueOf_def split: option.splits intro: agree_pullAs agree_fail)
  then show ?thesis unfolding pullPropValue_def [abs_def]
    by (intro agree_if agree_bind0 agree_prims agree_return agree_fail consumes_word0) simp_all
qed

lemma read_agree:
  "2 * r + 2 \<le> n \<Longrightarrow> 2 * r + 2 \<le> n' \<Longrightarrow> agree r (readPropValue n t) (readPropValue n' t)"
  "2 * r + 1 \<le> n \<Longrightarrow> 2 * r + 1 \<le> n' \<Longrightarrow> agree r (readRestriction n) (readRestriction n')"
proof (induction n arbitrary: n' r t)
  case 0
  { case 1 then show ?case by simp next case 2 then show ?case by simp }
next
  case (Suc n)
  { case 1
    then obtain k where k: "n' = Suc k" by (cases n') auto
    have "callbacks (r - 2) (readPropValue n) (readPropValue k) (readRestriction n) (readRestriction k)" if "2 \<le> r"
      using 1 k that by (auto simp: callbacks_def intro!: Suc consumes_read)
    then have "agree r (pullPropValue (readPropValue n) (readRestriction n) t) (pullPropValue (readPropValue k) (readRestriction k) t)"
      using 1 k by (intro agree_pullPropValue Suc consumes_read) auto
    then show ?case by (simp add: k agree_def)
  next
    case 2
    then obtain k where k: "n' = Suc k" by (cases n') auto
    have "callbacks (r - 1) (readPropValue n) (readPropValue k) (readRestriction n) (readRestriction k)" if "1 \<le> r"
      using 2 k that by (auto simp: callbacks_def intro!: Suc consumes_read)
    then have "agree r (pullRestriction (readPropValue n) (readRestriction n)) (pullRestriction (readPropValue k) (readRestriction k))"
      by (rule agree_pullRestriction)
    then show ?case by (simp add: k agree_def) }
qed

lemma length_unread_le: "length (unread p) \<le> length (rbuf p)"
  by (simp add: unread_def)

lemma read_Pull:
  "2 * r + 2 \<le> n \<Longrightarrow> agree r (readPropValue n t) (PullPropValue t)"
  "2 * r + 1 \<le> n \<Longrightarrow> agree r (readRestriction n) PullRestriction"
proof -
  show "agree r (readPropValue n t) (PullPropValue t)" if "2 * r + 2 \<le> n"
  proof (rule agreeI)
    fix p :: pull assume "wf_pull p" "length (unread p) \<le> r"
    with read_agree(1) [of "length (unread p)" n "2 * length (rbuf p) + 2" t] that length_unread_le [of p]
    show "PullPropValue t p = readPropValue n t p \<and> readPropValue n t p \<noteq> Inl ErrFuel"
      by (simp add: agree_def PullPropValue_def)
  qed
  show "agree r (readRestriction n) PullRestriction" if "2 * r + 1 \<le> n"
  proof (rule agreeI)
    fix p :: pull assume "wf_pull p" "length (unread p) \<le> r"
    with read_agree(2) [of "length (unread p)" n "2 * length (rbuf p) + 1"] that length_unread_le [of p]
    show "PullRestriction p = readRestriction n p \<and> readRestriction n p \<noteq> Inl ErrFuel"
      by (simp add: agree_def PullRestriction_def)
  qed
qed

text \<open>The readers satisfy the equations of the source and never report an exhausted bound.\<close>

lemma Pull_eqs:
  assumes "wf_pull p"
  shows "PullPropValue t p = pullPropValue PullPropValue PullRestriction t p" "PullPropValue t p \<noteq> Inl ErrFuel"
    "PullRestriction p = pullRestriction PullPropValue PullRestriction p" "PullRestriction p \<noteq> Inl ErrFuel"
proof -
  let ?r = "length (unread p)" and ?n = "2 * length (unread p) + 1"
  have "callbacks (?r - 2) (readPropValue ?n) PullPropValue (readRestriction ?n) PullRestriction" if "2 \<le> ?r"
    using that by (auto simp: callbacks_def intro!: read_Pull consumes_read)
  then have "agree ?r (pullPropValue (readPropValue ?n) (readRestriction ?n) t) (pullPropValue PullPropValue PullRestriction t)"
    by (intro agree_pullPropValue read_Pull consumes_read) auto
  with read_Pull(1) [of ?r "Suc ?n" t] assms
  show "PullPropValue t p = pullPropValue PullPropValue PullRestriction t p" "PullPropValue t p \<noteq> Inl ErrFuel"
    by (simp_all add: agree_def)
  let ?m = "2 * length (unread p)"
  have "callbacks (?r - 1) (readPropValue ?m) PullPropValue (readRestriction ?m) PullRestriction" if "1 \<le> ?r"
    using that by (auto simp: callbacks_def intro!: read_Pull consumes_read)
  then have "agree ?r (pullRestriction (readPropValue ?m) (readRestriction ?m)) (pullRestriction PullPropValue PullRestriction)"
    by (rule agree_pullRestriction)
  with read_Pull(2) [of ?r "Suc ?m"] assms
  show "PullRestriction p = pullRestriction PullPropValue PullRestriction p" "PullRestriction p \<noteq> Inl ErrFuel"
    by (simp_all add: agree_def)
qed

lemma consumes_Pull: "consumes 0 (PullPropValue t)" "consumes 0 PullRestriction"
proof -
  show "consumes 0 (PullPropValue t)"
    unfolding consumes_def PullPropValue_def using consumes_read(1) unfolding consumes_def by blast
  show "consumes 0 PullRestriction"
    unfolding consumes_def PullRestriction_def using consumes_read(2) unfolding consumes_def by blast
qed

end
