(* ===== verification/Ext_Trip.thy ===== *)
theory Ext_Trip
  imports Ext_Read
begin

text \<open>
  What the writers of \<^verbatim>\<open>Ext_Values\<close> write, the readers of \<^verbatim>\<open>Ext_Read\<close> read back: property values,
  restrictions and rule actions of any nesting within the two depth limits.
\<close>

unbundle bit_operations_syntax

section \<open>Writing that may be refused\<close>

text \<open>
  \<open>mtrip m fl G w rd x\<close>: whenever the write \<open>w\<close> succeeds under the flags \<open>fl\<close>, it has appended at least
  \<open>m\<close> bytes, and \<open>rd\<close> reads \<open>x\<close> from them.
\<close>

definition mtrip :: "nat \<Rightarrow> u32 \<Rightarrow> (pull \<Rightarrow> bool) \<Rightarrow> (push \<Rightarrow> ext_error + push) \<Rightarrow> 'a reader \<Rightarrow> 'a \<Rightarrow> bool" where
  "mtrip m fl G w rd x \<longleftrightarrow> (\<forall>q q'. pflags q = fl \<longrightarrow> w q = Inr q' \<longrightarrow>
     (\<exists>bs. m \<le> length bs \<and> q' = PushRaw q bs \<and> reads rd (\<lambda>p. rflags p = fl \<and> G p) bs x))"

lemma mtripI:
  assumes "\<And>q q'. pflags q = fl \<Longrightarrow> w q = Inr q' \<Longrightarrow>
     \<exists>bs. m \<le> length bs \<and> q' = PushRaw q bs \<and> reads rd (\<lambda>p. rflags p = fl \<and> G p) bs x"
  shows "mtrip m fl G w rd x"
  using assms unfolding mtrip_def by blast

lemma mtripE:
  assumes "mtrip m fl G w rd x" "pflags q = fl" "w q = Inr q'"
  obtains bs where "m \<le> length bs" "q' = PushRaw q bs" "reads rd (\<lambda>p. rflags p = fl \<and> G p) bs x"
  using assms unfolding mtrip_def by blast

lemma mtrip_fail: "mtrip m fl G (\<lambda>q. Inl e) rd x"
  by (simp add: mtrip_def)

lemma mtrip_mono:
  assumes "mtrip m fl G w rd x" "n \<le> m" "\<And>p. H p \<Longrightarrow> G p"
  shows "mtrip n fl H w rd x"
proof (rule mtripI)
  fix q q' assume "pflags q = fl" "w q = Inr q'"
  with assms(1) obtain bs where bs: "m \<le> length bs" "q' = PushRaw q bs" "reads rd (\<lambda>p. rflags p = fl \<and> G p) bs x"
    by (rule mtripE)
  have "reads rd (\<lambda>p. rflags p = fl \<and> H p) bs x" by (rule reads_mono [OF bs(3)]) (simp add: assms(3))
  with bs assms(2) show "\<exists>bs. n \<le> length bs \<and> q' = PushRaw q bs \<and> reads rd (\<lambda>p. rflags p = fl \<and> H p) bs x"
    by (intro exI [of _ bs]) simp
qed

lemma mtrip_trip: "trip fl G w rd x \<Longrightarrow> mtrip 0 fl G w rd x"
  unfolding trip_def mtrip_def by fastforce

lemma mtrip_cong_reader:
  "mtrip m fl G w rd x \<Longrightarrow> (\<And>p. wf_pull p \<Longrightarrow> rflags p = fl \<Longrightarrow> rd' p = rd p) \<Longrightarrow> mtrip m fl G w rd' x"
  by (simp add: mtrip_def reads_def)

lemma mtrip_bind:
  assumes "mtrip m fl G w rd x" "mtrip n fl G w' (f x) y" "steady G"
  shows "mtrip (m + n) fl G (\<lambda>q. bindr (w q) w') (\<lambda>p. bindr (rd p) (case_prod f)) y"
proof (rule mtripI)
  fix q q' assume q: "pflags q = fl" and "bindr (w q) w' = Inr q'"
  then obtain q1 where w: "w q = Inr q1" "w' q1 = Inr q'" by auto
  obtain bs where bs: "m \<le> length bs" "q1 = PushRaw q bs" "reads rd (\<lambda>p. rflags p = fl \<and> G p) bs x"
    using mtripE [OF assms(1) q w(1)] .
  have "pflags q1 = fl" using q bs(2) by simp
  then obtain cs where cs: "n \<le> length cs" "q' = PushRaw q1 cs" "reads (f x) (\<lambda>p. rflags p = fl \<and> G p) cs y"
    using mtripE [OF assms(2) _ w(2)] by blast
  have "reads (\<lambda>p. bindr (rd p) (case_prod f)) (\<lambda>p. rflags p = fl \<and> G p) (bs @ cs) y"
    using bs(3) cs(3) assms(3) by (intro reads_bind) (auto simp: steady_def)
  then show "\<exists>bs. m + n \<le> length bs \<and> q' = PushRaw q bs \<and> reads (\<lambda>p. bindr (rd p) (case_prod f)) (\<lambda>p. rflags p = fl \<and> G p) bs y"
    using bs cs by (intro exI [of _ "bs @ cs"]) simp
qed

text \<open>A field written by an operation that cannot fail, before the rest.\<close>

lemma mtrip_after:
  assumes "trip fl G (\<lambda>q. Inr (A q)) rd x" "mtrip m fl G w (f x) y" "steady G"
  shows "mtrip m fl G (\<lambda>q. w (A q)) (\<lambda>p. bindr (rd p) (case_prod f)) y"
  using mtrip_bind [of 0 fl G "\<lambda>q. Inr (A q)" rd x m w f y, OF mtrip_trip [OF assms(1)] assms(2,3)] by simp

lemma mtrip_fin:
  assumes "mtrip m fl G w rd x" "f x = (\<lambda>p. Inr (y, p))"
  shows "mtrip m fl G w (\<lambda>p. bindr (rd p) (case_prod f)) y"
proof (rule mtripI)
  fix q q' assume "pflags q = fl" "w q = Inr q'"
  with assms(1) obtain bs where "m \<le> length bs" "q' = PushRaw q bs" "reads rd (\<lambda>p. rflags p = fl \<and> G p) bs x"
    by (rule mtripE)
  then show "\<exists>bs. m \<le> length bs \<and> q' = PushRaw q bs
      \<and> reads (\<lambda>p. bindr (rd p) (case_prod f)) (\<lambda>p. rflags p = fl \<and> G p) bs y"
    using assms(2) by (intro exI [of _ bs]) (auto simp: reads_def)
qed

lemma mtrip_pullAs: "mtrip m fl G w rd x \<Longrightarrow> y = mk x \<Longrightarrow> mtrip m fl G w (pullAs mk rd) y"
  unfolding pullAs_def [abs_def] by (rule mtrip_fin) auto

lemma mtrip_return: "mtrip 0 fl G Inr (\<lambda>p. Inr (x, p)) x"
  by (rule mtrip_trip [OF trip_return]) simp

lemma mtrip_each:
  assumes "\<And>x. x \<in> set xs \<Longrightarrow> mtrip 1 fl G (\<lambda>q. wr q x) rd x" "steady G"
  shows "mtrip (length xs) fl G (\<lambda>q. pushEach wr q xs) (pullN (length xs) rd) xs"
  using assms(1)
proof (induction xs)
  case Nil
  then show ?case using mtrip_return [of fl G "[]"] by (simp add: mtrip_def reads_def)
next
  case (Cons x xs)
  let ?f = "\<lambda>x p. bindr (pullN (length xs) rd p) (\<lambda>(xs, p). Inr (x # xs, p))"
  have "mtrip 1 fl G (\<lambda>q. wr q x) rd x" using Cons.prems by simp
  moreover have "mtrip (length xs) fl G (\<lambda>q. pushEach wr q xs) (?f x) (x # xs)"
    by (rule mtrip_fin [OF Cons.IH]) (use Cons.prems in auto)
  ultimately have "mtrip (1 + length xs) fl G (\<lambda>q. bindr (wr q x) (\<lambda>q. pushEach wr q xs)) (\<lambda>p. bindr (rd p) (case_prod ?f)) (x # xs)"
    using assms(2) by (rule mtrip_bind)
  then show ?case by (simp add: mtrip_def reads_def)
qed

text \<open>A count checked against the bytes left never refuses what was written.\<close>

lemma mtrip_checked:
  assumes "mtrip m fl G w rd x" "unat n \<le> m"
  shows "mtrip m fl G w (\<lambda>p. bindr (checkCount p n) (\<lambda>_. rd p)) x"
proof (rule mtripI)
  fix q q' assume "pflags q = fl" "w q = Inr q'"
  with assms(1) obtain bs where bs: "m \<le> length bs" "q' = PushRaw q bs" "reads rd (\<lambda>p. rflags p = fl \<and> G p) bs x"
    by (rule mtripE)
  have "reads (\<lambda>p. bindr (checkCount p n) (\<lambda>_. rd p)) (\<lambda>p. rflags p = fl \<and> G p) bs x"
    using bs(1,3) assms(2) by (auto simp: reads_def checkCount_eq)
  with bs show "\<exists>bs. m \<le> length bs \<and> q' = PushRaw q bs
      \<and> reads (\<lambda>p. bindr (checkCount p n) (\<lambda>_. rd p)) (\<lambda>p. rflags p = fl \<and> G p) bs x" by blast
qed

section \<open>Nesting depth\<close>

text \<open>
  \<open>depth a b v\<close> is the greatest weight of a path into \<open>v\<close>, where a restriction on the way counts \<open>a\<close> and
  a self-typed value \<open>b\<close>.
\<close>

definition maxs :: "nat list \<Rightarrow> nat" where
  "maxs xs = foldr max xs 0"

lemma maxs_ge: "x \<in> set xs \<Longrightarrow> x \<le> maxs xs"
  by (induction xs) (auto simp: maxs_def)

lemmas part_smaller = size_element [where f = "\<lambda>tp. Suc (size (TValue tp))"]
  size_element [where f = "\<lambda>r. Suc (size (RValue r))"] size_element [where f = "\<lambda>a. Suc (size (AData a))"]
  size_element [where f = "\<lambda>rb. Suc (size_list (\<lambda>tp. Suc (size (TValue tp))) (PropVals rb))"]

function (sequential) depth :: "nat \<Rightarrow> nat \<Rightarrow> any \<Rightarrow> nat" where
  "depth a b (ATyped t v) = b + depth a b v"
| "depth a b (ATagged tp) = depth a b (TValue tp)"
| "depth a b (ARestriction r) = a + depth a b (RValue r)"
| "depth a b (ARestrictions rs) = maxs (map (\<lambda>r. a + depth a b (RValue r)) rs)"
| "depth a b (AContent fuzzy tag tp) = depth a b (TValue tp)"
| "depth a b (AProperty relop tag tp) = depth a b (TValue tp)"
| "depth a b (ASub so r) = a + depth a b (RValue r)"
| "depth a b (AComment pvs res) =
     max (maxs (map (\<lambda>tp. depth a b (TValue tp)) pvs)) (case res of None \<Rightarrow> 0 | Some r \<Rightarrow> a + depth a b (RValue r))"
| "depth a b (ACount c r) = a + depth a b (RValue r)"
| "depth a b (ARuleActions bs) = maxs (map (\<lambda>x. depth a b (AData x)) bs)"
| "depth a b (AForward rs) = maxs (map (\<lambda>rb. maxs (map (\<lambda>tp. depth a b (TValue tp)) (PropVals rb))) rs)"
| "depth a b _ = 0"
  by pat_completeness auto

termination by (relation "measure (\<lambda>(a, b, v). size v)") (auto dest!: part_smaller)

definition room :: "any \<Rightarrow> pull \<Rightarrow> bool" where
  "room v p \<longleftrightarrow> resDepth p + depth 1 0 v \<le> maxRestrictionDepth \<and> valDepth p + depth 0 1 v \<le> maxTypedValDepth"

definition room_res :: "any restriction \<Rightarrow> pull \<Rightarrow> bool" where
  "room_res r p \<longleftrightarrow> resDepth p + 1 + depth 1 0 (RValue r) \<le> maxRestrictionDepth
     \<and> valDepth p + depth 0 1 (RValue r) \<le> maxTypedValDepth"

lemma steady_room [simp]: "steady (room v)" "steady (room_res r)"
  by (simp_all add: steady_def room_def room_res_def)

lemma mtrip_deeper:
  assumes "mtrip m fl G w rd x" "\<And>p. H p \<Longrightarrow> resDepth p + 1 \<le> maxRestrictionDepth \<and> G (p\<lparr>resDepth := resDepth p + 1\<rparr>)"
  shows "mtrip m fl H w (withResDepth rd) x"
proof (rule mtripI)
  fix q q' assume "pflags q = fl" "w q = Inr q'"
  with assms(1) obtain bs where bs: "m \<le> length bs" "q' = PushRaw q bs" "reads rd (\<lambda>p. rflags p = fl \<and> G p) bs x"
    by (rule mtripE)
  have "reads (withResDepth rd) (\<lambda>p. rflags p = fl \<and> H p) bs x"
  proof (rule readsI, elim conjE)
    fix p rest assume p: "wf_pull p" "rflags p = fl" "H p" "unread p = bs @ rest"
    then have "rd (p\<lparr>resDepth := resDepth p + 1\<rparr>) = Inr (x, adv (length bs) (p\<lparr>resDepth := resDepth p + 1\<rparr>))"
      using assms(2) [of p] by (intro readsD [OF bs(3)]) auto
    then show "withResDepth rd p = Inr (x, adv (length bs) p)"
      using assms(2) [OF p(3)] by (simp add: withResDepth_def Let_def)
  qed
  with bs show "\<exists>bs. m \<le> length bs \<and> q' = PushRaw q bs
      \<and> reads (withResDepth rd) (\<lambda>p. rflags p = fl \<and> H p) bs x" by blast
qed

lemma mtrip_deeper_val:
  assumes "mtrip m fl G w rd x" "\<And>p. H p \<Longrightarrow> valDepth p + 1 \<le> maxTypedValDepth \<and> G (p\<lparr>valDepth := valDepth p + 1\<rparr>)"
  shows "mtrip m fl H w (withValDepth rd) x"
proof (rule mtripI)
  fix q q' assume "pflags q = fl" "w q = Inr q'"
  with assms(1) obtain bs where bs: "m \<le> length bs" "q' = PushRaw q bs" "reads rd (\<lambda>p. rflags p = fl \<and> G p) bs x"
    by (rule mtripE)
  have "reads (withValDepth rd) (\<lambda>p. rflags p = fl \<and> H p) bs x"
  proof (rule readsI, elim conjE)
    fix p rest assume p: "wf_pull p" "rflags p = fl" "H p" "unread p = bs @ rest"
    then have "rd (p\<lparr>valDepth := valDepth p + 1\<rparr>) = Inr (x, adv (length bs) (p\<lparr>valDepth := valDepth p + 1\<rparr>))"
      using assms(2) [of p] by (intro readsD [OF bs(3)]) auto
    then show "withValDepth rd p = Inr (x, adv (length bs) p)"
      using assms(2) [OF p(3)] by (simp add: withValDepth_def Let_def)
  qed
  with bs show "\<exists>bs. m \<le> length bs \<and> q' = PushRaw q bs
      \<and> reads (withValDepth rd) (\<lambda>p. rflags p = fl \<and> H p) bs x" by blast
qed

section \<open>Values without substructure\<close>

definition svr_ok :: "svreid \<Rightarrow> bool" where
  "svr_ok s \<longleftrightarrow> (case Bin s of None \<Rightarrow> True
     | Some b \<Rightarrow> length b + 1 \<le> 0xFFFF \<and> FolderID s = 0 \<and> MessageID s = 0 \<and> Instance s = 0)"

lemma trip_SVREID: "svr_ok s \<Longrightarrow> trip fl G (\<lambda>q. PushSVREID q s) PullSVREID s"
proof (cases "Bin s")
  case None
  then show ?thesis
    by (cases s) (auto simp: PushSVREID_def PullSVREID_def push_eqs reads_def reader_eqs intro!: trip_reads)
next
  case (Some b)
  assume ok: "svr_ok s"
  have n: "uint (of_nat (length b + 1) :: u16) = int (length b) + 1"
    using ok Some by (subst uint_of_nat_small) (simp_all add: svr_ok_def)
  then have "(0 :: u16) < of_nat (length b + 1)" by (simp add: word_less_def del: of_nat_add)
  then show ?thesis using ok Some n
    by (cases s) (auto simp: svr_ok_def PushSVREID_def PullSVREID_def push_eqs reads_def reader_eqs simp del: of_nat_add of_nat_Suc intro!: trip_reads)
qed

definition leaf_ok :: "u32 \<Rightarrow> prop_type \<Rightarrow> any \<Rightarrow> bool" where
  "leaf_ok fl t v \<longleftrightarrow>
     (if t = PtNull \<or> (t = PtObject \<and> has_flag fl FlagABK) then v = ANil
      else
        (case v of
           AString s \<Rightarrow> if t = PtString8 then str_ok fl s else uni_ok fl s
         | AGuid g \<Rightarrow> guid_wf g
         | ABytes b \<Rightarrow> bin_ok fl b
         | ASvrEID s \<Rightarrow> svr_ok s
         | AInt16s xs \<Rightarrow> length xs < 2 ^ 32
         | AInt32s xs \<Rightarrow> length xs < 2 ^ 32
         | AInt64s xs \<Rightarrow> length xs < 2 ^ 32
         | AUint64s xs \<Rightarrow> length xs < 2 ^ 32
         | AFloat32s xs \<Rightarrow> length xs < 2 ^ 32
         | AFloat64s xs \<Rightarrow> length xs < 2 ^ 32
         | AStrings xs \<Rightarrow> length xs < 2 ^ 32 \<and> list_all (if t = PtMvString8 then str_ok fl else uni_ok fl) xs
         | AGuids xs \<Rightarrow> length xs < 2 ^ 32 \<and> list_all guid_wf xs
         | ABytess xs \<Rightarrow> length xs < 2 ^ 32 \<and> list_all (bin_ok fl) xs
         | _ \<Rightarrow> True))"

lemma mtrip_field: "trip fl G w rd x \<Longrightarrow> mtrip 0 fl G w (pullAs mk rd) (mk x)"
  by (rule mtrip_pullAs [OF mtrip_trip]) simp_all

lemmas leaf_trips = mtrip_field [OF c16.field [OF TrueI TrueI]] mtrip_field [OF c32.field [OF TrueI TrueI]]
  mtrip_field [OF c64.field [OF TrueI TrueI]] mtrip_field [OF cbool.field [OF TrueI TrueI]]
  mtrip_field [OF cguid.field [OF _ TrueI]] mtrip_field [OF cstr8.field [OF _ TrueI]]
  mtrip_field [OF cuni.field [OF _ TrueI]] mtrip_field [OF cbin.field [OF _ TrueI]] mtrip_field [OF trip_SVREID]
  mtrip_field [OF c16.field_array32 [OF _ _ TrueI]] mtrip_field [OF c32.field_array32 [OF _ _ TrueI]]
  mtrip_field [OF c64.field_array32 [OF _ _ TrueI]]
  mtrip_field [OF cguid.field_array32 [OF _ _ TrueI]] mtrip_field [OF cstr8.field_array32 [OF _ _ TrueI]]
  mtrip_field [OF cuni.field_array32 [OF _ _ TrueI]] mtrip_field [OF cbin.field_array32 [OF _ _ TrueI]]

text \<open>One entry of the writer table against the entry of the reader table.\<close>

lemma leaf_entries:
  "mtrip 0 fl G (\<lambda>q. case v of AInt16 x \<Rightarrow> Inr (PushUint16 q x) | _ \<Rightarrow> Inl ErrFormat) (pullAs AInt16 PullUint16) v"
  "mtrip 0 fl G (\<lambda>q. case v of AInt32 x \<Rightarrow> Inr (PushUint32 q x) | _ \<Rightarrow> Inl ErrFormat) (pullAs AInt32 PullUint32) v"
  "mtrip 0 fl G (\<lambda>q. case v of AUint32 x \<Rightarrow> Inr (PushUint32 q x) | _ \<Rightarrow> Inl ErrFormat) (pullAs AUint32 PullUint32) v"
  "mtrip 0 fl G (\<lambda>q. case v of AFloat32 x \<Rightarrow> Inr (PushUint32 q x) | _ \<Rightarrow> Inl ErrFormat) (pullAs AFloat32 PullUint32) v"
  "mtrip 0 fl G (\<lambda>q. case v of AFloat64 x \<Rightarrow> Inr (PushUint64 q x) | _ \<Rightarrow> Inl ErrFormat) (pullAs AFloat64 PullUint64) v"
  "mtrip 0 fl G (\<lambda>q. case v of AInt64 x \<Rightarrow> Inr (PushUint64 q x) | _ \<Rightarrow> Inl ErrFormat) (pullAs AInt64 PullUint64) v"
  "mtrip 0 fl G (\<lambda>q. case v of AUint64 x \<Rightarrow> Inr (PushUint64 q x) | _ \<Rightarrow> Inl ErrFormat) (pullAs AUint64 PullUint64) v"
  "mtrip 0 fl G (\<lambda>q. case v of ABool x \<Rightarrow> Inr (PushBool q x) | _ \<Rightarrow> Inl ErrFormat) (pullAs ABool PullBool) v"
  by (cases v; simp add: mtrip_fail leaf_trips)+

lemma leaf_entries_checked:
  "(\<And>x. v = AString x \<Longrightarrow> str_ok fl x) \<Longrightarrow>
     mtrip 0 fl G (\<lambda>q. case v of AString x \<Rightarrow> Inr (PushString8 q x) | _ \<Rightarrow> Inl ErrFormat) (pullAs AString PullString8) v"
  "(\<And>x. v = AString x \<Longrightarrow> uni_ok fl x) \<Longrightarrow>
     mtrip 0 fl G (\<lambda>q. case v of AString x \<Rightarrow> Inr (PushUnicode q x) | _ \<Rightarrow> Inl ErrFormat) (pullAs AString PullUnicode) v"
  "(\<And>x. v = AGuid x \<Longrightarrow> guid_wf x) \<Longrightarrow>
     mtrip 0 fl G (\<lambda>q. case v of AGuid x \<Rightarrow> Inr (PushGUID q x) | _ \<Rightarrow> Inl ErrFormat) (pullAs AGuid PullGUID) v"
  "(\<And>x. v = ABytes x \<Longrightarrow> bin_ok fl x) \<Longrightarrow>
     mtrip 0 fl G (\<lambda>q. case v of ABytes x \<Rightarrow> PushBin q x | _ \<Rightarrow> Inl ErrFormat) (pullAs ABytes PullBin) v"
  "(\<And>x. v = ASvrEID x \<Longrightarrow> svr_ok x) \<Longrightarrow>
     mtrip 0 fl G (\<lambda>q. case v of ASvrEID x \<Rightarrow> PushSVREID q x | _ \<Rightarrow> Inl ErrFormat) (pullAs ASvrEID PullSVREID) v"
  by (cases v; simp add: mtrip_fail leaf_trips)+

lemma leaf_arrays:
  "(\<And>x. v = AInt16s x \<Longrightarrow> length x < 2 ^ 32) \<Longrightarrow>
     mtrip 0 fl G (\<lambda>q. case v of AInt16s x \<Rightarrow> pushArr32 (\<lambda>q x. Inr (PushUint16 q x)) q x | _ \<Rightarrow> Inl ErrFormat) (pullAs AInt16s (pullArr32 PullUint16)) v"
  "(\<And>x. v = AInt32s x \<Longrightarrow> length x < 2 ^ 32) \<Longrightarrow>
     mtrip 0 fl G (\<lambda>q. case v of AInt32s x \<Rightarrow> pushArr32 (\<lambda>q x. Inr (PushUint32 q x)) q x | _ \<Rightarrow> Inl ErrFormat) (pullAs AInt32s (pullArr32 PullUint32)) v"
  "(\<And>x. v = AInt64s x \<Longrightarrow> length x < 2 ^ 32) \<Longrightarrow>
     mtrip 0 fl G (\<lambda>q. case v of AInt64s x \<Rightarrow> pushArr32 (\<lambda>q x. Inr (PushUint64 q x)) q x | _ \<Rightarrow> Inl ErrFormat) (pullAs AInt64s (pullArr32 PullUint64)) v"
  "(\<And>x. v = AUint64s x \<Longrightarrow> length x < 2 ^ 32) \<Longrightarrow>
     mtrip 0 fl G (\<lambda>q. case v of AUint64s x \<Rightarrow> pushArr32 (\<lambda>q x. Inr (PushUint64 q x)) q x | _ \<Rightarrow> Inl ErrFormat) (pullAs AUint64s (pullArr32 PullUint64)) v"
  "(\<And>x. v = AFloat32s x \<Longrightarrow> length x < 2 ^ 32) \<Longrightarrow>
     mtrip 0 fl G (\<lambda>q. case v of AFloat32s x \<Rightarrow> pushArr32 (\<lambda>q x. Inr (PushUint32 q x)) q x | _ \<Rightarrow> Inl ErrFormat) (pullAs AFloat32s (pullArr32 PullUint32)) v"
  "(\<And>x. v = AFloat64s x \<Longrightarrow> length x < 2 ^ 32) \<Longrightarrow>
     mtrip 0 fl G (\<lambda>q. case v of AFloat64s x \<Rightarrow> pushArr32 (\<lambda>q x. Inr (PushUint64 q x)) q x | _ \<Rightarrow> Inl ErrFormat) (pullAs AFloat64s (pullArr32 PullUint64)) v"
  "(\<And>x. v = AStrings x \<Longrightarrow> length x < 2 ^ 32 \<and> list_all (str_ok fl) x) \<Longrightarrow>
     mtrip 0 fl G (\<lambda>q. case v of AStrings x \<Rightarrow> pushArr32 (\<lambda>q x. Inr (PushString8 q x)) q x | _ \<Rightarrow> Inl ErrFormat) (pullAs AStrings (pullArr32 PullString8)) v"
  "(\<And>x. v = AStrings x \<Longrightarrow> length x < 2 ^ 32 \<and> list_all (uni_ok fl) x) \<Longrightarrow>
     mtrip 0 fl G (\<lambda>q. case v of AStrings x \<Rightarrow> pushArr32 (\<lambda>q x. Inr (PushUnicode q x)) q x | _ \<Rightarrow> Inl ErrFormat) (pullAs AStrings (pullArr32 PullUnicode)) v"
  "(\<And>x. v = AGuids x \<Longrightarrow> length x < 2 ^ 32 \<and> list_all guid_wf x) \<Longrightarrow>
     mtrip 0 fl G (\<lambda>q. case v of AGuids x \<Rightarrow> pushArr32 (\<lambda>q x. Inr (PushGUID q x)) q x | _ \<Rightarrow> Inl ErrFormat) (pullAs AGuids (pullArr32 PullGUID)) v"
  "(\<And>x. v = ABytess x \<Longrightarrow> length x < 2 ^ 32 \<and> list_all (bin_ok fl) x) \<Longrightarrow>
     mtrip 0 fl G (\<lambda>q. case v of ABytess x \<Rightarrow> pushArr32 PushBin q x | _ \<Rightarrow> Inl ErrFormat) (pullAs ABytess (pullArr32 PullBin)) v"
  by (cases v; simp add: mtrip_fail leaf_trips list_all_length)+

lemma mtrip_flag_else:
  "\<not> has_flag fl f \<Longrightarrow> mtrip m fl G w rd x \<Longrightarrow>
     mtrip m fl G (\<lambda>q. if has_flag (pflags q) f then a q else w q) (\<lambda>p. if has_flag (rflags p) f then b p else rd p) x"
  by (simp add: mtrip_def reads_def)

lemma leaf_ok_parts:
  assumes "leaf_ok fl t v" "\<not> (t = PtNull \<or> (t = PtObject \<and> has_flag fl FlagABK))"
  shows "v = AString s \<Longrightarrow> if t = PtString8 then str_ok fl s else uni_ok fl s"
    "v = AGuid g \<Longrightarrow> guid_wf g" "v = ABytes b \<Longrightarrow> bin_ok fl b" "v = ASvrEID e \<Longrightarrow> svr_ok e"
    "v = AInt16s i2 \<Longrightarrow> length i2 < 2 ^ 32" "v = AInt32s i4 \<Longrightarrow> length i4 < 2 ^ 32" "v = AInt64s i8 \<Longrightarrow> length i8 < 2 ^ 32"
    "v = AUint64s i8 \<Longrightarrow> length i8 < 2 ^ 32" "v = AFloat32s i4 \<Longrightarrow> length i4 < 2 ^ 32" "v = AFloat64s i8 \<Longrightarrow> length i8 < 2 ^ 32"
    "v = AStrings ss \<Longrightarrow> length ss < 2 ^ 32 \<and> list_all (if t = PtMvString8 then str_ok fl else uni_ok fl) ss"
    "v = AGuids gs \<Longrightarrow> length gs < 2 ^ 32 \<and> list_all guid_wf gs"
    "v = ABytess bs \<Longrightarrow> length bs < 2 ^ 32 \<and> list_all (bin_ok fl) bs"
  using assms by (simp_all add: leaf_ok_def)

lemma leaf_mtrip:
  assumes "propWriters t = Some wr" "leaf_ok fl t v"
  shows "\<exists>rd. propReaders t = Some rd \<and> mtrip 0 fl G (\<lambda>q. wr q v) rd v"
proof (cases "t = PtNull \<or> (t = PtObject \<and> has_flag fl FlagABK)")
  case True
  then have v: "v = ANil" using assms(2) by (simp add: leaf_ok_def)
  show ?thesis
  proof (cases "t = PtNull")
    case False
    with True have "\<exists>rd. propReaders t = Some rd \<and> (\<forall>p. rflags p = fl \<longrightarrow> rd p = Inr (ANil, p))"
      "\<And>q. pflags q = fl \<Longrightarrow> wr q v = Inr q"
      using assms(1) by (auto simp: propReaders_def propWriters_def)
    then show ?thesis using v
      by (auto simp: mtrip_def reads_def intro!: exI [of _ "[]"])
  qed (use assms(1) v in \<open>auto simp: propReaders_def propWriters_def intro: mtrip_return\<close>)
next
  case False
  note parts = leaf_ok_parts [OF assms(2) False]
  have "t \<in> {PtSvrEID, PtShort, PtLong, PtError, PtFloat, PtDouble, PtAppTime, PtCurrency, PtI8, PtSysTime, PtBoolean,
      PtString8, PtUnicode, PtCLSID, PtBinary, PtObject} \<union> {PtMvShort, PtMvLong, PtMvCurrency, PtMvI8, PtMvDouble,
      PtMvAppTime, PtMvSysTime, PtMvFloat, PtMvString8, PtMvUnicode, PtMvCLSID, PtMvBinary}"
    using assms(1) False unfolding propWriters_def by (auto split: if_splits)
  then have "case propWriters t of None \<Rightarrow> True | Some wr \<Rightarrow>
      (case propReaders t of None \<Rightarrow> False | Some rd \<Rightarrow> mtrip 0 fl G (\<lambda>q. wr q v) rd v)"
    unfolding Un_iff
  proof (elim disjE, goal_cases)
    case 1
    then show ?case using False parts(1-4)
      by (elim insertE emptyE; simp add: propWriters_def propReaders_def PushFloat32_def PushFloat64_def
        PullFloat32_def [abs_def] PullFloat64_def [abs_def] leaf_entries leaf_entries_checked mtrip_flag_else)
  next
    case 2
    then show ?case using False parts(5-13)
      by (elim insertE emptyE; simp add: propWriters_def propReaders_def PushFloat32_def PushFloat64_def
        PullFloat32_def [abs_def] PullFloat64_def [abs_def] leaf_arrays)
  qed
  then show ?thesis using assms(1) by (simp split: option.splits)
qed

end
