(* ===== verification/Ext_Wire.thy ===== *)
theory Ext_Wire
  imports Ext_Trip
begin

text \<open>
  The round trip of property values, restrictions and rule actions (\<^verbatim>\<open>propval.go\<close>, \<^verbatim>\<open>typedval.go\<close>,
  \<^verbatim>\<open>restriction.go\<close>, \<^verbatim>\<open>action.go\<close>): by induction on the value, over the field lemmas of \<^verbatim>\<open>Ext_Trip\<close>.
\<close>

unbundle bit_operations_syntax

section \<open>Admissible values\<close>

text \<open>
  What reading back needs beyond a successful write: strings that survive their encoding, counts that
  fit their field, no data where the format has none.
\<close>

definition effective :: "u32 \<Rightarrow> prop_type \<Rightarrow> prop_type" where
  "effective fl t = (if \<not> (has_flag fl FlagABK \<and> abkGated t) \<and> t AND MviFlag = MviFlag then t AND NOT MviFlag else t)"

function value_ok :: "u32 \<Rightarrow> prop_type \<Rightarrow> any \<Rightarrow> bool"
  and res_ok :: "u32 \<Rightarrow> u8 \<Rightarrow> any \<Rightarrow> bool"
  and act_ok :: "u32 \<Rightarrow> u8 \<Rightarrow> any \<Rightarrow> bool" where
  "value_ok fl t v \<longleftrightarrow>
     (has_flag fl FlagABK \<and> abkGated t \<and> v = ANil) \<or>
     (if effective fl t = PtUnspecified then (case v of ATyped t' v' \<Rightarrow> value_ok fl t' v' | _ \<Rightarrow> True)
      else if effective fl t = PtRestriction then (case v of ARestriction r \<Rightarrow> res_ok fl (RType r) (RValue r) | _ \<Rightarrow> True)
      else if effective fl t = PtActions
      then (case v of ARuleActions bs \<Rightarrow> list_all (\<lambda>a. act_ok fl (AType a) (AData a)) bs | _ \<Rightarrow> True)
      else leaf_ok fl (effective fl t) v)"
| "res_ok fl rt v \<longleftrightarrow>
     (if rt = ResNull then v = ANil
      else
        (case v of
           ARestriction r \<Rightarrow> res_ok fl (RType r) (RValue r)
         | ARestrictions rs \<Rightarrow> length rs < 2 ^ 32 \<and> list_all (\<lambda>r. res_ok fl (RType r) (RValue r)) rs
         | AContent fuzzy tag tp \<Rightarrow> value_ok fl (TagType (Tag tp)) (TValue tp)
         | AProperty relop tag tp \<Rightarrow> value_ok fl (TagType (Tag tp)) (TValue tp)
         | ASub so r \<Rightarrow> res_ok fl (RType r) (RValue r)
         | ACount c r \<Rightarrow> res_ok fl (RType r) (RValue r)
         | AComment pvs res \<Rightarrow> list_all (\<lambda>tp. value_ok fl (TagType (Tag tp)) (TValue tp)) pvs
             \<and> (case res of None \<Rightarrow> True | Some r \<Rightarrow> res_ok fl (RType r) (RValue r))
         | _ \<Rightarrow> True))"
| "act_ok fl ty v \<longleftrightarrow>
     (if ty = OpDelete \<or> ty = OpMarkAsRead then v = ANil
      else
        (case v of
           AMoveCopy same store folder \<Rightarrow>
             (if same then store = None \<and> (case folder of ASvrEID s \<Rightarrow> svr_ok s | _ \<Rightarrow> True)
              else (case store of None \<Rightarrow> True | Some e \<Rightarrow> seid_ok fl e)
                \<and> (case folder of ABytes b \<Rightarrow> bin_ok fl b | _ \<Rightarrow> True))
         | AReply r \<Rightarrow> guid_wf (TemplateGUID r)
         | ATagged tp \<Rightarrow> value_ok fl (TagType (Tag tp)) (TValue tp)
         | AForward rs \<Rightarrow> list_all (\<lambda>rb. list_all (\<lambda>tp. value_ok fl (TagType (Tag tp)) (TValue tp)) (PropVals rb)) rs
         | _ \<Rightarrow> True))"
  by pat_completeness auto

termination
  by (relation "measure (case_sum (\<lambda>(fl, t, v). size v) (case_sum (\<lambda>(fl, t, v). size v) (\<lambda>(fl, t, v). size v)))")
    (auto dest!: part_smaller)

declare value_ok.simps [simp del] res_ok.simps [simp del] act_ok.simps [simp del]

section \<open>Structures over the values they hold\<close>

lemma mtrip_words:
  assumes "steady G"
  shows "mtrip m fl G w (f b) y \<Longrightarrow> mtrip (1 + m) fl G (\<lambda>q. w (PushUint8 q b)) (\<lambda>p. bindr (PullUint8 p) (case_prod f)) y"
    "mtrip m fl G w (g h) y \<Longrightarrow> mtrip (2 + m) fl G (\<lambda>q. w (PushUint16 q h)) (\<lambda>p. bindr (PullUint16 p) (case_prod g)) y"
    "mtrip m fl G w (k d) y \<Longrightarrow> mtrip (4 + m) fl G (\<lambda>q. w (PushUint32 q d)) (\<lambda>p. bindr (PullUint32 p) (case_prod k)) y"
proof -
  have 1: "mtrip 1 fl G (\<lambda>q. Inr (PushUint8 q b)) PullUint8 b"
    by (auto simp: mtrip_def push_eqs reads_def reader_eqs intro!: exI [of _ "[b]"])
  have 2: "mtrip 2 fl G (\<lambda>q. Inr (PushUint16 q h)) PullUint16 h"
    by (auto simp: mtrip_def push_eqs reads_def reader_eqs intro!: exI [of _ "le_bytes 2 h"])
  have 3: "mtrip 4 fl G (\<lambda>q. Inr (PushUint32 q d)) PullUint32 d"
    by (auto simp: mtrip_def push_eqs reads_def reader_eqs intro!: exI [of _ "le_bytes 4 d"])
  show "mtrip (1 + m) fl G (\<lambda>q. w (PushUint8 q b)) (\<lambda>p. bindr (PullUint8 p) (case_prod f)) y" if "mtrip m fl G w (f b) y"
    using mtrip_bind [of 1 fl G _ _ _ m w f, OF 1 that assms] by simp
  show "mtrip (2 + m) fl G (\<lambda>q. w (PushUint16 q h)) (\<lambda>p. bindr (PullUint16 p) (case_prod g)) y" if "mtrip m fl G w (g h) y"
    using mtrip_bind [of 2 fl G _ _ _ m w g, OF 2 that assms] by simp
  show "mtrip (4 + m) fl G (\<lambda>q. w (PushUint32 q d)) (\<lambda>p. bindr (PullUint32 p) (case_prod k)) y" if "mtrip m fl G w (k d) y"
    using mtrip_bind [of 4 fl G _ _ _ m w k, OF 3 that assms] by simp
qed

definition value_trips :: "any \<Rightarrow> bool" where
  "value_trips v \<longleftrightarrow> (\<forall>fl t. value_ok fl t v \<longrightarrow> mtrip 0 fl (room v) (\<lambda>q. PushPropValue q t v) (PullPropValue t) v)"

definition readResValue :: "u8 \<Rightarrow> any reader" where
  "readResValue rt p = (case restrictionReaders PullPropValue PullRestriction rt of None \<Rightarrow> Inl ErrFormat | Some rd \<Rightarrow> rd p)"

definition res_trips :: "any \<Rightarrow> bool" where
  "res_trips v \<longleftrightarrow> (\<forall>fl rt. res_ok fl rt v \<longrightarrow> mtrip 0 fl (room v) (\<lambda>q. pushResValue q rt v) (readResValue rt) v)"

lemma tagged_trip:
  assumes "value_trips (TValue tp)" "value_ok fl (TagType (Tag tp)) (TValue tp)"
  shows "mtrip 4 fl (room (TValue tp)) (\<lambda>q. PushTaggedPropVal q tp) PullTaggedPropVal tp"
proof -
  have "mtrip 0 fl (room (TValue tp)) (\<lambda>q. PushPropValue q (TagType (Tag tp)) (TValue tp)) (PullPropValue (TagType (Tag tp))) (TValue tp)"
    using assms by (simp add: value_trips_def)
  then have "mtrip (4 + 0) fl (room (TValue tp)) (\<lambda>q. PushPropValue (PushUint32 q (Tag tp)) (TagType (Tag tp)) (TValue tp))
      (\<lambda>p. bindr (PullUint32 p) (\<lambda>(tag, p). bindr (PullPropValue (TagType tag) p) (\<lambda>(v, p). Inr (TaggedPropVal tag v, p)))) tp"
    by (intro mtrip_words(3) mtrip_fin [where x = "TValue tp"]) simp_all
  then show ?thesis
    by (simp add: PushTaggedPropVal.simps PullTaggedPropVal_def pullTaggedPropVal_def [abs_def])
qed

lemma restriction_trip:
  assumes "res_trips (RValue r)" "res_ok fl (RType r) (RValue r)"
  shows "mtrip 1 fl (room_res r) (\<lambda>q. PushRestriction q r) PullRestriction r"
proof -
  have "mtrip 0 fl (room (RValue r)) (\<lambda>q. pushResValue q (RType r) (RValue r)) (readResValue (RType r)) (RValue r)"
    using assms by (simp add: res_trips_def)
  then have "mtrip (1 + 0) fl (room (RValue r)) (\<lambda>q. pushResValue (PushUint8 q (RType r)) (RType r) (RValue r))
      (\<lambda>p. bindr (PullUint8 p) (\<lambda>(rt, p). bindr (readResValue rt p) (\<lambda>(v, p). Inr (Restriction rt v, p)))) r"
    by (intro mtrip_words(1) mtrip_fin [where x = "RValue r"]) simp_all
  then have "mtrip 1 fl (room_res r) (\<lambda>q. PushRestriction q r)
      (withResDepth (\<lambda>p. bindr (PullUint8 p) (\<lambda>(rt, p). bindr (readResValue rt p) (\<lambda>(v, p). Inr (Restriction rt v, p))))) r"
    unfolding PushRestriction.simps add_0_right by (rule mtrip_deeper) (auto simp: room_def room_res_def)
  moreover have "withResDepth (\<lambda>p. bindr (PullUint8 p) (\<lambda>(rt, p). bindr (readResValue rt p) (\<lambda>(v, p). Inr (Restriction rt v, p))))
      = pullRestriction PullPropValue PullRestriction"
    unfolding pullRestriction_def readResValue_def
    by (intro arg_cong [where f = withResDepth] ext) (auto simp: bindr_def split: sum.splits option.splits)
  ultimately show ?thesis by (auto intro: mtrip_cong_reader simp: Pull_eqs(3))
qed

subsection \<open>Restrictions\<close>

lemma room_parts:
  "room (ARestriction r) p \<Longrightarrow> room_res r p"
  "r \<in> set rs \<Longrightarrow> room (ARestrictions rs) p \<Longrightarrow> room_res r p"
  "room (ASub so r) p \<Longrightarrow> room_res r p"
  "room (ACount c r) p \<Longrightarrow> room_res r p"
  "room (AComment pvs (Some r)) p \<Longrightarrow> room_res r p"
  "tp \<in> set pvs \<Longrightarrow> room (AComment pvs res) p \<Longrightarrow> room (TValue tp) p"
  "b \<in> set bs \<Longrightarrow> room (ARuleActions bs) p \<Longrightarrow> room (AData b) p"
  "rb \<in> set rbs \<Longrightarrow> tp \<in> set (PropVals rb) \<Longrightarrow> room (AForward rbs) p \<Longrightarrow> room (TValue tp) p"
proof -
  have m: "x \<in> set xs \<Longrightarrow> f x \<le> maxs (map f xs)" for f :: "'x \<Rightarrow> nat" and x xs
    by (rule maxs_ge) simp
  show "room (ARestriction r) p \<Longrightarrow> room_res r p" "room (ASub so r) p \<Longrightarrow> room_res r p"
    "room (ACount c r) p \<Longrightarrow> room_res r p" "room (AComment pvs (Some r)) p \<Longrightarrow> room_res r p"
    by (auto simp: room_def room_res_def)
  show "r \<in> set rs \<Longrightarrow> room (ARestrictions rs) p \<Longrightarrow> room_res r p"
    using m [of r rs "\<lambda>r. 1 + depth 1 0 (RValue r)"] m [of r rs "\<lambda>r. 0 + depth 0 1 (RValue r)"]
    by (simp add: room_def room_res_def)
  show "tp \<in> set pvs \<Longrightarrow> room (AComment pvs res) p \<Longrightarrow> room (TValue tp) p"
    using m [of tp pvs "\<lambda>tp. depth 1 0 (TValue tp)"] m [of tp pvs "\<lambda>tp. depth 0 1 (TValue tp)"]
    by (auto simp: room_def)
  show "b \<in> set bs \<Longrightarrow> room (ARuleActions bs) p \<Longrightarrow> room (AData b) p"
    using m [of b bs "\<lambda>b. depth 1 0 (AData b)"] m [of b bs "\<lambda>b. depth 0 1 (AData b)"]
    by (simp add: room_def)
  show "rb \<in> set rbs \<Longrightarrow> tp \<in> set (PropVals rb) \<Longrightarrow> room (AForward rbs) p \<Longrightarrow> room (TValue tp) p"
    using m [of rb rbs "\<lambda>rb. maxs (map (\<lambda>tp. depth 1 0 (TValue tp)) (PropVals rb))"]
      m [of rb rbs "\<lambda>rb. maxs (map (\<lambda>tp. depth 0 1 (TValue tp)) (PropVals rb))"]
      m [of tp "PropVals rb" "\<lambda>tp. depth 1 0 (TValue tp)"] m [of tp "PropVals rb" "\<lambda>tp. depth 0 1 (TValue tp)"]
    by (simp add: room_def)
qed

lemma trip_pullResCount:
  assumes "n < 2 ^ 32"
  shows "mtrip 0 fl G (\<lambda>q. pushResCount q n) pullResCount (of_nat n)"
proof (cases "has_flag fl FlagWCount")
  case True
  then show ?thesis using mtrip_trip [OF c32.field [OF TrueI TrueI], of fl G "of_nat n"]
    by (simp add: mtrip_def pushResCount_def pullResCount_def reads_def)
next
  case False
  have "mtrip 0 fl G (\<lambda>q. Inr (PushUint16 q (of_nat n))) (\<lambda>p. bindr (PullUint16 p) (\<lambda>(v, p). Inr (ucast v, p))) (of_nat n :: u32)"
    if "n \<le> 0xFFFF"
  proof -
    have "ucast (of_nat n :: u16) = (of_nat n :: u32)" using that by (simp add: unsigned_of_nat take_bit_nat_eq_self)
    then show ?thesis by (intro mtrip_fin [OF mtrip_trip [OF c16.field [OF TrueI TrueI]]]) simp
  qed
  then show ?thesis using False by (cases "n \<le> 0xFFFF") (auto simp: mtrip_def pushResCount_def pullResCount_def reads_def)
qed

lemma children_trip:
  assumes "\<And>r. r \<in> set rs \<Longrightarrow> res_trips (RValue r)" "\<And>r. r \<in> set rs \<Longrightarrow> res_ok fl (RType r) (RValue r)" "length rs < 2 ^ 32"
  shows "mtrip 0 fl (room (ARestrictions rs)) (\<lambda>q. bindr (pushResCount q (length rs)) (\<lambda>q. pushEach (\<lambda>q k. PushRestriction q k) q rs))
    (pullResChildren PullRestriction) (ARestrictions rs)"
proof -
  let ?G = "room (ARestrictions rs)"
  have each: "mtrip (length rs) fl ?G (\<lambda>q. pushEach (\<lambda>q k. PushRestriction q k) q rs) (pullN (length rs) PullRestriction) rs"
    by (rule mtrip_each) (auto intro!: mtrip_mono [OF restriction_trip] assms dest: room_parts)
  let ?f = "\<lambda>n p. bindr (checkCount p n) (\<lambda>_. bindr (pullN (unat n) PullRestriction p) (\<lambda>(kids, p). Inr (ARestrictions kids, p)))"
  have "mtrip (length rs) fl ?G (\<lambda>q. pushEach (\<lambda>q k. PushRestriction q k) q rs) (?f (of_nat (length rs))) (ARestrictions rs)"
    using each assms(3) by (intro mtrip_checked mtrip_fin [where x = rs]) simp_all
  from mtrip_bind [of 0 fl ?G _ _ _ _ _ ?f, OF trip_pullResCount [OF assms(3)] this steady_room(1)]
  show ?thesis unfolding pullResChildren_def [abs_def] by (rule mtrip_mono) simp_all
qed

lemma tagged_list_trip:
  assumes "\<And>tp. tp \<in> set pvs \<Longrightarrow> value_trips (TValue tp)" "list_all (\<lambda>tp. value_ok fl (TagType (Tag tp)) (TValue tp)) pvs"
    "\<And>tp p. tp \<in> set pvs \<Longrightarrow> G p \<Longrightarrow> room (TValue tp) p" "steady G"
  shows "mtrip (length pvs) fl G (\<lambda>q. pushEach (\<lambda>q tp. PushTaggedPropVal q tp) q pvs) (pullN (length pvs) PullTaggedPropVal) pvs"
  using assms(2) by (intro mtrip_each mtrip_mono [OF tagged_trip] assms) (auto simp: list_all_iff intro: assms(3))

lemma comment_trip:
  assumes "\<And>tp. tp \<in> set pvs \<Longrightarrow> value_trips (TValue tp)" "\<And>r. res = Some r \<Longrightarrow> res_trips (RValue r)"
    "list_all (\<lambda>tp. value_ok fl (TagType (Tag tp)) (TValue tp)) pvs" "case res of None \<Rightarrow> True | Some r \<Rightarrow> res_ok fl (RType r) (RValue r)"
    "length pvs \<noteq> 0" "length pvs \<le> 0xFF"
  shows "mtrip 0 fl (room (AComment pvs res))
    (\<lambda>q. bindr (pushEach (\<lambda>q tp. PushTaggedPropVal q tp) (PushUint8 q (of_nat (length pvs))) pvs) (\<lambda>q.
       case res of None \<Rightarrow> Inr (PushUint8 q 0) | Some r \<Rightarrow> PushRestriction (PushUint8 q 1) r))
    (pullResComment PullPropValue PullRestriction) (AComment pvs res)"
proof -
  let ?G = "room (AComment pvs res)" and ?n = "of_nat (length pvs) :: u8"
  let ?g = "\<lambda>pvs present p. if present = (0 :: u8) then Inr (AComment pvs None, p)
      else bindr (PullRestriction p) (\<lambda>(r, p). Inr (AComment pvs (Some r), p))"
  let ?f = "\<lambda>cnt p. if cnt = (0 :: u8) then Inl ErrFormat
      else bindr (pullN (unat cnt) PullTaggedPropVal p) (\<lambda>(pvs, p). bindr (PullUint8 p) (\<lambda>(present, p). ?g pvs present p))"
  have n: "unat ?n = length pvs" using assms(6) by (intro unat_of_nat_less) simp
  then have n0: "?n \<noteq> 0" using assms(5) by (metis unat_0)
  have tail: "mtrip 0 fl ?G (\<lambda>q. case res of None \<Rightarrow> Inr (PushUint8 q 0) | Some r \<Rightarrow> PushRestriction (PushUint8 q 1) r)
      (\<lambda>p. bindr (PullUint8 p) (\<lambda>(present, p). ?g pvs present p)) (AComment pvs res)"
  proof (cases res)
    case None
    have "mtrip 0 fl ?G (\<lambda>q. Inr (PushUint8 q 0)) (\<lambda>p. bindr (PullUint8 p) (\<lambda>(present, p). ?g pvs present p)) (AComment pvs res)"
      by (rule mtrip_fin [OF mtrip_trip [OF c8.field [OF TrueI TrueI]]]) (simp add: None)
    then show ?thesis by (simp add: None)
  next
    case (Some r)
    have "mtrip 0 fl ?G (\<lambda>q. PushRestriction q r) PullRestriction r"
      using assms(2,4) Some by (intro mtrip_mono [OF restriction_trip]) (auto dest: room_parts)
    then have "mtrip 0 fl ?G (\<lambda>q. PushRestriction q r) (?g pvs 1) (AComment pvs res)"
      by (simp add: Some) (rule mtrip_fin, assumption, simp)
    from mtrip_words(1) [of ?G 0 fl _ "?g pvs" 1, OF _ this] show ?thesis
      by (simp add: Some) (rule mtrip_mono, assumption, simp_all)
  qed
  have "mtrip (length pvs) fl ?G (\<lambda>q. pushEach (\<lambda>q tp. PushTaggedPropVal q tp) q pvs) (pullN (unat ?n) PullTaggedPropVal) pvs"
    unfolding n by (rule tagged_list_trip) (use assms(1,3) in \<open>auto dest: room_parts\<close>)
  from mtrip_bind [of _ _ _ _ _ _ _ _ "\<lambda>pvs p. bindr (PullUint8 p) (\<lambda>(present, p). ?g pvs present p)", OF this tail steady_room(1)]
  have "mtrip (length pvs + 0) fl ?G (\<lambda>q. bindr (pushEach (\<lambda>q tp. PushTaggedPropVal q tp) q pvs) (\<lambda>q.
       case res of None \<Rightarrow> Inr (PushUint8 q 0) | Some r \<Rightarrow> PushRestriction (PushUint8 q 1) r)) (?f ?n) (AComment pvs res)"
    using n0 by simp
  from mtrip_words(1) [of ?G _ fl _ ?f, OF steady_room(1) this]
  show ?thesis unfolding pullResComment_def [abs_def] PullTaggedPropVal_def [symmetric] by (rule mtrip_mono) simp_all
qed

lemma field_value_trip:
  assumes "value_trips (TValue tp)" "value_ok fl (TagType (Tag tp)) (TValue tp)" "\<And>p. G p \<Longrightarrow> room (TValue tp) p" "steady G"
  shows "mtrip 0 fl G (\<lambda>q. PushTaggedPropVal (PushUint32 (PushUint32 q a) tag) tp)
      (\<lambda>p. bindr (PullUint32 p) (\<lambda>(a, p). bindr (PullUint32 p) (\<lambda>(tag, p).
         bindr (PullTaggedPropVal p) (\<lambda>(tp, p). Inr (f a tag tp, p))))) (f a tag tp)"
    "mtrip 0 fl G (\<lambda>q. PushTaggedPropVal (PushUint32 (PushUint8 q b) tag) tp)
      (\<lambda>p. bindr (PullUint8 p) (\<lambda>(b, p). bindr (PullUint32 p) (\<lambda>(tag, p).
         bindr (PullTaggedPropVal p) (\<lambda>(tp, p). Inr (g b tag tp, p))))) (g b tag tp)"
proof -
  have t: "mtrip 0 fl G (\<lambda>q. PushTaggedPropVal q tp) PullTaggedPropVal tp"
    by (rule mtrip_mono [OF tagged_trip [OF assms(1,2)] _ assms(3)]) simp
  show "mtrip 0 fl G (\<lambda>q. PushTaggedPropVal (PushUint32 (PushUint32 q a) tag) tp)
      (\<lambda>p. bindr (PullUint32 p) (\<lambda>(a, p). bindr (PullUint32 p) (\<lambda>(tag, p).
         bindr (PullTaggedPropVal p) (\<lambda>(tp, p). Inr (f a tag tp, p))))) (f a tag tp)"
    by (rule mtrip_after [where w = "\<lambda>q. PushTaggedPropVal (PushUint32 q tag) tp", OF c32.field [OF TrueI TrueI] _ assms(4)],
        rule mtrip_after [where w = "\<lambda>q. PushTaggedPropVal q tp", OF c32.field [OF TrueI TrueI] _ assms(4)],
        rule mtrip_fin [OF t]) simp
  show "mtrip 0 fl G (\<lambda>q. PushTaggedPropVal (PushUint32 (PushUint8 q b) tag) tp)
      (\<lambda>p. bindr (PullUint8 p) (\<lambda>(b, p). bindr (PullUint32 p) (\<lambda>(tag, p).
         bindr (PullTaggedPropVal p) (\<lambda>(tp, p). Inr (g b tag tp, p))))) (g b tag tp)"
    by (rule mtrip_after [where w = "\<lambda>q. PushTaggedPropVal (PushUint32 q tag) tp", OF c8.field [OF TrueI TrueI] _ assms(4)],
        rule mtrip_after [where w = "\<lambda>q. PushTaggedPropVal q tp", OF c32.field [OF TrueI TrueI] _ assms(4)],
        rule mtrip_fin [OF t]) simp
qed

lemma field_res_trip:
  assumes "res_trips (RValue r)" "res_ok fl (RType r) (RValue r)" "\<And>p. G p \<Longrightarrow> room_res r p" "steady G"
  shows "mtrip 0 fl G (\<lambda>q. PushRestriction (PushUint32 q a) r)
      (\<lambda>p. bindr (PullUint32 p) (\<lambda>(a, p). bindr (PullRestriction p) (\<lambda>(r, p). Inr (f a r, p)))) (f a r)"
    "mtrip 0 fl G (\<lambda>q. PushRestriction q r) (pullAs g PullRestriction) (g r)"
proof -
  have t: "mtrip 0 fl G (\<lambda>q. PushRestriction q r) PullRestriction r"
    by (rule mtrip_mono [OF restriction_trip [OF assms(1,2)] _ assms(3)]) simp
  show "mtrip 0 fl G (\<lambda>q. PushRestriction (PushUint32 q a) r)
      (\<lambda>p. bindr (PullUint32 p) (\<lambda>(a, p). bindr (PullRestriction p) (\<lambda>(r, p). Inr (f a r, p)))) (f a r)"
    by (rule mtrip_after [where w = "\<lambda>q. PushRestriction q r", OF c32.field [OF TrueI TrueI] _ assms(4)], rule mtrip_fin [OF t]) simp
  show "mtrip 0 fl G (\<lambda>q. PushRestriction q r) (pullAs g PullRestriction) (g r)"
    by (rule mtrip_pullAs [OF t refl])
qed

lemma flat_nodes_trip:
  "mtrip 0 fl G (\<lambda>q. Inr (PushUint32 (PushUint32 (PushUint8 q b) x) y)) pullResPropCompare (ACompareProps b x y)"
  "mtrip 0 fl G (\<lambda>q. Inr (PushUint32 (PushUint32 (PushUint8 q b) x) y)) (pullAs (\<lambda>(relop, tag, m). ABitmask relop tag m) pullResRelopTagValue) (ABitmask b x y)"
  "mtrip 0 fl G (\<lambda>q. Inr (PushUint32 (PushUint32 (PushUint8 q b) x) y)) (pullAs (\<lambda>(relop, tag, sz). ASize relop tag sz) pullResRelopTagValue) (ASize b x y)"
  "mtrip 0 fl G (\<lambda>q. Inr (PushUint32 q x)) (pullAs AExist PullUint32) (AExist x)"
  by (auto simp: mtrip_def push_eqs reads_def reader_eqs pullResPropCompare_def pullResRelopTagValue_def pullAs_def)

lemma room_whole:
  "room (AContent fuzzy tag tp) p \<Longrightarrow> room (TValue tp) p" "room (AProperty relop tag tp) p \<Longrightarrow> room (TValue tp) p"
  "room (ATagged tp) p \<Longrightarrow> room (TValue tp) p"
  by (simp_all add: room_def)

lemma sub_sizes:
  "r \<in> set rs \<Longrightarrow> size (RValue r) < size (ARestrictions rs)"
  "tp \<in> set pvs \<Longrightarrow> size (TValue tp) < size (AComment pvs res)"
  "b \<in> set bs \<Longrightarrow> size (AData b) < size (ARuleActions bs)"
  "rb \<in> set rbs \<Longrightarrow> tp \<in> set (PropVals rb) \<Longrightarrow> size (TValue tp) < size (AForward rbs)"
  by (auto dest!: part_smaller)

lemmas node_simps = pushResValue.simps readResValue_def [abs_def] restrictionReaders_def mtrip_fail

lemma res_okD:
  "res_ok fl rt v \<Longrightarrow> v \<noteq> ANil \<Longrightarrow> rt \<noteq> ResNull"
  "res_ok fl rt (ARestriction r) \<Longrightarrow> res_ok fl (RType r) (RValue r)"
  "res_ok fl rt (ARestrictions rs) \<Longrightarrow> length rs < 2 ^ 32"
  "res_ok fl rt (ARestrictions rs) \<Longrightarrow> r \<in> set rs \<Longrightarrow> res_ok fl (RType r) (RValue r)"
  "res_ok fl rt (AContent fuzzy tag tp) \<Longrightarrow> value_ok fl (TagType (Tag tp)) (TValue tp)"
  "res_ok fl rt (AProperty relop tag tp) \<Longrightarrow> value_ok fl (TagType (Tag tp)) (TValue tp)"
  "res_ok fl rt (ASub so r) \<Longrightarrow> res_ok fl (RType r) (RValue r)"
  "res_ok fl rt (ACount c r) \<Longrightarrow> res_ok fl (RType r) (RValue r)"
  "res_ok fl rt (AComment pvs res) \<Longrightarrow> list_all (\<lambda>tp. value_ok fl (TagType (Tag tp)) (TValue tp)) pvs"
  "res_ok fl rt (AComment pvs res) \<Longrightarrow> case res of None \<Rightarrow> True | Some r \<Rightarrow> res_ok fl (RType r) (RValue r)"
  by (simp_all only: res_ok.simps [of fl rt] any.case any.distinct if_False not_False_eq_True list_all_iff split: if_splits) auto

lemma res_step:
  assumes IH: "\<And>v'. size v' < size v \<Longrightarrow> value_trips v' \<and> res_trips v'"
  shows "res_trips v"
  unfolding res_trips_def
proof (intro allI impI)
  fix fl rt
  assume ok: "res_ok fl rt v"
  note okD = res_okD [where fl = fl and rt = rt]
  show "mtrip 0 fl (room v) (\<lambda>q. pushResValue q rt v) (readResValue rt) v"
  proof (cases v)
    case (ARestriction r)
    have "mtrip 0 fl (room v) (\<lambda>q. PushRestriction q r) (pullAs ARestriction PullRestriction) v"
      unfolding ARestriction by (rule field_res_trip(2)) (use ok IH okD(2) ARestriction in \<open>auto dest: room_parts\<close>)
    then show ?thesis using okD(1) [OF ok] ARestriction by (cases "rt = ResNot") (auto simp: node_simps)
  next
    case (ARestrictions rs)
    have "mtrip 0 fl (room v) (\<lambda>q. bindr (pushResCount q (length rs)) (\<lambda>q. pushEach (\<lambda>q k. PushRestriction q k) q rs))
        (pullResChildren PullRestriction) v"
      unfolding ARestrictions
      by (rule children_trip) (use ok IH [unfolded ARestrictions, OF sub_sizes(1)] okD(3,4) ARestrictions in auto)
    then show ?thesis using okD(1) [OF ok] ARestrictions by (cases "rt = ResAnd \<or> rt = ResOr") (auto simp: node_simps)
  next
    case (AContent fuzzy tag tp)
    have "mtrip 0 fl (room v) (\<lambda>q. PushTaggedPropVal (PushUint32 (PushUint32 q fuzzy) tag) tp) (\<lambda>p. bindr (PullUint32 p) (\<lambda>(a, p).
        bindr (PullUint32 p) (\<lambda>(tag, p). bindr (PullTaggedPropVal p) (\<lambda>(tp, p). Inr (AContent a tag tp, p))))) v"
      unfolding AContent by (rule field_value_trip(1)) (use ok IH okD(5) AContent in \<open>auto dest: room_whole\<close>)
    then show ?thesis using okD(1) [OF ok] AContent by (cases "rt = ResContent") (auto simp: node_simps pullResContent_def [abs_def] PullTaggedPropVal_def)
  next
    case (AProperty relop tag tp)
    have "mtrip 0 fl (room v) (\<lambda>q. PushTaggedPropVal (PushUint32 (PushUint8 q relop) tag) tp) (\<lambda>p. bindr (PullUint8 p) (\<lambda>(b, p).
        bindr (PullUint32 p) (\<lambda>(tag, p). bindr (PullTaggedPropVal p) (\<lambda>(tp, p). Inr (AProperty b tag tp, p))))) v"
      unfolding AProperty by (rule field_value_trip(2)) (use ok IH okD(6) AProperty in \<open>auto dest: room_whole\<close>)
    then show ?thesis using okD(1) [OF ok] AProperty by (cases "rt = ResProperty") (auto simp: node_simps pullResProperty_def [abs_def] PullTaggedPropVal_def)
  next
    case (ASub so r)
    have "mtrip 0 fl (room v) (\<lambda>q. PushRestriction (PushUint32 q so) r) (pullResSub PullRestriction) v"
      unfolding ASub pullResSub_def [abs_def] by (rule field_res_trip(1)) (use ok IH okD(7) ASub in \<open>auto dest: room_parts\<close>)
    then show ?thesis using okD(1) [OF ok] ASub by (cases "rt = ResSub") (auto simp: node_simps)
  next
    case (ACount c r)
    have "mtrip 0 fl (room v) (\<lambda>q. PushRestriction (PushUint32 q c) r) (pullResCountNode PullRestriction) v"
      unfolding ACount pullResCountNode_def [abs_def] by (rule field_res_trip(1)) (use ok IH okD(8) ACount in \<open>auto dest: room_parts\<close>)
    then show ?thesis using okD(1) [OF ok] ACount by (cases "rt = ResCount") (auto simp: node_simps)
  next
    case (AComment pvs res)
    have "mtrip 0 fl (room v)
        (\<lambda>q. bindr (pushEach (\<lambda>q tp. PushTaggedPropVal q tp) (PushUint8 q (of_nat (length pvs))) pvs) (\<lambda>q.
           case res of None \<Rightarrow> Inr (PushUint8 q 0) | Some r \<Rightarrow> PushRestriction (PushUint8 q 1) r))
        (pullResComment PullPropValue PullRestriction) v" if "\<not> (length pvs = 0 \<or> length pvs > 0xFF)"
      unfolding AComment
      by (rule comment_trip) (use ok IH [unfolded AComment, OF sub_sizes(2)] IH okD(9,10) AComment that in auto)
    then show ?thesis using okD(1) [OF ok] AComment
      by (cases "rt = ResComment \<or> rt = ResAnnotation"; cases "length pvs = 0 \<or> length pvs > 0xFF") (auto simp: node_simps)
  next
    case (ACompareProps b x y)
    then show ?thesis using okD(1) [OF ok] flat_nodes_trip(1) by (cases "rt = ResPropCompare") (auto simp: node_simps)
  next
    case (ABitmask b x y)
    then show ?thesis using okD(1) [OF ok] flat_nodes_trip(2) by (cases "rt = ResBitmask") (auto simp: node_simps)
  next
    case (ASize b x y)
    then show ?thesis using okD(1) [OF ok] flat_nodes_trip(3) by (cases "rt = ResSize") (auto simp: node_simps)
  next
    case (AExist x)
    then show ?thesis using okD(1) [OF ok] flat_nodes_trip(4) by (cases "rt = ResExist") (auto simp: node_simps)
  next
    case ANil
    then show ?thesis by (cases "rt = ResNull") (simp_all add: node_simps mtrip_return)
  qed (use okD(1) [OF ok] in \<open>auto simp: node_simps\<close>)
qed

end
