(* ===== verification/Ext_Action.thy ===== *)
theory Ext_Action
  imports Ext_Wire
begin

text \<open>
  The round trip of rule actions (\<^verbatim>\<open>action.go\<close>) and the closing induction over all values.
\<close>

unbundle bit_operations_syntax

section \<open>Action blocks\<close>

lemma patch_placeholder:
  "patchU16 (PushRaw q (le_bytes 2 (0 :: u16) @ xs)) (PushLen q) v = PushRaw q (le_bytes 2 v @ xs)"
  by (simp add: patchU16_def PushRaw_def PushLen_def)

lemma reads_words:
  "reads PullUint8 G [b] b" "reads PullUint16 G (le_bytes 2 h) h" "reads PullUint32 G (le_bytes 4 d) d"
  by (simp_all add: reads_def reader_eqs)

definition readActionData :: "u8 \<Rightarrow> u16 \<Rightarrow> any reader" where
  "readActionData ty len p = (case actionReaders PullPropValue ty of None \<Rightarrow> Inl ErrFormat | Some rd \<Rightarrow> rd len p)"

text \<open>The deferred action reads as many bytes as the block length leaves; the other payloads do not use it.\<close>

definition act_trips :: "any \<Rightarrow> bool" where
  "act_trips v \<longleftrightarrow> (\<forall>fl ty q q'. act_ok fl ty v \<longrightarrow> pflags q = fl \<longrightarrow> actionData q ty v = Inr q' \<longrightarrow>
     (\<exists>bs. q' = PushRaw q bs \<and> (\<forall>len. uint len = int (9 + length bs) \<longrightarrow>
        reads (readActionData ty len) (\<lambda>p. rflags p = fl \<and> room v p) bs v)))"

lemma action_trip:
  assumes "act_trips (AData a)" "act_ok fl (AType a) (AData a)"
  shows "mtrip 1 fl (room (AData a)) (\<lambda>q. pushActionBlock q a) (pullActionBlock PullPropValue) a"
proof (rule mtripI)
  fix q q' assume q: "pflags q = fl" and w: "pushActionBlock q a = Inr q'"
  let ?H = "[AType a] @ le_bytes 4 (Flavor a) @ le_bytes 4 (AFlags a)"
  let ?q1 = "PushRaw q (le_bytes 2 (0 :: u16) @ ?H)"
  have q1: "PushUint32 (PushUint32 (PushUint8 (PushUint16 q 0) (AType a)) (Flavor a)) (AFlags a) = ?q1"
    by (simp add: push_eqs)
  obtain q2 where q2: "actionData ?q1 (AType a) (AData a) = Inr q2"
    "PushLen q2 - (PushLen q + 2) \<le> 0xFFFF" "q' = patchU16 q2 (PushLen q) (of_nat (PushLen q2 - (PushLen q + 2)))"
    using w by (auto simp: pushActionBlock.simps Let_def q1 not_less split: if_splits)
  have "pflags ?q1 = fl" using q by simp
  then obtain ds where ds: "q2 = PushRaw ?q1 ds"
    "\<And>len. uint len = int (9 + length ds) \<Longrightarrow> reads (readActionData (AType a) len) (\<lambda>p. rflags p = fl \<and> room (AData a) p) ds (AData a)"
    using assms q2(1) unfolding act_trips_def by blast
  have body: "PushLen q2 - (PushLen q + 2) = 9 + length ds"
    by (simp add: ds(1) PushLen_def PushRaw_def)
  let ?n = "of_nat (9 + length ds) :: u16"
  have n: "uint ?n = int (9 + length ds)" using q2(2) body by (intro uint_of_nat_small) simp
  have "q2 = PushRaw q (le_bytes 2 (0 :: u16) @ ?H @ ds)" by (simp add: ds(1))
  with q2(3) [unfolded body] have q': "q' = PushRaw q (le_bytes 2 ?n @ ?H @ ds)"
    using patch_placeholder [of q "?H @ ds" ?n] by (simp only:)
  let ?G = "\<lambda>p. rflags p = fl \<and> room (AData a) p"
  have st: "?G p \<Longrightarrow> ?G (adv k p)" for k p by (simp add: room_def)
  have "reads (\<lambda>p. bindr (readActionData (AType a) ?n p) (\<lambda>(v, p). Inr (ActionBlock (AType a) (Flavor a) (AFlags a) v, p)))
      ?G (ds @ []) a"
    by (rule reads_bind [OF ds(2) [OF n] _ st]) (cases a, simp add: reads_def)
  then have "reads (\<lambda>p. bindr (PullUint16 p) (\<lambda>(len, p). bindr (PullUint8 p) (\<lambda>(ty, p). bindr (PullUint32 p) (\<lambda>(flavor, p).
      bindr (PullUint32 p) (\<lambda>(flags, p). bindr (readActionData ty len p) (\<lambda>(v, p). Inr (ActionBlock ty flavor flags v, p)))))))
      ?G (le_bytes 2 ?n @ [AType a] @ le_bytes 4 (Flavor a) @ le_bytes 4 (AFlags a) @ ds @ []) a"
    by (intro reads_bind [OF reads_words(1)] reads_bind [OF reads_words(2)] reads_bind [OF reads_words(3)] st)
  moreover have "pullActionBlock PullPropValue = (\<lambda>p. bindr (PullUint16 p) (\<lambda>(len, p). bindr (PullUint8 p) (\<lambda>(ty, p). bindr (PullUint32 p) (\<lambda>(flavor, p).
      bindr (PullUint32 p) (\<lambda>(flags, p). bindr (readActionData ty len p) (\<lambda>(v, p). Inr (ActionBlock ty flavor flags v, p)))))))"
    unfolding pullActionBlock_def readActionData_def
    by (intro ext) (auto simp: bindr_def split: sum.splits option.splits)
  ultimately show "\<exists>bs. 1 \<le> length bs \<and> q' = PushRaw q bs \<and> reads (pullActionBlock PullPropValue) ?G bs a"
    using q' by (intro exI [of _ "le_bytes 2 ?n @ ?H @ ds"]) simp
qed

section \<open>Action payloads\<close>

lemma movecopy_same:
  assumes "svr_ok s" "steady G"
  shows "mtrip 0 fl G (\<lambda>q. PushSVREID (PushUint8 (PushUint16 (PushUint8 q 1) 1) 0) s) PullMoveCopyAction (AMoveCopy True None (ASvrEID s))"
proof (rule mtripI)
  fix q q' assume q: "pflags q = fl" and w: "PushSVREID (PushUint8 (PushUint16 (PushUint8 q 1) 1) 0) s = Inr q'"
  let ?q1 = "PushUint8 (PushUint16 (PushUint8 q 1) 1) 0"
  have "pflags ?q1 = fl" using q by (simp add: push_eqs)
  then obtain bs where bs: "PushSVREID ?q1 s = Inr (PushRaw ?q1 bs)" "reads PullSVREID (\<lambda>p. rflags p = fl \<and> G p) bs s"
    using tripE [OF trip_SVREID [OF assms(1)], of ?q1 fl G] by blast
  have "reads PullMoveCopyAction (\<lambda>p. rflags p = fl \<and> G p) ([1] @ le_bytes 2 (1 :: u16) @ [0] @ bs) (AMoveCopy True None (ASvrEID s))"
  proof (rule readsI, elim conjE)
    fix p rest assume p: "wf_pull p" "rflags p = fl" "G p" "unread p = ([1] @ le_bytes 2 (1 :: u16) @ [0] @ bs) @ rest"
    have "PullSVREID (adv 4 p) = Inr (s, adv (length bs) (adv 4 p))"
      using p assms(2) by (intro readsD [OF bs(2), of _ rest]) (simp_all add: steady_def numeral_eq_Suc)
    then show "PullMoveCopyAction p = Inr (AMoveCopy True None (ASvrEID s), adv (length ([1] @ le_bytes 2 (1 :: u16) @ [0] @ bs)) p)"
      using p by (simp add: PullMoveCopyAction_def reader_eqs numeral_eq_Suc)
  qed
  moreover have "q' = PushRaw q ([1] @ le_bytes 2 (1 :: u16) @ [0] @ bs)"
    using w bs(1) by (simp add: push_eqs)
  ultimately show "\<exists>bs. 0 \<le> length bs \<and> q' = PushRaw q bs
      \<and> reads PullMoveCopyAction (\<lambda>p. rflags p = fl \<and> G p) bs (AMoveCopy True None (ASvrEID s))" by blast
qed

lemma counted_trip:
  assumes "\<And>x. x \<in> set xs \<Longrightarrow> mtrip 1 fl G (\<lambda>q. wr q x) rd x" "steady G" "\<not> (length xs = 0 \<or> length xs > 0xFFFF)"
  shows "mtrip 2 fl G (\<lambda>q. pushEach wr (PushUint16 q (of_nat (length xs))) xs) (pullCounted rd) xs"
proof -
  let ?n = "of_nat (length xs) :: u16"
  let ?f = "\<lambda>n p. if n = 0 then Inl ErrFormat else bindr (checkCount p (ucast n)) (\<lambda>_. pullN (unat n) rd p)"
  have n: "unat ?n = length xs" using assms(3) by (intro unat_of_nat_less) simp
  then have n0: "?n \<noteq> 0" using assms(3) by (metis unat_0)
  have u: "unat (ucast ?n :: u32) = length xs" using assms(3) by (simp add: unsigned_ucast_eq take_bit_nat_eq_self)
  have "mtrip (length xs) fl G (\<lambda>q. pushEach wr q xs) (?f ?n) xs"
    using mtrip_checked [OF mtrip_each [of xs fl G wr rd, OF assms(1,2)], where n = "ucast ?n"] n n0 u by simp
  from mtrip_words(2) [of G _ fl _ ?f, OF assms(2) this]
  show ?thesis unfolding pullCounted_def [abs_def] by (rule mtrip_mono) simp_all
qed

lemma movecopy_other:
  assumes "seid_ok fl e" "bin_ok fl b" "steady G"
  shows "mtrip 0 fl G (\<lambda>q. PushMoveCopyAction q False (Some e) (ABytes b)) PullMoveCopyAction (AMoveCopy False (Some e) (ABytes b))"
proof (rule mtripI)
  fix q q' assume q: "pflags q = fl" and w: "PushMoveCopyAction q False (Some e) (ABytes b) = Inr q'"
  define q1 where "q1 = PushUint8 q 0"
  have fl: "pflags (PushUint16 q1 0) = fl" using q by (simp add: q1_def push_eqs)
  then obtain es where es: "PushStoreEntryID (PushUint16 q1 0) e = PushRaw (PushUint16 q1 0) es"
      "reads PullStoreEntryID (\<lambda>p. rflags p = fl \<and> True) es e"
    using tripE [OF trip_StoreEntryID [OF assms(1)], of "PushUint16 q1 0"] by (metis sum.inject(2))
  let ?n = "of_nat (length es) :: u16"
  have st: "PushStoreEntryID (PushUint16 q1 0) e = PushRaw q1 (le_bytes 2 (0 :: u16) @ es)"
    using es(1) by (simp add: push_eqs)
  have len: "PushLen (PushRaw q1 (le_bytes 2 (0 :: u16) @ es)) - (PushLen q1 + 2) = length es"
    by (simp add: PushLen_def)
  have "(if length es > 0xFFFF then Inl ErrFormat else PushBin (patchU16 (PushRaw q1 (le_bytes 2 (0 :: u16) @ es)) (PushLen q1) ?n) b) = Inr q'"
    using w by (simp only: PushMoveCopyAction_def Let_def q1_def [symmetric] st len option.case any.case if_False)
  then have n: "\<not> length es > 0xFFFF" and bin: "PushBin (PushRaw q1 (le_bytes 2 ?n @ es)) b = Inr q'"
    unfolding patch_placeholder by (auto split: if_splits)
  have "pflags (PushRaw q1 (le_bytes 2 ?n @ es)) = fl" using q by (simp add: q1_def push_eqs)
  then obtain cs where cs: "q' = PushRaw (PushRaw q1 (le_bytes 2 ?n @ es)) cs" "reads PullBin (\<lambda>p. rflags p = fl \<and> G p) cs b"
    using tripE [OF cbin.field [OF assms(2) TrueI], of "PushRaw q1 (le_bytes 2 ?n @ es)" G] bin by auto
  let ?G = "\<lambda>p. rflags p = fl \<and> G p"
  have sG: "?G p \<Longrightarrow> ?G (adv k p)" for k p using assms(3) by (simp add: steady_def)
  have "reads (\<lambda>p. bindr (PullStoreEntryID p) (\<lambda>(se, p). bindr (PullBin p) (\<lambda>(bin, p). Inr (AMoveCopy False (Some se) (ABytes bin), p))))
      ?G (es @ cs @ []) (AMoveCopy False (Some e) (ABytes b))"
    by (rule reads_bind [OF reads_mono [OF es(2)] reads_bind [OF cs(2) _ sG] sG]) (simp_all add: reads_def)
  then have "reads PullMoveCopyAction ?G ([0] @ le_bytes 2 ?n @ es @ cs) (AMoveCopy False (Some e) (ABytes b))"
    unfolding PullMoveCopyAction_def by (intro reads_bind [OF reads_words(1)] reads_bind [OF reads_words(2)] sG) simp
  moreover have "q' = PushRaw q ([0] @ le_bytes 2 ?n @ es @ cs)" by (simp add: cs(1) q1_def push_eqs)
  ultimately show "\<exists>bs. 0 \<le> length bs \<and> q' = PushRaw q bs \<and> reads PullMoveCopyAction ?G bs (AMoveCopy False (Some e) (ABytes b))"
    by blast
qed

lemma movecopy_trip:
  assumes "if same then store = None \<and> (case folder of ASvrEID s \<Rightarrow> svr_ok s | _ \<Rightarrow> True)
      else (case store of None \<Rightarrow> True | Some e \<Rightarrow> seid_ok fl e) \<and> (case folder of ABytes b \<Rightarrow> bin_ok fl b | _ \<Rightarrow> True)"
    "steady G"
  shows "mtrip 0 fl G (\<lambda>q. PushMoveCopyAction q same store folder) PullMoveCopyAction (AMoveCopy same store folder)"
proof (cases same)
  case True
  show ?thesis
  proof (cases "\<exists>s. folder = ASvrEID s")
    case True
    then obtain s where "folder = ASvrEID s" by blast
    then show ?thesis using assms movecopy_same [of s G fl] \<open>same\<close> by (simp add: PushMoveCopyAction_def)
  next
    case False
    then have "PushMoveCopyAction q same store folder = Inl ErrFormat" for q
      using \<open>same\<close> by (cases folder) (simp_all add: PushMoveCopyAction_def)
    then show ?thesis by (simp add: mtrip_fail)
  qed
next
  case False
  show ?thesis
  proof (cases "\<exists>e b. store = Some e \<and> folder = ABytes b")
    case True
    then show ?thesis using assms movecopy_other [of fl _ _ G] \<open>\<not> same\<close> by auto
  next
    case False
    then have "PushMoveCopyAction q same store folder \<noteq> Inr q'" for q q'
      using \<open>\<not> same\<close> by (cases store; cases folder) (auto simp: PushMoveCopyAction_def Let_def)
    then show ?thesis by (simp add: mtrip_def)
  qed
qed

lemma reply_trip:
  "guid_wf (TemplateGUID r) \<Longrightarrow> mtrip 0 fl G (\<lambda>q. Inr (PushReply q r)) PullReply (AReply r)"
  by (cases r) (auto simp: mtrip_def push_eqs reads_def reader_eqs PushReply_def PullReply_def)

lemma recipient_trip:
  assumes "\<And>tp. tp \<in> set (PropVals rb) \<Longrightarrow> value_trips (TValue tp)"
    "list_all (\<lambda>tp. value_ok fl (TagType (Tag tp)) (TValue tp)) (PropVals rb)"
    "\<And>tp p. tp \<in> set (PropVals rb) \<Longrightarrow> G p \<Longrightarrow> room (TValue tp) p" "steady G"
  shows "mtrip 1 fl G (\<lambda>q. pushRecipientBlock q rb) (pullRecipientBlock PullPropValue) rb"
proof (cases "length (PropVals rb) = 0 \<or> length (PropVals rb) > 0xFFFF")
  case False
  have "mtrip 2 fl G (\<lambda>q. pushEach (\<lambda>q tp. PushTaggedPropVal q tp) (PushUint16 q (of_nat (length (PropVals rb)))) (PropVals rb))
      (pullCounted PullTaggedPropVal) (PropVals rb)"
    using assms(2) by (intro counted_trip mtrip_mono [OF tagged_trip] assms False) (auto simp: list_all_iff intro: assms(3))
  then have "mtrip (1 + 2) fl G (\<lambda>q. pushEach (\<lambda>q tp. PushTaggedPropVal q tp) (PushUint16 (PushUint8 q 0) (of_nat (length (PropVals rb)))) (PropVals rb))
      (\<lambda>p. bindr (PullUint8 p) (\<lambda>(_, p). bindr (pullCounted PullTaggedPropVal p) (\<lambda>(pvs, p). Inr (RecipientBlock pvs, p)))) rb"
    by (intro mtrip_words(1) [where b = 0] mtrip_fin [where x = "PropVals rb"] assms(4)) simp_all
  then show ?thesis using False
    unfolding pushRecipientBlock.simps pullRecipientBlock_def [abs_def] PullTaggedPropVal_def [symmetric]
    by (simp only: if_False) (rule mtrip_mono, assumption, simp_all)
qed (simp add: pushRecipientBlock.simps mtrip_fail)

lemma act_okD:
  "act_ok fl ty v \<Longrightarrow> v \<noteq> ANil \<Longrightarrow> ty \<noteq> OpDelete \<and> ty \<noteq> OpMarkAsRead"
  "act_ok fl ty (AMoveCopy same store folder) \<Longrightarrow> if same then store = None \<and> (case folder of ASvrEID s \<Rightarrow> svr_ok s | _ \<Rightarrow> True)
      else (case store of None \<Rightarrow> True | Some e \<Rightarrow> seid_ok fl e) \<and> (case folder of ABytes b \<Rightarrow> bin_ok fl b | _ \<Rightarrow> True)"
  "act_ok fl ty (AReply r) \<Longrightarrow> guid_wf (TemplateGUID r)"
  "act_ok fl ty (ATagged tp) \<Longrightarrow> value_ok fl (TagType (Tag tp)) (TValue tp)"
  "act_ok fl ty (AForward rs) \<Longrightarrow> rb \<in> set rs \<Longrightarrow> list_all (\<lambda>tp. value_ok fl (TagType (Tag tp)) (TValue tp)) (PropVals rb)"
  by (simp_all only: act_ok.simps [of fl ty] any.case any.distinct if_False not_False_eq_True list_all_iff split: if_splits) auto

lemma act_tripsI:
  assumes "\<And>fl ty. act_ok fl ty v \<Longrightarrow> ty \<noteq> OpDeferAction \<Longrightarrow>
      \<forall>len. mtrip 0 fl (room v) (\<lambda>q. actionData q ty v) (readActionData ty len) v"
  shows "act_trips v"
  unfolding act_trips_def
proof (intro allI impI)
  fix fl ty and q q' :: push
  assume *: "act_ok fl ty v" "pflags q = fl" "actionData q ty v = Inr q'"
  show "\<exists>bs. q' = PushRaw q bs \<and> (\<forall>len. uint len = int (9 + length bs) \<longrightarrow>
      reads (readActionData ty len) (\<lambda>p. rflags p = fl \<and> room v p) bs v)"
  proof (cases "ty = OpDeferAction")
    case True
    with * obtain b where b: "v = ABytes b" "q' = PushRaw q b"
      by (auto simp: actionData.simps split: any.splits)
    have "reads (readActionData ty len) (\<lambda>p. rflags p = fl \<and> room v p) b v" if "uint len = int (9 + length b)" for len :: u16
    proof -
      have "\<not> len < 9" using that by (simp add: word_less_def)
      then show ?thesis using True b(1) that
        by (simp add: reads_def readActionData_def actionReaders_def pullAs_def reader_eqs)
    qed
    then show ?thesis using b(2) by blast
  next
    case False
    have m: "mtrip 0 fl (room v) (\<lambda>q. actionData q ty v) (readActionData ty len) v" for len
      using assms [OF *(1) False] by blast
    obtain bs where bs: "q' = PushRaw q bs" using mtripE [OF m *(2,3)] by blast
    have "reads (readActionData ty len) (\<lambda>p. rflags p = fl \<and> room v p) bs v" for len
    proof -
      obtain cs where "q' = PushRaw q cs" "reads (readActionData ty len) (\<lambda>p. rflags p = fl \<and> room v p) cs v"
        using mtripE [OF m *(2,3)] by blast
      moreover have "buf (PushRaw q cs) = buf (PushRaw q bs)" using bs calculation(1) by metis
      ultimately show ?thesis by simp
    qed
    then show ?thesis using bs by blast
  qed
qed

lemmas data_simps = actionData.simps readActionData_def [abs_def] actionReaders_def mtrip_fail

lemma act_step:
  assumes IH: "\<And>v'. size v' < size v \<Longrightarrow> value_trips v'"
  shows "act_trips v"
proof (rule act_tripsI, rule allI)
  fix fl ty len
  assume ok: "act_ok fl ty v" and nd: "ty \<noteq> OpDeferAction"
  note okD = act_okD [where fl = fl and ty = ty]
  show "mtrip 0 fl (room v) (\<lambda>q. actionData q ty v) (readActionData ty len) v"
  proof (cases v)
    case (AMoveCopy same store folder)
    have "mtrip 0 fl (room v) (\<lambda>q. PushMoveCopyAction q same store folder) PullMoveCopyAction v"
      unfolding AMoveCopy by (rule movecopy_trip [OF okD(2)]) (use ok AMoveCopy in simp_all)
    then show ?thesis using okD(1) [OF ok] AMoveCopy nd by (cases "ty = OpMove \<or> ty = OpCopy") (auto simp: data_simps)
  next
    case (AReply r)
    have "mtrip 0 fl (room v) (\<lambda>q. Inr (PushReply q r)) PullReply v"
      unfolding AReply by (rule reply_trip [OF okD(3)]) (use ok AReply in simp)
    then show ?thesis using okD(1) [OF ok] AReply nd by (cases "ty = OpReply \<or> ty = OpOOFReply") (auto simp: data_simps)
  next
    case (ATagged tp)
    have "mtrip 4 fl (room (TValue tp)) (\<lambda>q. PushTaggedPropVal q tp) PullTaggedPropVal tp"
      by (rule tagged_trip [OF IH okD(4)]) (use ok ATagged in simp_all)
    then have "mtrip 0 fl (room v) (\<lambda>q. PushTaggedPropVal q tp) PullTaggedPropVal tp"
      by (rule mtrip_mono) (use ATagged in \<open>auto dest: room_whole\<close>)
    from mtrip_pullAs [OF this, of v ATagged]
    show ?thesis using okD(1) [OF ok] ATagged nd by (cases "ty = OpTag") (auto simp: data_simps PullTaggedPropVal_def)
  next
    case (AForward rs)
    have "mtrip 2 fl (room v) (\<lambda>q. pushEach (\<lambda>q rb. pushRecipientBlock q rb) (PushUint16 q (of_nat (length rs))) rs)
        (pullCounted (pullRecipientBlock PullPropValue)) rs" if "\<not> (length rs = 0 \<or> length rs > 0xFFFF)"
    proof (rule counted_trip [OF recipient_trip _ that])
      fix rb tp assume "rb \<in> set rs" "tp \<in> set (PropVals rb)"
      then show "value_trips (TValue tp)" using IH [OF sub_sizes(4) [of rb rs tp, folded AForward]] by simp
    next
      fix rb assume "rb \<in> set rs"
      then show "list_all (\<lambda>tp. value_ok fl (TagType (Tag tp)) (TValue tp)) (PropVals rb)" using okD(5) ok AForward by blast
    next
      fix rb tp p assume "rb \<in> set rs" "tp \<in> set (PropVals rb)" "room v p"
      then show "room (TValue tp) p" using room_parts(8) AForward by blast
    qed simp_all
    then have "mtrip 0 fl (room v) (\<lambda>q. pushEach (\<lambda>q rb. pushRecipientBlock q rb) (PushUint16 q (of_nat (length rs))) rs)
        (pullForwardDelegateAction PullPropValue) v" if "\<not> (length rs = 0 \<or> length rs > 0xFFFF)"
      unfolding pullForwardDelegateAction_def using that AForward by (intro mtrip_pullAs) (auto intro: mtrip_mono)
    then show ?thesis using okD(1) [OF ok] AForward nd
      by (cases "ty = OpForward \<or> ty = OpDelegate"; cases "length rs = 0 \<or> length rs > 0xFFFF") (auto simp: data_simps)
  next
    case (AUint32 code)
    then show ?thesis using okD(1) [OF ok] nd leaf_trips(2) [where mk = AUint32] by (cases "ty = OpBounce") (auto simp: data_simps)
  next
    case ANil
    then show ?thesis using nd by (cases "ty = OpDelete \<or> ty = OpMarkAsRead") (auto simp: data_simps mtrip_return)
  qed (use okD(1) [OF ok] nd in \<open>auto simp: data_simps\<close>)
qed

section \<open>Property values\<close>

lemma value_okD:
  assumes "value_ok fl t v" "\<not> (has_flag fl FlagABK \<and> abkGated t \<and> v = ANil)"
  shows "effective fl t = PtUnspecified \<Longrightarrow> v = ATyped t' v' \<Longrightarrow> value_ok fl t' v'"
    "effective fl t = PtRestriction \<Longrightarrow> v = ARestriction r \<Longrightarrow> res_ok fl (RType r) (RValue r)"
    "effective fl t = PtActions \<Longrightarrow> v = ARuleActions bs \<Longrightarrow> b \<in> set bs \<Longrightarrow> act_ok fl (AType b) (AData b)"
    "effective fl t \<noteq> PtUnspecified \<Longrightarrow> effective fl t \<noteq> PtRestriction \<Longrightarrow> effective fl t \<noteq> PtActions \<Longrightarrow> leaf_ok fl (effective fl t) v"
  using assms unfolding value_ok.simps [of fl t v]
  by (simp_all add: list_all_iff)

lemma typed_trip:
  assumes "value_trips v'" "value_ok fl t' v'"
  shows "mtrip 0 fl (room (ATyped t' v')) (\<lambda>q. PushTypedPropVal q t' v') (pullAs (\<lambda>(t, v). ATyped t v) (pullTypedPropVal PullPropValue)) (ATyped t' v')"
proof -
  let ?f = "\<lambda>t p. bindr (PullPropValue t p) (\<lambda>(v, p). Inr ((t, v), p))"
  have "mtrip 0 fl (room v') (\<lambda>q. PushPropValue q t' v') (PullPropValue t') v'"
    using assms by (simp add: value_trips_def)
  then have "mtrip 0 fl (room v') (\<lambda>q. PushPropValue q t' v') (?f t') (t', v')"
    by (rule mtrip_fin) simp
  then have "mtrip (2 + 0) fl (room v') (\<lambda>q. PushPropValue (PushUint16 q t') t' v') (\<lambda>p. bindr (PullUint16 p) (case_prod ?f)) (t', v')"
    by (intro mtrip_words(2)) simp_all
  then have "mtrip (2 + 0) fl (room (ATyped t' v')) (\<lambda>q. PushTypedPropVal q t' v') (pullTypedPropVal PullPropValue) (t', v')"
    unfolding PushTypedPropVal.simps pullTypedPropVal_def by (rule mtrip_deeper_val) (auto simp: room_def)
  then have "mtrip 0 fl (room (ATyped t' v')) (\<lambda>q. PushTypedPropVal q t' v') (pullTypedPropVal PullPropValue) (t', v')"
    by (rule mtrip_mono) simp_all
  then show ?thesis by (rule mtrip_pullAs) simp
qed

lemma actions_trip:
  assumes "\<And>b. b \<in> set bs \<Longrightarrow> act_trips (AData b)" "\<And>b. b \<in> set bs \<Longrightarrow> act_ok fl (AType b) (AData b)"
  shows "mtrip 0 fl (room (ARuleActions bs)) (\<lambda>q. PushRuleActions q bs) (pullAs ARuleActions (pullRuleActions PullPropValue)) (ARuleActions bs)"
proof (cases "length bs = 0 \<or> length bs > 0xFFFF")
  case False
  have "mtrip 2 fl (room (ARuleActions bs)) (\<lambda>q. pushEach (\<lambda>q b. pushActionBlock q b) (PushUint16 q (of_nat (length bs))) bs)
      (pullRuleActions PullPropValue) bs"
    unfolding pullRuleActions_def
    by (intro counted_trip mtrip_mono [OF action_trip] assms False) (auto dest: room_parts)
  then have "mtrip 0 fl (room (ARuleActions bs)) (\<lambda>q. PushRuleActions q bs) (pullRuleActions PullPropValue) bs"
    using False unfolding PushRuleActions.simps by (simp only: if_False) (rule mtrip_mono, assumption, simp_all)
  then show ?thesis by (rule mtrip_pullAs) simp
qed (simp add: PushRuleActions.simps mtrip_fail)

lemma value_of_trip:
  assumes IH: "\<And>v'. size v' < size v \<Longrightarrow> value_trips v' \<and> res_trips v' \<and> act_trips v'"
    and ok: "value_ok fl t v" "\<not> (has_flag fl FlagABK \<and> abkGated t \<and> v = ANil)"
  shows "mtrip 0 fl (room v) (\<lambda>q. pushValueOf q (effective fl t) v) (pullValueOf PullPropValue PullRestriction (effective fl t)) v"
proof -
  let ?t = "effective fl t"
  note okD = value_okD [OF ok]
  consider "?t = PtUnspecified" | "?t = PtRestriction" | "?t = PtActions"
    | "?t \<noteq> PtUnspecified" "?t \<noteq> PtRestriction" "?t \<noteq> PtActions" by blast
  then show ?thesis
  proof cases
    case 1
    show ?thesis
    proof (cases "\<exists>t' v'. v = ATyped t' v'")
      case True
      then obtain t' v' where v: "v = ATyped t' v'" by blast
      show ?thesis using typed_trip [of v' fl t'] IH [of v'] okD(1) [OF 1 v] 1 v
        by (simp add: pushValueOf.simps pullValueOf_def)
    next
      case False
      then have "pushValueOf q ?t v = Inl ErrFormat" for q using 1 by (cases v) (simp_all add: pushValueOf.simps)
      then show ?thesis by (simp add: mtrip_fail)
    qed
  next
    case 2
    show ?thesis
    proof (cases "\<exists>r. v = ARestriction r")
      case True
      then obtain r where v: "v = ARestriction r" by blast
      show ?thesis using field_res_trip(2) [of r fl "room v" ARestriction] IH [of "RValue r"] okD(2) [OF 2 v] 2 v
        by (simp add: pushValueOf.simps pullValueOf_def room_parts(1))
    next
      case False
      then have "pushValueOf q ?t v = Inl ErrFormat" for q using 2 by (cases v) (simp_all add: pushValueOf.simps)
      then show ?thesis by (simp add: mtrip_fail)
    qed
  next
    case 3
    show ?thesis
    proof (cases "\<exists>bs. v = ARuleActions bs")
      case True
      then obtain bs where v: "v = ARuleActions bs" by blast
      show ?thesis using actions_trip [of bs fl] IH [unfolded v, OF sub_sizes(3)] okD(3) [OF 3 v] 3 v
        by (simp add: pushValueOf.simps pullValueOf_def)
    next
      case False
      then have "pushValueOf q ?t v = Inl ErrFormat" for q using 3 by (cases v) (simp_all add: pushValueOf.simps)
      then show ?thesis by (simp add: mtrip_fail)
    qed
  next
    case 4
    show ?thesis
    proof (cases "propWriters ?t")
      case None
      then show ?thesis using 4 by (simp add: pushValueOf.simps mtrip_fail)
    next
      case (Some wr)
      then obtain rd where "propReaders ?t = Some rd" "mtrip 0 fl (room v) (\<lambda>q. wr q v) rd v"
        using leaf_mtrip [OF Some okD(4) [OF 4], of "room v"] by blast
      then show ?thesis using 4 Some by (simp add: pushValueOf.simps pullValueOf_def)
    qed
  qed
qed

lemma value_step:
  assumes IH: "\<And>v'. size v' < size v \<Longrightarrow> value_trips v' \<and> res_trips v' \<and> act_trips v'"
  shows "value_trips v"
  unfolding value_trips_def
proof (intro allI impI)
  fix fl t
  assume ok: "value_ok fl t v"
  let ?P = "pullValueOf PullPropValue PullRestriction"
  have "mtrip 0 fl (room v) (\<lambda>q. PushPropValue q t v) (pullPropValue PullPropValue PullRestriction t) v"
  proof (cases "has_flag fl FlagABK \<and> abkGated t")
    case True
    then have eff: "effective fl t = t" by (simp add: effective_def)
    let ?f = "\<lambda>valueSet p. if valueSet = (0 :: u8) then Inr (ANil, p) else if valueSet \<noteq> 0xFF then Inl ErrFormat else ?P t p"
    have "mtrip 0 fl (room v) (\<lambda>q. if v = ANil then Inr (PushUint8 q 0) else pushValueOf (PushUint8 q 0xFF) t v)
        (\<lambda>p. bindr (PullUint8 p) (case_prod ?f)) v"
    proof (cases "v = ANil")
      case True
      have "mtrip 0 fl (room v) (\<lambda>q. Inr (PushUint8 q 0)) (\<lambda>p. bindr (PullUint8 p) (case_prod ?f)) v"
        by (rule mtrip_fin [OF mtrip_trip [OF c8.field [OF TrueI TrueI]]]) (simp add: True)
      then show ?thesis using True by simp
    next
      case False
      then have "mtrip 0 fl (room v) (\<lambda>q. pushValueOf q t v) (?f 0xFF) v"
        using value_of_trip [OF IH ok] eff by simp
      from mtrip_words(1) [of "room v" 0 fl _ ?f, OF steady_room(1) this] show ?thesis
        using False by simp (rule mtrip_mono, assumption, simp_all)
    qed
    then show ?thesis using True
      by (simp add: mtrip_def reads_def PushPropValue.simps pullPropValue_def)
  next
    case False
    then show ?thesis using value_of_trip [OF IH ok]
      by (auto simp: mtrip_def reads_def PushPropValue.simps pullPropValue_def effective_def)
  qed
  then show "mtrip 0 fl (room v) (\<lambda>q. PushPropValue q t v) (PullPropValue t) v"
    by (rule mtrip_cong_reader) (simp add: Pull_eqs(1))
qed

lemma all_trips: "value_trips v \<and> res_trips v \<and> act_trips v"
proof (induction v rule: measure_induct_rule [where f = size])
  case (less v)
  then show ?case using value_step [of v] res_step [of v] act_step [of v] by blast
qed

end
