(* ===== verification/Ext_Codec.thy ===== *)
theory Ext_Codec
  imports Ext_Action
begin

text \<open>
  The arrays and rows over property values (\<^verbatim>\<open>propval.go\<close>, \<^verbatim>\<open>arrays.go\<close>), the flagged column values of
  \<^verbatim>\<open>typedval.go\<close>, and what the whole value codec of \<^verbatim>\<open>internal/ext\<close> guarantees: round trips, termination
  of the decoder, and the nesting it lets through.
\<close>

unbundle bit_operations_syntax

section \<open>Arrays (propval.go, arrays.go)\<close>

definition PushPropertyValues :: "any tagged_prop_val list writer" where
  "PushPropertyValues = pushArr16 PushTaggedPropVal"

definition PullPropertyValues :: "any tagged_prop_val list reader" where
  "PullPropertyValues = pullArr16 PullTaggedPropVal"

definition PushPropTags :: "prop_tag list writer" where
  "PushPropTags = pushArr16 (\<lambda>q t. Inr (PushUint32 q t))"

definition PullPropTags :: "prop_tag list reader" where
  "PullPropTags = pullArr16 PullUint32"

definition PushPropTagsLong :: "prop_tag list writer" where
  "PushPropTagsLong = pushArr32 (\<lambda>q t. Inr (PushUint32 q t))"

definition PullPropTagsLong :: "prop_tag list reader" where
  "PullPropTagsLong = pullArr32z PullUint32"

definition PushPropertyValuesLong :: "any tagged_prop_val list writer" where
  "PushPropertyValuesLong = pushArr32 PushTaggedPropVal"

definition PullPropertyValuesLong :: "any tagged_prop_val list reader" where
  "PullPropertyValuesLong = pullArr32z PullTaggedPropVal"

definition PushTArraySet :: "any tagged_prop_val list list writer" where
  "PushTArraySet = pushArr32 PushPropertyValues"

definition PullTArraySet :: "any tagged_prop_val list list reader" where
  "PullTArraySet = pullArr32z PullPropertyValues"

record property_problem =
  Index :: u16
  ProblemTag :: prop_tag
  Err :: u32

definition PushProblemArray :: "property_problem list writer" where
  "PushProblemArray =
     pushArr16 (\<lambda>q pr. Inr (PushUint32 (PushUint32 (PushUint16 q (Index pr)) (ProblemTag pr)) (Err pr)))"

definition PullProblemArray :: "property_problem list reader" where
  "PullProblemArray =
     pullArr16z (\<lambda>p.
       bindr (PullUint16 p) (\<lambda>(i, p).
       bindr (PullUint32 p) (\<lambda>(tag, p).
       bindr (PullUint32 p) (\<lambda>(e, p). Inr (\<lparr>Index = i, ProblemTag = tag, Err = e\<rparr>, p)))))"

definition PushUint64ArrayShort :: "u64 list writer" where
  "PushUint64ArrayShort = pushArr16 (\<lambda>q v. Inr (PushUint64 q v))"

definition PullUint64ArrayShort :: "u64 list reader" where
  "PullUint64ArrayShort = pullArr16z PullUint64"

definition PushEIDs :: "eid list writer" where
  "PushEIDs = pushArr32 (\<lambda>q v. Inr (PushUint64 q v))"

definition PullEIDs :: "eid list reader" where
  "PullEIDs = pullArr32z PullUint64"

section \<open>Flagged values (typedval.go)\<close>

abbreviation (input) FlaggedAvailable :: u8 where "FlaggedAvailable \<equiv> 0x0"
abbreviation (input) FlaggedUnavailable :: u8 where "FlaggedUnavailable \<equiv> 0x1"
abbreviation (input) FlaggedError :: u8 where "FlaggedError \<equiv> 0xA"

record flagged_prop_val =
  Flag :: u8
  FType :: prop_type
  FValue :: any

text \<open>The flag byte and the switch on it, which both functions end with.\<close>

definition pushFlagged :: "prop_type \<Rightarrow> flagged_prop_val \<Rightarrow> push \<Rightarrow> ext_error + push" where
  "pushFlagged typ r q =
     (let q = PushUint8 q (Flag r) in
      if Flag r = FlaggedAvailable then PushPropValue q typ (FValue r)
      else if Flag r = FlaggedUnavailable then Inr q
      else if Flag r = FlaggedError
      then (case FValue r of AUint32 ec \<Rightarrow> Inr (PushUint32 q ec) | _ \<Rightarrow> Inl ErrFormat)
      else Inl ErrFormat)"

definition PushFlaggedPropVal :: "push \<Rightarrow> prop_tag \<Rightarrow> flagged_prop_val \<Rightarrow> ext_error + push" where
  "PushFlaggedPropVal q tag r =
     (let typ = TagType tag in
      if typ = PtUnspecified then
        (if has_flag (pflags q) FlagABK then Inl ErrFormat
         else
           (let typ = (if Flag r = FlaggedUnavailable then 0
                       else if Flag r = FlaggedError then PtError else FType r)
            in pushFlagged typ r (PushUint16 q typ)))
      else pushFlagged typ r q)"

definition pullFlagged :: "prop_type \<Rightarrow> prop_type \<Rightarrow> flagged_prop_val reader" where
  "pullFlagged typ rtype p =
     bindr (PullUint8 p) (\<lambda>(flag, p).
       if flag = FlaggedAvailable
       then bindr (PullPropValue typ p) (\<lambda>(v, p). Inr (\<lparr>Flag = flag, FType = rtype, FValue = v\<rparr>, p))
       else if flag = FlaggedUnavailable then Inr (\<lparr>Flag = flag, FType = rtype, FValue = ANil\<rparr>, p)
       else if flag = FlaggedError
       then bindr (PullUint32 p) (\<lambda>(ec, p). Inr (\<lparr>Flag = flag, FType = rtype, FValue = AUint32 ec\<rparr>, p))
       else Inl ErrFormat)"

definition PullFlaggedPropVal :: "prop_type \<Rightarrow> flagged_prop_val reader" where
  "PullFlaggedPropVal typ p =
     (if typ = PtUnspecified then bindr (PullUint16 p) (\<lambda>(t, p). pullFlagged t t p)
      else pullFlagged typ 0 p)"

section \<open>Round trips of the arrays\<close>

lemma mtrip_arr16:
  assumes "\<And>x. x \<in> set xs \<Longrightarrow> mtrip 1 fl G (\<lambda>q. wr q x) rd x" "steady G"
  shows "mtrip 2 fl G (\<lambda>q. pushArr16 wr q xs) (pullArr16 rd) xs"
proof (cases "length xs > 0xFFFF")
  case False
  let ?n = "of_nat (length xs) :: u16"
  let ?f = "\<lambda>n p. bindr (checkCount p (ucast n)) (\<lambda>_. pullN (unat n) rd p)"
  have n: "unat ?n = length xs" using False by (intro unat_of_nat_less) simp
  have u: "unat (ucast ?n :: u32) = length xs" using False by (simp add: unsigned_ucast_eq take_bit_nat_eq_self)
  have "mtrip (length xs) fl G (\<lambda>q. pushEach wr q xs) (?f ?n) xs"
    using mtrip_checked [OF mtrip_each [of xs fl G wr rd, OF assms(1,2)], where n = "ucast ?n"] n u by simp
  from mtrip_words(2) [of G _ fl _ ?f, OF assms(2) this]
  have "mtrip 2 fl G (\<lambda>q. pushEach wr (PushUint16 q ?n) xs) (pullArr16 rd) xs"
    unfolding pullArr16_def [abs_def] by (rule mtrip_mono) simp_all
  then show ?thesis using False by (simp add: pushArr16_def)
qed (simp add: pushArr16_def mtrip_fail)

lemma mtrip_arr32:
  assumes "\<And>x. x \<in> set xs \<Longrightarrow> mtrip 1 fl G (\<lambda>q. wr q x) rd x" "steady G" "length xs < 2 ^ 32"
  shows "mtrip 4 fl G (\<lambda>q. pushArr32 wr q xs) (pullArr32z rd) xs"
proof -
  let ?n = "of_nat (length xs) :: u32"
  let ?f = "\<lambda>n p. bindr (checkCount p n) (\<lambda>_. pullN (unat n) rd p)"
  have n: "unat ?n = length xs" using assms(3) by (intro unat_of_nat_less) simp
  have "mtrip (length xs) fl G (\<lambda>q. pushEach wr q xs) (?f ?n) xs"
    using mtrip_checked [OF mtrip_each [of xs fl G wr rd, OF assms(1,2)], where n = ?n] n by simp
  from mtrip_words(3) [of G _ fl _ ?f, OF assms(2) this]
  have "mtrip 4 fl G (\<lambda>q. pushEach wr (PushUint32 q ?n) xs) (pullArr32 rd) xs"
    unfolding pullArr32_def [abs_def] by (rule mtrip_mono) simp_all
  then show ?thesis by (auto simp: pushArr32_def intro: mtrip_cong_reader pullArr32z_eq)
qed

text \<open>A row: admissible values within the depth limits.\<close>

definition row_ok :: "u32 \<Rightarrow> any tagged_prop_val list \<Rightarrow> bool" where
  "row_ok fl row \<longleftrightarrow> list_all (\<lambda>tp. value_ok fl (TagType (Tag tp)) (TValue tp)
     \<and> depth 1 0 (TValue tp) \<le> maxRestrictionDepth \<and> depth 0 1 (TValue tp) \<le> maxTypedValDepth) row"

definition fresh :: "pull \<Rightarrow> bool" where
  "fresh p \<longleftrightarrow> resDepth p = 0 \<and> valDepth p = 0"

lemma fresh_cursor [simp]: "steady fresh" "fresh (NewPull b fl)"
  by (simp_all add: steady_def fresh_def adv_def NewPull_def)

lemma row_trip: "row_ok fl row \<Longrightarrow> mtrip 2 fl fresh (\<lambda>q. PushPropertyValues q row) PullPropertyValues row"
  unfolding PushPropertyValues_def PullPropertyValues_def
  by (intro mtrip_arr16 mtrip_mono [OF tagged_trip])
    (use all_trips in \<open>auto simp: row_ok_def list_all_iff fresh_def room_def\<close>)

definition flagged_ok :: "u32 \<Rightarrow> prop_tag \<Rightarrow> flagged_prop_val \<Rightarrow> bool" where
  "flagged_ok fl tag r \<longleftrightarrow>
     (let typ = (if TagType tag \<noteq> PtUnspecified then TagType tag else if Flag r = FlaggedUnavailable then 0
                 else if Flag r = FlaggedError then PtError else FType r)
      in FType r = (if TagType tag = PtUnspecified then typ else 0)
        \<and> (Flag r = FlaggedUnavailable \<longrightarrow> FValue r = ANil)
        \<and> (Flag r = FlaggedAvailable \<longrightarrow> value_ok fl typ (FValue r)
             \<and> depth 1 0 (FValue r) \<le> maxRestrictionDepth \<and> depth 0 1 (FValue r) \<le> maxTypedValDepth))"

lemma flagged_body_trip:
  assumes "Flag r = FlaggedUnavailable \<longrightarrow> FValue r = ANil" "FType r = rtype"
    "Flag r = FlaggedAvailable \<longrightarrow> value_ok fl typ (FValue r)
       \<and> depth 1 0 (FValue r) \<le> maxRestrictionDepth \<and> depth 0 1 (FValue r) \<le> maxTypedValDepth"
  shows "mtrip 1 fl fresh (pushFlagged typ r) (pullFlagged typ rtype) r"
proof -
  let ?w = "\<lambda>q. if Flag r = FlaggedAvailable then PushPropValue q typ (FValue r)
      else if Flag r = FlaggedUnavailable then Inr q
      else if Flag r = FlaggedError
      then (case FValue r of AUint32 ec \<Rightarrow> Inr (PushUint32 q ec) | _ \<Rightarrow> Inl ErrFormat)
      else Inl ErrFormat"
  let ?f = "\<lambda>flag p. if flag = FlaggedAvailable
       then bindr (PullPropValue typ p) (\<lambda>(v, p). Inr (\<lparr>Flag = flag, FType = rtype, FValue = v\<rparr>, p))
       else if flag = FlaggedUnavailable then Inr (\<lparr>Flag = flag, FType = rtype, FValue = ANil\<rparr>, p)
       else if flag = FlaggedError
       then bindr (PullUint32 p) (\<lambda>(ec, p). Inr (\<lparr>Flag = flag, FType = rtype, FValue = AUint32 ec\<rparr>, p))
       else Inl ErrFormat"
  have "mtrip 0 fl fresh ?w (?f (Flag r)) r"
  proof -
    consider "Flag r = FlaggedAvailable" | "Flag r = FlaggedUnavailable" | ec where "Flag r = FlaggedError" "FValue r = AUint32 ec"
      | "Flag r \<noteq> FlaggedAvailable" "Flag r \<noteq> FlaggedUnavailable" "Flag r = FlaggedError \<Longrightarrow> \<forall>ec. FValue r \<noteq> AUint32 ec"
      by blast
    then show ?thesis
    proof cases
      case 1
      then have "mtrip 0 fl (room (FValue r)) (\<lambda>q. PushPropValue q typ (FValue r)) (PullPropValue typ) (FValue r)"
        using all_trips [of "FValue r"] assms(3) by (simp add: value_trips_def)
      then have "mtrip 0 fl fresh (\<lambda>q. PushPropValue q typ (FValue r)) (PullPropValue typ) (FValue r)"
        by (rule mtrip_mono) (use 1 assms(3) in \<open>auto simp: fresh_def room_def\<close>)
      from mtrip_fin [OF this, where f = "\<lambda>v p. Inr (\<lparr>Flag = Flag r, FType = rtype, FValue = v\<rparr>, p)" and y = r]
      show ?thesis using 1 assms(2) by (cases r) simp
    next
      case 2
      then show ?thesis using mtrip_return [of fl fresh r] assms(1,2) by (cases r) simp
    next
      case 3
      then have r: "\<lparr>Flag = Flag r, FType = rtype, FValue = AUint32 ec\<rparr> = r" using assms(2) by (cases r) simp
      have "mtrip (4 + 0) fl fresh (\<lambda>q. Inr (PushUint32 q ec)) (\<lambda>p. bindr (PullUint32 p) (\<lambda>(ec, p). Inr (\<lparr>Flag = Flag r, FType = rtype, FValue = AUint32 ec\<rparr>, p))) r"
        by (rule mtrip_words(3) [where w = Inr]) (simp_all only: r mtrip_return fresh_cursor)
      then show ?thesis using 3 by (auto intro: mtrip_mono)
    next
      case 4
      then show ?thesis by (auto simp: mtrip_def split: any.splits)
    qed
  qed
  from mtrip_words(1) [of fresh 0 fl ?w ?f, OF fresh_cursor(1) this]
  show ?thesis by (simp add: pushFlagged_def [abs_def] pullFlagged_def [abs_def] Let_def)
qed

lemma flagged_trip:
  assumes "flagged_ok fl tag r"
  shows "mtrip 1 fl fresh (\<lambda>q. PushFlaggedPropVal q tag r) (PullFlaggedPropVal (TagType tag)) r"
proof (cases "TagType tag = PtUnspecified")
  case True
  define ty where "ty = (if Flag r = FlaggedUnavailable then 0 else if Flag r = FlaggedError then PtError else FType r)"
  have "mtrip 1 fl fresh (pushFlagged ty r) (pullFlagged ty ty) r"
    by (rule flagged_body_trip) (use assms True in \<open>auto simp: flagged_ok_def Let_def ty_def\<close>)
  from mtrip_words(2) [of fresh 1 fl _ "\<lambda>t. pullFlagged t t", OF fresh_cursor(1) this]
  have "mtrip 1 fl fresh (\<lambda>q. pushFlagged ty r (PushUint16 q ty)) (\<lambda>p. bindr (PullUint16 p) (\<lambda>(t, p). pullFlagged t t p)) r"
    by (rule mtrip_mono) simp_all
  then show ?thesis using True
    by (auto simp: mtrip_def PushFlaggedPropVal_def PullFlaggedPropVal_def [abs_def] ty_def Let_def split: if_splits)
next
  case False
  have "mtrip 1 fl fresh (pushFlagged (TagType tag) r) (pullFlagged (TagType tag) 0) r"
    by (rule flagged_body_trip) (use assms False in \<open>auto simp: flagged_ok_def Let_def\<close>)
  then show ?thesis using False by (simp add: PushFlaggedPropVal_def PullFlaggedPropVal_def [abs_def])
qed

section \<open>Properties\<close>

lemma mtrip_NewPush:
  assumes "mtrip m fl G w rd x" "w (NewPush fl) = Inr q" "\<And>b. G (NewPull b fl)"
  shows "rd (NewPull (buf q @ rest) fl) = Inr (x, adv (length (buf q)) (NewPull (buf q @ rest) fl))"
proof -
  have "pflags (NewPush fl) = fl" by (simp add: NewPush_def)
  from mtripE [OF assms(1) this assms(2)] obtain bs where
    bs: "q = PushRaw (NewPush fl) bs" "reads rd (\<lambda>p. rflags p = fl \<and> G p) bs x" by blast
  then show ?thesis using readsD [OF bs(2), of "NewPull (bs @ rest) fl" rest] assms(3) by (simp add: NewPush_def)
qed

text \<open>
  C3. A well-formed value that the property encoder accepts under a property type and a set of encoding flags is
  returned unchanged by the decoder from the bytes written, whatever follows them, and the decoder stops exactly behind
  them: single and multiple values, values carrying their own type, server ids, and restrictions and rule actions
  used as values, nested up to the two depth limits. Well formed (\<open>value_ok\<close>) means: no value under the null type
  (nor under the object type in address-book encoding); strings without NUL, of at most 509 bytes under the table
  limit, and where they are recoded to UTF-16 valid UTF-8 of at most 254 units under the table limit; eight bytes of
  \<^verbatim>\<open>Data4\<close> in a GUID; binaries of at most 65535 bytes unless counts are wide; at most $2^{32}-1$ elements; a server id
  that holds a binary (of at most 65534 bytes) has zero ids; an always-true restriction, a delete action and a mark-as-read action carry
  nothing; a move or copy inside the store names no store, and one to another store names it by an entry id with
  version 0, IV flag 0 and a provider id of sixteen bytes (the encoder writes that version and flag whatever the
  id holds); a reply template GUID is well formed.
\<close>

theorem property_value_roundtrip:
  assumes "value_ok fl t v" "PushPropValue (NewPush fl) t v = Inr q"
    "depth 1 0 v \<le> maxRestrictionDepth" "depth 0 1 v \<le> maxTypedValDepth"
  shows "PullPropValue t (NewPull (buf q @ rest) fl) = Inr (v, adv (length (buf q)) (NewPull (buf q @ rest) fl))"
proof -
  have "mtrip 0 fl (room v) (\<lambda>q. PushPropValue q t v) (PullPropValue t) v"
    using all_trips [of v] assms(1) by (simp add: value_trips_def)
  from mtrip_NewPush [OF this assms(2)] show ?thesis using assms(3,4) by (simp add: room_def NewPull_def)
qed

lemmas codec_eval = PushPropValue.simps pushValueOf.simps PushTypedPropVal.simps PushTaggedPropVal.simps PushRestriction.simps
  pushResValue.simps PushRuleActions.simps pushActionBlock.simps actionData.simps propWriters_def abkGated_def
  IsMultivalue_def TagType_def has_flag_def NewPush_def PushUint8_def PushUint16_def PushUint32_def PushRaw_def
  PushLen_def patchU16_def pushArr16_def pushArr32_def replicate_numeral_Cons byte_eval

lemmas ok_eval = value_ok.simps res_ok.simps act_ok.simps effective_def leaf_ok_def abkGated_def IsMultivalue_def
  has_flag_def TagType_def maxs_def

theorem property_value_roundtrip_witness:
  "PullPropValue PtUnspecified (NewPull ([3, 0, 7, 0, 0, 0] @ [1]) 0)
     = Inr (ATyped PtLong (AInt32 7), adv 6 (NewPull ([3, 0, 7, 0, 0, 0] @ [1]) 0))"
proof -
  have "PushPropValue (NewPush 0) PtUnspecified (ATyped PtLong (AInt32 7)) = Inr \<lparr>buf = [3, 0, 7, 0, 0, 0], pflags = 0\<rparr>"
    by (simp add: codec_eval)
  from property_value_roundtrip [OF _ this, of "[1]"] show ?thesis by (simp add: ok_eval)
qed

text \<open>
  C4. A well-formed search restriction nested at most one hundred levels, and a well-formed rule action list, that the
  encoder accepts are read back as they were written; the backpatched block lengths and the count checks never refuse
  what the encoder produced. Well formed (\<open>res_ok\<close>, \<open>act_ok\<close>) means: an always-true restriction, a delete action and a
  mark-as-read action carry nothing; fewer than $2^{32}$ branches; every property value inside is well formed in the
  sense of \<open>value_ok\<close> (strings without NUL and within the table limit, valid UTF-8 where recoded, binaries within
  their count field) and within both depth limits; a move or copy inside the store names no store and a folder server id with zero ids if it holds a binary,
  and one to another store an entry id with version 0, IV flag 0 and a provider id of sixteen bytes; a reply template
  GUID has eight bytes of \<^verbatim>\<open>Data4\<close>.
\<close>

theorem restriction_and_actions_roundtrip:
  assumes "res_ok fl (RType r) (RValue r)" "PushRestriction (NewPush fl) r = Inr q"
    "1 + depth 1 0 (RValue r) \<le> maxRestrictionDepth" "depth 0 1 (RValue r) \<le> maxTypedValDepth"
    "list_all (\<lambda>b. act_ok fl (AType b) (AData b)) bs" "PushRuleActions (NewPush fl) bs = Inr q'"
    "depth 1 0 (ARuleActions bs) \<le> maxRestrictionDepth" "depth 0 1 (ARuleActions bs) \<le> maxTypedValDepth"
  shows "PullRestriction (NewPull (buf q @ rest) fl) = Inr (r, adv (length (buf q)) (NewPull (buf q @ rest) fl))
    \<and> PullRuleActions (NewPull (buf q' @ rest) fl) = Inr (bs, adv (length (buf q')) (NewPull (buf q' @ rest) fl))"
proof
  have "mtrip 1 fl (room_res r) (\<lambda>q. PushRestriction q r) PullRestriction r"
    by (rule restriction_trip) (use all_trips assms(1) in auto)
  from mtrip_NewPush [OF this assms(2)]
  show "PullRestriction (NewPull (buf q @ rest) fl) = Inr (r, adv (length (buf q)) (NewPull (buf q @ rest) fl))"
    using assms(3,4) by (simp add: room_res_def NewPull_def)
  have "mtrip 0 fl (room (ARuleActions bs)) (\<lambda>q. PushRuleActions q bs) (pullAs ARuleActions PullRuleActions) (ARuleActions bs)"
    unfolding PullRuleActions_def by (rule actions_trip) (use all_trips assms(5) in \<open>auto simp: list_all_iff\<close>)
  from mtrip_NewPush [OF this assms(6)]
  have "pullAs ARuleActions PullRuleActions (NewPull (buf q' @ rest) fl) = Inr (ARuleActions bs, adv (length (buf q')) (NewPull (buf q' @ rest) fl))"
    using assms(7,8) by (simp add: room_def NewPull_def)
  then show "PullRuleActions (NewPull (buf q' @ rest) fl) = Inr (bs, adv (length (buf q')) (NewPull (buf q' @ rest) fl))"
    by (auto simp: pullAs_def)
qed

theorem restriction_and_actions_roundtrip_witness:
  "PullRestriction (NewPull ([2, 8, 31, 0, 55, 0] @ [5]) 0)
     = Inr (Restriction ResNot (ARestriction (Restriction ResExist (AExist 0x0037001F))), adv 6 (NewPull ([2, 8, 31, 0, 55, 0] @ [5]) 0))
   \<and> PullRuleActions (NewPull ([1, 0, 13, 0, 6, 0, 0, 0, 0, 0, 0, 0, 0, 13, 0, 0, 0] @ [5]) 0)
     = Inr ([ActionBlock OpBounce 0 0 (AUint32 13)], adv 17 (NewPull ([1, 0, 13, 0, 6, 0, 0, 0, 0, 0, 0, 0, 0, 13, 0, 0, 0] @ [5]) 0))"
proof -
  have r: "PushRestriction (NewPush 0) (Restriction ResNot (ARestriction (Restriction ResExist (AExist 0x0037001F))))
      = Inr \<lparr>buf = [2, 8, 31, 0, 55, 0], pflags = 0\<rparr>"
    by (simp add: codec_eval)
  have a: "PushRuleActions (NewPush 0) [ActionBlock OpBounce 0 0 (AUint32 13)]
      = Inr \<lparr>buf = [1, 0, 13, 0, 6, 0, 0, 0, 0, 0, 0, 0, 0, 13, 0, 0, 0], pflags = 0\<rparr>"
    by (simp add: codec_eval Let_def)
  from restriction_and_actions_roundtrip [OF _ r _ _ _ a, of "[5]"] show ?thesis by (simp add: ok_eval)
qed

text \<open>
  A row set written for a table query, and a single flagged column value (available, unavailable
  or an error code, with its type in front when the column asks for any type), are read back as they
  were written.
\<close>

lemma rows_and_columns_roundtrip:
  assumes "list_all (row_ok fl) rows" "length rows < 2 ^ 32" "PushTArraySet (NewPush fl) rows = Inr q"
    "flagged_ok fl tag r" "PushFlaggedPropVal (NewPush fl) tag r = Inr q'"
  shows "PullTArraySet (NewPull (buf q @ rest) fl) = Inr (rows, adv (length (buf q)) (NewPull (buf q @ rest) fl))
    \<and> PullFlaggedPropVal (TagType tag) (NewPull (buf q' @ rest) fl)
        = Inr (r, adv (length (buf q')) (NewPull (buf q' @ rest) fl))"
proof
  have "mtrip 4 fl fresh (\<lambda>q. PushTArraySet q rows) PullTArraySet rows"
    unfolding PushTArraySet_def PullTArraySet_def
    by (intro mtrip_arr32 mtrip_mono [OF row_trip]) (use assms(1,2) in \<open>auto simp: list_all_iff\<close>)
  from mtrip_NewPush [OF this assms(3)]
  show "PullTArraySet (NewPull (buf q @ rest) fl) = Inr (rows, adv (length (buf q)) (NewPull (buf q @ rest) fl))" by simp
  from mtrip_NewPush [OF flagged_trip [OF assms(4)] assms(5)]
  show "PullFlaggedPropVal (TagType tag) (NewPull (buf q' @ rest) fl)
      = Inr (r, adv (length (buf q')) (NewPull (buf q' @ rest) fl))" by simp
qed

text \<open>
  C5. The decoder of property values and restrictions ends on every buffer: the recursion bound of the
  model is never reached, and the readers satisfy the recursion equations of the source, in which a
  value, a restriction and a rule action call one another.
\<close>

theorem value_decoder_terminates:
  assumes "wf_pull p"
  shows "PullPropValue t p \<noteq> Inl ErrFuel \<and> PullRestriction p \<noteq> Inl ErrFuel
    \<and> PullPropValue t p = pullPropValue PullPropValue PullRestriction t p
    \<and> PullRestriction p = pullRestriction PullPropValue PullRestriction p"
  using Pull_eqs [OF assms] by blast

theorem value_decoder_terminates_witness:
  "PullPropValue PtActions (NewPull [1, 0, 255] 0) \<noteq> Inl ErrFuel
    \<and> PullRestriction (NewPull [1, 0, 255] 0) \<noteq> Inl ErrFuel"
proof -
  have "wf_pull (NewPull [1, 0, 255] 0)" by (simp add: wf_pull_def NewPull_def)
  from value_decoder_terminates [OF this, of PtActions] show ?thesis by blast
qed

section \<open>Nesting\<close>

text \<open>A rule action list inside a tag action inside a rule action list, and so on.\<close>

fun nested_actions :: "nat \<Rightarrow> any action_block list" where
  "nested_actions 0 = [ActionBlock OpDelete 0 0 ANil]"
| "nested_actions (Suc n) = [ActionBlock OpTag 0 0 (ATagged (TaggedPropVal 0xFE (ARuleActions (nested_actions n))))]"

fun nested_bytes :: "nat \<Rightarrow> bytes" where
  "nested_bytes 0 = [1, 0, 0, 0, 0x0A] @ replicate 8 0"
| "nested_bytes (Suc n) = ([1, 0, 0, 0, 9] @ replicate 8 0) @ [0xFE, 0, 0, 0] @ nested_bytes n"

lemma PullPropValue_actions:
  "wf_pull p \<Longrightarrow> PullPropValue (TagType 0xFE) p = pullAs ARuleActions PullRuleActions p"
  by (simp add: Pull_eqs(1) pullPropValue_def pullValueOf_def PullRuleActions_def abkGated_def TagType_def IsMultivalue_def)

lemma reads_nested: "reads PullRuleActions (\<lambda>p. True) (nested_bytes n) (nested_actions n)"
proof (induction n)
  case 0
  show ?case
    by (rule readsI) (simp add: PullRuleActions_def pullRuleActions_def pullCounted_def pullActionBlock_def actionReaders_def
      reader_eqs byte_eval)
next
  case (Suc n)
  show ?case
  proof (rule readsI)
    fix p rest assume p: "wf_pull p" "unread p = nested_bytes (Suc n) @ rest"
    then have "PullRuleActions (adv 17 p) = Inr (nested_actions n, adv (length (nested_bytes n)) (adv 17 p))"
      by (intro readsD [OF Suc, of _ rest]) simp_all
    then have "pullTaggedPropVal PullPropValue (adv 13 p)
        = Inr (TaggedPropVal 0xFE (ARuleActions (nested_actions n)), adv (17 + length (nested_bytes n)) p)"
      using p by (simp add: pullTaggedPropVal_def PullPropValue_actions pullAs_def reader_eqs)
    then show "PullRuleActions p = Inr (nested_actions (Suc n), adv (length (nested_bytes (Suc n))) p)"
      using p by (simp add: PullRuleActions_def pullRuleActions_def pullCounted_def pullActionBlock_def actionReaders_def
        pullAs_def reader_eqs byte_eval)
  qed
qed

text \<open>
  C39. Restrictions and self-typed values are refused beyond one hundred levels, rule actions are
  not: for every \<open>n\<close> there is a buffer of thirteen plus seventeen times \<open>n\<close> bytes that is read as one rule action list inside another \<open>n\<close> times, so the
  recursion of the decoder is bounded by its input only.
\<close>

theorem action_nesting_unlimited:
  "PullRuleActions (NewPull (nested_bytes n) fl) = Inr (nested_actions n, adv (length (nested_bytes n)) (NewPull (nested_bytes n) fl))
    \<and> length (nested_bytes n) = 13 + 17 * n"
proof -
  have "length (nested_bytes n) = 13 + 17 * n" by (induction n) auto
  then show ?thesis using readsD [OF reads_nested [of n], of "NewPull (nested_bytes n) fl" "[]"] by simp
qed

end
