(* ===== verification/Ics_Globset.thy ===== *)
theory Ics_Globset
  imports Mapi "HOL-Library.Multiset"
begin

text \<open>
  \<^verbatim>\<open>internal/ics/globset.go\<close>: the range set of one replica, and its operations. A \<^verbatim>\<open>rangeSet\<close> is the list of its \<^verbatim>\<open>nodes\<close>; the values stay 64-bit words, so
  \<^verbatim>\<open>hi + 1\<close> wraps as in the code. \<open>denote\<close> is the set of global counters a range set stands for.
\<close>

section \<open>Range sets\<close>

record range_node =
  lo :: u64
  hi :: u64

type_synonym range_set = "range_node list"

definition mk_range :: "u64 \<Rightarrow> u64 \<Rightarrow> range_node" where
  "mk_range l h = \<lparr>lo = l, hi = h\<rparr>"

definition rs_empty :: "range_set \<Rightarrow> bool" where
  "rs_empty rs \<longleftrightarrow> length rs = 0"

text \<open>
  \<open>sort.Slice\<close> sorts by \<^verbatim>\<open>lo\<close>; it is not stable, and the order it leaves among nodes of equal
  \<^verbatim>\<open>lo\<close> does not matter: see \<open>coalesce_any_order\<close>. The coalescing loop writes its output over
  the slots it has already read.
\<close>

definition coalesce_step :: "range_set \<Rightarrow> range_node \<Rightarrow> range_set" where
  "coalesce_step out nd =
     (if length out > 0 \<and> lo nd \<le> hi (last out) + 1
      then (if hi nd > hi (last out) then butlast out @ [(last out)\<lparr>hi := hi nd\<rparr>] else out)
      else out @ [nd])"

definition coalesce :: "range_set \<Rightarrow> range_set" where
  "coalesce nodes = foldl coalesce_step [] nodes"

definition insert_range :: "range_set \<Rightarrow> u64 \<Rightarrow> u64 \<Rightarrow> range_set" where
  "insert_range rs l h = coalesce (sort_key lo (rs @ [mk_range l h]))"

definition appendRaw :: "range_set \<Rightarrow> u64 \<Rightarrow> u64 \<Rightarrow> range_set" where
  "appendRaw rs l h = rs @ [mk_range l h]"

fun erase :: "range_set \<Rightarrow> u64 \<Rightarrow> range_set" where
  "erase [] v = []"
| "erase (nd # rs) v =
     (if v < lo nd \<or> v > hi nd then nd # erase rs v
      else (if v > lo nd then [mk_range (lo nd) (v - 1)] else [])
         @ (if v < hi nd then [mk_range (v + 1) (hi nd)] else []) @ erase rs v)"

fun rs_contains :: "range_set \<Rightarrow> u64 \<Rightarrow> bool" where
  "rs_contains [] v \<longleftrightarrow> False"
| "rs_contains (nd # rs) v \<longleftrightarrow> (if v \<ge> lo nd \<and> v \<le> hi nd then True else rs_contains rs v)"

text \<open>One iteration of the loop of \<^verbatim>\<open>appendBitmask\<close>: bit \<open>i\<close> of the mask, on (set, pending range, active).\<close>

definition bitmask_step ::
  "u64 \<Rightarrow> u8 \<Rightarrow> nat \<Rightarrow> range_set \<times> bool \<times> u64 \<times> u64 \<Rightarrow> range_set \<times> bool \<times> u64 \<times> u64" where
  "bitmask_step low m i = (\<lambda>(rs, pendActive, pendLo, pendHi).
     if m AND push_bit i 1 = 0
     then (if pendActive then (appendRaw rs pendLo pendHi, False, pendLo, pendHi)
           else (rs, pendActive, pendLo, pendHi))
     else if pendActive then (rs, pendActive, pendLo, pendHi + 1)
     else (let v = low + of_nat i + 1 in (rs, True, v, v)))"

definition appendBitmask :: "range_set \<Rightarrow> u64 \<Rightarrow> u8 \<Rightarrow> range_set" where
  "appendBitmask rs low m =
     (case fold (bitmask_step low m) [0..<8] (rs, True, low, low) of
        (rs, pendActive, pendLo, pendHi) \<Rightarrow> if pendActive then appendRaw rs pendLo pendHi else rs)"

section \<open>What a range set stands for\<close>

definition node_ok :: "range_node \<Rightarrow> bool" where
  "node_ok nd \<longleftrightarrow> lo nd \<le> hi nd \<and> unat (hi nd) < 2 ^ 48"

definition span :: "range_node \<Rightarrow> nat set" where
  "span nd = {unat (lo nd) .. unat (hi nd)}"

definition denote :: "range_set \<Rightarrow> nat set" where
  "denote rs = (\<Union>nd\<in>set rs. span nd)"

text \<open>The coalescing invariant: ascending, with a gap of at least one value between neighbours.\<close>

definition apart :: "range_node \<Rightarrow> range_node \<Rightarrow> bool" where
  "apart a b \<longleftrightarrow> unat (hi a) + 1 < unat (lo b)"

definition coalesced :: "range_set \<Rightarrow> bool" where
  "coalesced rs \<longleftrightarrow> list_all node_ok rs \<and> sorted_wrt apart rs"

lemma denote_simps [simp]:
  "denote [] = {}" "denote (nd # rs) = span nd \<union> denote rs" "denote (xs @ ys) = denote xs \<union> denote ys"
  by (auto simp: denote_def)

lemma sel_mk_range [simp]: "lo (mk_range l h) = l" "hi (mk_range l h) = h"
  by (simp_all add: mk_range_def)

lemma mk_range_eta [simp]: "mk_range (lo nd) (hi nd) = nd"
  by (simp add: mk_range_def)

lemma unat_suc: "unat (v :: u64) < 2 ^ 48 \<Longrightarrow> unat (v + 1) = unat v + 1"
  by (simp add: unat_word_ariths)

lemma unat_pred: "v > (l :: u64) \<Longrightarrow> unat (v - 1) = unat v - 1"
  by (rule unat_minus_one) auto

lemma node_ok_nat: "node_ok nd \<longleftrightarrow> unat (lo nd) \<le> unat (hi nd) \<and> unat (hi nd) < 2 ^ 48"
  by (simp add: node_ok_def word_le_nat_alt)

lemma span_nonempty: "node_ok nd \<Longrightarrow> unat (lo nd) \<in> span nd \<and> unat (hi nd) \<in> span nd"
  by (simp add: span_def node_ok_nat)

lemma rs_contains_denote: "rs_contains rs v \<longleftrightarrow> unat v \<in> denote rs"
  by (induction rs) (auto simp: span_def word_le_nat_alt)

lemma denote_bound: "list_all node_ok rs \<Longrightarrow> n \<in> denote rs \<Longrightarrow> n < 2 ^ 48"
  by (auto simp: denote_def span_def list_all_iff node_ok_nat)

subsection \<open>Coalescing\<close>

lemma coalesced_snoc:
  "coalesced (rs @ [nd]) \<longleftrightarrow> coalesced rs \<and> node_ok nd \<and> (\<forall>a\<in>set rs. apart a nd)"
  by (auto simp: coalesced_def sorted_wrt_append)

lemma coalesced_apart_last:
  assumes "coalesced rs" "rs \<noteq> []" "unat (hi (last rs)) + 1 < n" "a \<in> set rs"
  shows "unat (hi a) + 1 < n"
proof (cases "a = last rs")
  case False
  from assms(2) have "rs = butlast rs @ [last rs]" by simp
  with assms(1) have *: "node_ok (last rs)" "\<forall>a\<in>set (butlast rs). apart a (last rs)"
    using coalesced_snoc [of "butlast rs" "last rs"] by simp_all
  have "a \<in> set (butlast rs)" using assms(4) False \<open>rs = _\<close>
    by (metis Un_iff list.set(1) list.set(2) set_append singletonD insertE empty_iff)
  with * assms(3) show ?thesis by (auto simp: apart_def node_ok_nat)
qed (use assms in simp)

text \<open>One step of the loop: the next node starts no lower than the last one emitted.\<close>

lemma coalesce_step_ok:
  assumes "coalesced out" "node_ok nd" "out \<noteq> [] \<Longrightarrow> unat (lo (last out)) \<le> unat (lo nd)"
  shows "coalesced (coalesce_step out nd)"
    and "denote (coalesce_step out nd) = denote out \<union> span nd"
    and "coalesce_step out nd \<noteq> []" and "unat (lo (last (coalesce_step out nd))) \<le> unat (lo nd)"
proof -
  have "coalesced (coalesce_step out nd) \<and> denote (coalesce_step out nd) = denote out \<union> span nd
      \<and> coalesce_step out nd \<noteq> [] \<and> unat (lo (last (coalesce_step out nd))) \<le> unat (lo nd)"
  proof (cases "out = []")
    case True
    with assms(2) show ?thesis by (simp add: coalesce_step_def coalesced_def)
  next
    case False
    define b l where "b = butlast out" and "l = last out"
    have out: "out = b @ [l]" using False by (simp add: b_def l_def)
    have ok: "coalesced b" "node_ok l" "\<forall>a\<in>set b. apart a l"
      using assms(1) by (simp_all add: out coalesced_snoc)
    have le: "unat (lo l) \<le> unat (lo nd)" using assms(3) False by (simp add: l_def)
    have cond: "lo nd \<le> hi l + 1 \<longleftrightarrow> unat (lo nd) \<le> unat (hi l) + 1"
      using ok(2) by (simp add: word_le_nat_alt unat_suc node_ok_nat)
    show ?thesis
    proof (cases "lo nd \<le> hi l + 1")
      case True
      then show ?thesis using ok le assms(2) cond
        by (auto simp: coalesce_step_def out coalesced_snoc node_ok_nat apart_def span_def word_less_nat_alt)
    next
      case F: False
      have "\<forall>a\<in>set out. apart a nd"
        using coalesced_apart_last [OF assms(1) False] F cond by (simp add: apart_def l_def)
      then show ?thesis using F assms(1,2) ok cond
        by (simp add: coalesce_step_def out) (simp add: coalesced_snoc coalesced_def sorted_wrt_append Un_assoc)
    qed
  qed
  then show "coalesced (coalesce_step out nd)" "denote (coalesce_step out nd) = denote out \<union> span nd"
    "coalesce_step out nd \<noteq> []" "unat (lo (last (coalesce_step out nd))) \<le> unat (lo nd)" by simp_all
qed

lemma coalesce_fold_ok:
  assumes "list_all node_ok ns" "sorted (map lo ns)" "coalesced out"
    "out \<noteq> [] \<Longrightarrow> ns \<noteq> [] \<Longrightarrow> unat (lo (last out)) \<le> unat (lo (hd ns))"
  shows "coalesced (foldl coalesce_step out ns) \<and> denote (foldl coalesce_step out ns) = denote out \<union> denote ns"
  using assms
proof (induction ns arbitrary: out)
  case (Cons nd ns)
  have le: "out \<noteq> [] \<Longrightarrow> unat (lo (last out)) \<le> unat (lo nd)" and nd: "node_ok nd"
    using Cons.prems by auto
  note step = coalesce_step_ok [OF Cons.prems(3) nd le]
  have "ns \<noteq> [] \<Longrightarrow> unat (lo nd) \<le> unat (lo (hd ns))"
    using Cons.prems(2) by (cases ns) (auto simp: word_le_nat_alt)
  then show ?case
    using Cons.IH [of "coalesce_step out nd"] Cons.prems step by (auto intro: order_trans)
qed simp

lemma coalesce_ok:
  "list_all node_ok ns \<Longrightarrow> sorted (map lo ns) \<Longrightarrow> coalesced (coalesce ns) \<and> denote (coalesce ns) = denote ns"
  unfolding coalesce_def using coalesce_fold_ok [of ns "[]"] by (simp add: coalesced_def)

lemma coalesce_sorted_perm:
  assumes "list_all node_ok ns" "mset ms = mset ns" "sorted (map lo ms)"
  shows "coalesced (coalesce ms) \<and> denote (coalesce ms) = denote ns"
proof -
  have "set ms = set ns" using assms(2) by (metis set_mset_mset)
  then have "list_all node_ok ms" "denote ms = denote ns" using assms(1) by (simp_all add: list_all_iff denote_def)
  with coalesce_ok [of ms] assms(3) show ?thesis by simp
qed

subsection \<open>Coalesced range sets are canonical\<close>

lemma coalesced_Cons:
  "coalesced (a # rs) \<longleftrightarrow> node_ok a \<and> coalesced rs \<and> (\<forall>b\<in>set rs. apart a b)"
  by (auto simp: coalesced_def)

lemma denote_above: "coalesced (a # rs) \<Longrightarrow> n \<in> denote rs \<Longrightarrow> unat (hi a) + 1 < n"
  by (fastforce simp: coalesced_Cons denote_def span_def apart_def)

lemma node_eqI: "unat (lo a) = unat (lo b) \<Longrightarrow> unat (hi a) = unat (hi b) \<Longrightarrow> a = (b :: range_node)"
  by (simp add: word_unat_eq_iff)

lemma coalesced_heads:
  assumes "coalesced (a # as)" "coalesced (b # bs)" "denote (a # as) = denote (b # bs)"
  shows "a = b"
proof (rule node_eqI)
  have a: "node_ok a" and b: "node_ok b" using assms(1,2) by (simp_all add: coalesced_Cons)
  have mina: "unat (lo a) \<le> n" if "n \<in> denote (a # as)" for n
    using that denote_above [OF assms(1), of n] a by (auto simp: span_def node_ok_nat)
  have minb: "unat (lo b) \<le> n" if "n \<in> denote (b # bs)" for n
    using that denote_above [OF assms(2), of n] b by (auto simp: span_def node_ok_nat)
  show lo: "unat (lo a) = unat (lo b)"
  proof (rule antisym)
    show "unat (lo a) \<le> unat (lo b)"
      by (rule mina) (use span_nonempty [OF b] assms(3) in auto)
    show "unat (lo b) \<le> unat (lo a)"
      by (rule minb) (use span_nonempty [OF a] assms(3) in auto)
  qed
  have gap: "Suc (unat (hi a)) \<notin> denote (a # as)" "Suc (unat (hi b)) \<notin> denote (b # bs)"
    using denote_above [OF assms(1)] denote_above [OF assms(2)] by (fastforce simp: span_def)+
  show "unat (hi a) = unat (hi b)"
  proof (rule ccontr)
    assume "unat (hi a) \<noteq> unat (hi b)"
    then have "Suc (unat (hi a)) \<in> span b \<or> Suc (unat (hi b)) \<in> span a"
      using lo a b by (simp add: span_def node_ok_nat) linarith
    then show False using gap assms(3) by auto
  qed
qed

lemma coalesced_unique:
  "coalesced as \<Longrightarrow> coalesced bs \<Longrightarrow> denote as = denote bs \<Longrightarrow> as = bs"
proof (induction as arbitrary: bs)
  case Nil
  then show ?case by (cases bs) (auto simp: coalesced_Cons dest: span_nonempty)
next
  case (Cons a as)
  then obtain b bs' where bs: "bs = b # bs'"
    by (cases bs) (auto simp: coalesced_Cons dest: span_nonempty)
  have ab: "a = b" using Cons.prems coalesced_heads by (simp add: bs)
  have "denote as = denote bs'"
  proof -
    have "span a \<inter> denote as = {}" "span b \<inter> denote bs' = {}"
      using denote_above Cons.prems(1,2) by (fastforce simp: bs span_def)+
    then show ?thesis using Cons.prems(3) ab by (auto simp: bs)
  qed
  then show ?case using Cons.IH [of bs'] Cons.prems ab by (simp add: bs coalesced_Cons)
qed

text \<open>
  Whatever order \<^verbatim>\<open>sort.Slice\<close> leaves among equal lower bounds, the coalesced result is the same.
\<close>

lemma coalesce_any_order:
  assumes "list_all node_ok ns" "mset ms = mset ns" "sorted (map lo ms)"
  shows "coalesce ms = coalesce (sort_key lo ns)"
  using coalesce_sorted_perm [OF assms] coalesce_sorted_perm [OF assms(1), of "sort_key lo ns"]
  by (intro coalesced_unique) simp_all

lemma insert_range_ok:
  assumes "list_all node_ok rs" "l \<le> h" "unat h < 2 ^ 48"
  shows "coalesced (insert_range rs l h)" "denote (insert_range rs l h) = denote rs \<union> {unat l .. unat h}"
  using coalesce_sorted_perm [of "rs @ [mk_range l h]" "sort_key lo (rs @ [mk_range l h])"] assms
  by (simp_all add: insert_range_def node_ok_def span_def)

subsection \<open>Erasing\<close>

lemma erase_apart: "a \<in> set (erase rs v) \<Longrightarrow> list_all node_ok rs \<Longrightarrow>
    \<exists>b\<in>set rs. unat (lo b) \<le> unat (lo a) \<and> unat (hi a) \<le> unat (hi b)"
  by (induction rs)
    (auto simp: word_less_nat_alt unat_suc unat_pred node_ok_nat split: if_splits)

lemma erase_denote: "list_all node_ok rs \<Longrightarrow> denote (erase rs v) = denote rs - {unat v}"
proof (induction rs)
  case (Cons nd rs)
  show ?case
  proof (cases "v < lo nd \<or> v > hi nd")
    case True
    then have "unat v \<notin> span nd" by (auto simp: span_def word_less_nat_alt)
    then show ?thesis using True Cons by auto
  next
    case False
    then have v: "unat (lo nd) \<le> unat v" "unat v \<le> unat (hi nd)" "unat v < 2 ^ 48"
      using Cons.prems by (auto simp: word_less_nat_alt node_ok_nat)
    let ?parts = "(if v > lo nd then [mk_range (lo nd) (v - 1)] else [])
         @ (if v < hi nd then [mk_range (v + 1) (hi nd)] else [])"
    have parts: "denote ?parts = span nd - {unat v}"
      using v by (auto simp: span_def word_less_nat_alt unat_suc unat_pred)
    have "erase (nd # rs) v = ?parts @ erase rs v" using False by simp
    moreover have "denote (erase rs v) = denote rs - {unat v}" using Cons by simp
    ultimately show ?thesis using parts by (simp only: denote_simps) blast
  qed
qed simp

lemma erase_node_ok: "list_all node_ok rs \<Longrightarrow> list_all node_ok (erase rs v)"
  by (induction rs) (auto simp: node_ok_nat word_less_nat_alt unat_suc unat_pred)

lemma erase_ok: "coalesced rs \<Longrightarrow> coalesced (erase rs v)"
proof (induction rs)
  case (Cons nd rs)
  have nd: "node_ok nd" "coalesced rs" "\<forall>b\<in>set rs. apart nd b" "coalesced (erase rs v)"
    using Cons by (simp_all add: coalesced_Cons)
  have after: "Suc (unat (hi nd)) < unat (lo a)" if "a \<in> set (erase rs v)" for a
    using erase_apart [OF that] nd(2,3) by (force simp: coalesced_def apart_def)
  show ?case
  proof (cases "v < lo nd \<or> v > hi nd")
    case True
    then show ?thesis using nd after by (simp add: coalesced_Cons apart_def)
  next
    case False
    then show ?thesis using nd after
      by (auto simp: coalesced_Cons node_ok_nat word_less_nat_alt unat_suc unat_pred apart_def
          dest!: after)
  qed
qed simp

subsection \<open>Bitmask ranges\<close>

definition mask_values :: "nat \<Rightarrow> u8 \<Rightarrow> nat \<Rightarrow> nat set" where
  "mask_values low m n = insert low {low + i + 1 | i. i < n \<and> bit m i}"

lemma mask_values_0 [simp]: "mask_values low m 0 = {low}"
  by (simp add: mask_values_def)

lemma mask_values_Suc:
  "mask_values low m (Suc n) = mask_values low m n \<union> (if bit m n then {low + n + 1} else {})"
  by (auto simp: mask_values_def less_Suc_eq)

lemma mask_bit: "m AND 2 ^ i = 0 \<longleftrightarrow> \<not> bit (m :: u8) i"
  by (simp add: and_exp_eq_0_iff_not_bit)

definition bitmask_inv :: "u64 \<Rightarrow> u8 \<Rightarrow> nat \<Rightarrow> range_set \<Rightarrow> bool \<Rightarrow> u64 \<Rightarrow> u64 \<Rightarrow> bool" where
  "bitmask_inv low m n ns act pl ph \<longleftrightarrow> sorted_wrt apart ns \<and> (\<forall>a\<in>set ns. lo a \<le> hi a) \<and>
     (if act then unat ph = unat low + n \<and> unat pl \<le> unat ph \<and> (\<forall>a\<in>set ns. unat (hi a) + 1 < unat pl)
        \<and> denote ns \<union> {unat pl .. unat ph} = mask_values (unat low) m n
      else (\<forall>a\<in>set ns. unat (hi a) < unat low + n) \<and> denote ns = mask_values (unat low) m n)"

lemma bitmask_fold:
  assumes "unat low < 2 ^ 48" "n \<le> 8"
  shows "\<exists>ns act pl ph. fold (bitmask_step low m) [0..<n] (rs, True, low, low) = (rs @ ns, act, pl, ph)
    \<and> bitmask_inv low m n ns act pl ph"
  using assms(2)
proof (induction n)
  case 0
  then show ?case by (auto simp: bitmask_inv_def)
next
  case (Suc n)
  then obtain ns act pl ph where IH:
    "fold (bitmask_step low m) [0..<n] (rs, True, low, low) = (rs @ ns, act, pl, ph)"
    "bitmask_inv low m n ns act pl ph" by auto
  have un: "unat (low + of_nat n + 1) = unat low + n + 1"
    using assms(1) Suc.prems by (simp add: unat_word_ariths)
  have step: "fold (bitmask_step low m) [0..<Suc n] (rs, True, low, low)
      = bitmask_step low m n (rs @ ns, act, pl, ph)" by (simp add: IH(1))
  consider "bit m n" act | "bit m n" "\<not> act" | "\<not> bit m n" act | "\<not> bit m n" "\<not> act" by blast
  then show ?case
  proof cases
    case 1
    then have "unat (ph + 1) = unat ph + 1"
      using assms(1) IH(2) Suc.prems by (simp add: bitmask_inv_def unat_word_ariths)
    moreover from this have "{unat pl .. unat (ph + 1)} = {unat pl .. unat ph} \<union> {unat low + n + 1}"
      using IH(2) 1 by (auto simp: bitmask_inv_def)
    ultimately show ?thesis unfolding step using 1 IH(2)
      by (auto simp: bitmask_step_def mask_bit bitmask_inv_def mask_values_Suc)
  next
    case 2
    then have "bitmask_inv low m (Suc n) ns True (low + of_nat n + 1) (low + of_nat n + 1)"
      using IH(2) un by (auto simp: bitmask_inv_def mask_values_Suc)
    then show ?thesis unfolding step using 2 by (auto simp: bitmask_step_def mask_bit Let_def)
  next
    case 3
    then have "bitmask_inv low m (Suc n) (ns @ [mk_range pl ph]) False pl ph"
      using IH(2) by (auto simp: bitmask_inv_def mask_values_Suc sorted_wrt_append apart_def span_def word_le_nat_alt)
    moreover have "bitmask_step low m n (rs @ ns, act, pl, ph) = (rs @ (ns @ [mk_range pl ph]), False, pl, ph)"
      using 3 by (simp add: bitmask_step_def mask_bit appendRaw_def)
    ultimately show ?thesis unfolding step by blast
  next
    case 4
    then have "bitmask_inv low m (Suc n) ns False pl ph"
      using IH(2) by (auto simp: bitmask_inv_def mask_values_Suc)
    then show ?thesis unfolding step using 4 by (auto simp: bitmask_step_def mask_bit)
  qed
qed

lemma appendBitmask_ok:
  assumes "unat low < 2 ^ 48"
  shows "\<exists>ns. appendBitmask rs low m = rs @ ns \<and> sorted_wrt apart ns \<and> (\<forall>a\<in>set ns. lo a \<le> hi a)
    \<and> denote ns = mask_values (unat low) m 8"
proof -
  obtain ns act pl ph where f: "fold (bitmask_step low m) [0..<8] (rs, True, low, low) = (rs @ ns, act, pl, ph)"
    "bitmask_inv low m 8 ns act pl ph" using bitmask_fold [OF assms, of 8] by blast
  show ?thesis
  proof (cases act)
    case True
    then show ?thesis using f(2)
      by (intro exI [of _ "ns @ [mk_range pl ph]"])
        (auto simp: appendBitmask_def f(1) appendRaw_def bitmask_inv_def sorted_wrt_append apart_def
          span_def word_le_nat_alt)
  next
    case False
    then show ?thesis using f(2)
      by (intro exI [of _ ns]) (auto simp: appendBitmask_def f(1) bitmask_inv_def)
  qed
qed

section \<open>Properties\<close>

text \<open>
  C18. \<^verbatim>\<open>rangeSet.insert\<close> on any set of well-formed 48-bit ranges (coalesced or decoded raw) yields
  the coalesced set that stands for the union of the old values and the new interval. The
  result does not depend on how the unstable sort orders ranges of equal lower bound.
\<close>

theorem range_insert_coalesces:
  assumes "list_all node_ok rs" "l \<le> h" "unat h < 2 ^ 48"
  shows "coalesced (insert_range rs l h)
    \<and> denote (insert_range rs l h) = denote rs \<union> {unat l .. unat h}
    \<and> (\<forall>v. rs_contains (insert_range rs l h) v \<longleftrightarrow> rs_contains rs v \<or> l \<le> v \<and> v \<le> h)
    \<and> (\<forall>ms. mset ms = mset (rs @ [mk_range l h]) \<longrightarrow> sorted (map lo ms) \<longrightarrow> coalesce ms = insert_range rs l h)"
proof (intro conjI allI impI)
  note ok = insert_range_ok [OF assms]
  show "coalesced (insert_range rs l h)" "denote (insert_range rs l h) = denote rs \<union> {unat l .. unat h}"
    by (rule ok)+
  show "rs_contains (insert_range rs l h) v \<longleftrightarrow> rs_contains rs v \<or> l \<le> v \<and> v \<le> h" for v
    by (simp add: rs_contains_denote ok(2) word_le_nat_alt)
  show "coalesce ms = insert_range rs l h"
    if "mset ms = mset (rs @ [mk_range l h])" "sorted (map lo ms)" for ms
    unfolding insert_range_def using that assms by (intro coalesce_any_order) (simp_all add: node_ok_def)
qed

theorem range_insert_coalesces_witness:
  "coalesced (insert_range [mk_range 9 12, mk_range 1 3] 4 7)
   \<and> insert_range [mk_range 9 12, mk_range 1 3] 4 7 = [mk_range 1 7, mk_range 9 12]"
proof -
  have "insert_range [mk_range 9 12, mk_range 1 3] 4 7 = [mk_range 1 7, mk_range 9 12]" by code_simp
  then show ?thesis
    using range_insert_coalesces [of "[mk_range 9 12, mk_range 1 3]" 4 7] by (simp add: node_ok_def)
qed

text \<open>
  C19. \<^verbatim>\<open>rangeSet.erase\<close> keeps a coalesced set coalesced and removes exactly the given value; two
  coalesced sets with the same values are the same list of ranges, so erasing a value and
  inserting it again restores the set.
\<close>

theorem range_erase_removes:
  assumes "coalesced rs"
  shows "coalesced (erase rs v) \<and> denote (erase rs v) = denote rs - {unat v}
    \<and> (\<forall>w. rs_contains (erase rs v) w \<longleftrightarrow> rs_contains rs w \<and> w \<noteq> v)
    \<and> (rs_contains rs v \<longrightarrow> insert_range (erase rs v) v v = rs)"
proof (intro conjI allI impI)
  show e: "coalesced (erase rs v)" "denote (erase rs v) = denote rs - {unat v}"
    using assms erase_ok [OF assms] erase_denote [of rs] by (simp_all add: coalesced_def)
  show "rs_contains (erase rs v) w \<longleftrightarrow> rs_contains rs w \<and> w \<noteq> v" for w
    by (auto simp: rs_contains_denote e(2) word_unat_eq_iff)
  assume "rs_contains rs v"
  then have v: "unat v \<in> denote rs" by (simp add: rs_contains_denote)
  then have "unat v < 2 ^ 48" using assms denote_bound [of rs] by (simp add: coalesced_def)
  then have "coalesced (insert_range (erase rs v) v v)"
      "denote (insert_range (erase rs v) v v) = denote rs - {unat v} \<union> {unat v}"
    using insert_range_ok [of "erase rs v" v v] e by (simp_all add: coalesced_def)
  then show "insert_range (erase rs v) v v = rs" using assms v by (intro coalesced_unique) auto
qed

theorem range_erase_removes_witness:
  "erase [mk_range 1 7] 4 = [mk_range 1 3, mk_range 5 7] \<and> coalesced (erase [mk_range 1 7] 4)
   \<and> insert_range (erase [mk_range 1 7] 4) 4 4 = [mk_range 1 7]"
proof -
  have "erase [mk_range 1 7] 4 = [mk_range 1 3, mk_range 5 7]" "rs_contains [mk_range 1 7] 4" by code_simp+
  then show ?thesis
    using range_erase_removes [of "[mk_range 1 7]" 4] by (simp add: coalesced_def node_ok_def)
qed

text \<open>
  The decode-only bitmask command appends ascending, non-adjacent ranges that stand for
  exactly the base value and \<^verbatim>\<open>low + i + 1\<close> for every set bit \<^verbatim>\<open>i\<close> of the mask.
\<close>

lemma bitmask_denotes:
  assumes "unat low < 2 ^ 48"
  shows "\<exists>ns. appendBitmask rs low m = rs @ ns \<and> sorted_wrt apart ns \<and> (\<forall>a\<in>set ns. lo a \<le> hi a)
    \<and> denote ns = insert (unat low) {unat low + i + 1 | i. i < 8 \<and> bit m i}"
  using appendBitmask_ok [OF assms] by (simp add: mask_values_def)

end
