(* ===== verification/Ics_Globcodec.thy ===== *)
theory Ics_Globcodec
  imports Ics_Globset
begin

text \<open>
  The GLOBSET command stream of \<^verbatim>\<open>internal/ics/globset.go\<close>: the encoder with its two levels of
  common prefixes, and the decoder with its stack of common bytes.
\<close>

section \<open>Encoding\<close>

abbreviation (input) glbEnd :: u8 where "glbEnd \<equiv> 0x00"
abbreviation (input) glbBitmask :: u8 where "glbBitmask \<equiv> 0x42"
abbreviation (input) glbPop :: u8 where "glbPop \<equiv> 0x50"
abbreviation (input) glbRange :: u8 where "glbRange \<equiv> 0x52"

fun commonPrefixLen :: "glob_cnt \<Rightarrow> glob_cnt \<Rightarrow> nat" where
  "commonPrefixLen (a # as) (b # bs) = (if a = b then Suc (commonPrefixLen as bs) else 0)"
| "commonPrefixLen _ _ = 0"

definition pushCmd :: "bytes \<Rightarrow> nat \<Rightarrow> bytes \<Rightarrow> bytes" where
  "pushCmd out n common = out @ [of_nat n] @ common"

definition rangeCmd :: "bytes \<Rightarrow> bytes \<Rightarrow> bytes \<Rightarrow> bytes" where
  "rangeCmd out l h = out @ [glbRange] @ l @ h"

definition appendNodeUnder :: "bytes \<Rightarrow> range_node \<Rightarrow> nat \<Rightarrow> bytes" where
  "appendNodeUnder out nd stackLen =
     (let loGC = ValueToGC (lo nd) in
      if hi nd = lo nd then pushCmd out (6 - stackLen) (drop stackLen loGC)
      else
        (let hiGC = ValueToGC (hi nd);
             i = stackLen + commonPrefixLen (drop stackLen loGC) (drop stackLen hiGC);
             out = (if i > stackLen then pushCmd out (i - stackLen) (take (i - stackLen) (drop stackLen loGC)) else out);
             out = rangeCmd out (drop i loGC) (drop i hiGC)
         in if i > stackLen then out @ [glbPop] else out))"

definition serializeGlobset :: "range_set \<Rightarrow> bytes" where
  "serializeGlobset nodes =
     (case nodes of
        [] \<Rightarrow> [glbEnd]
      | [nd] \<Rightarrow>
          (let loGC = ValueToGC (lo nd) in
           (if hi nd = lo nd then pushCmd [] 6 loGC
            else rangeCmd [] loGC (ValueToGC (hi nd))) @ [glbEnd])
      | _ \<Rightarrow>
          (let frontGC = ValueToGC (lo (hd nodes));
               backGC = ValueToGC (hi (last nodes));
               stackLen = commonPrefixLen frontGC backGC;
               out = (if stackLen \<noteq> 0 then pushCmd [] stackLen (take stackLen frontGC) else []);
               out = foldl (\<lambda>out nd. appendNodeUnder out nd stackLen) out nodes;
               out = (if stackLen \<noteq> 0 then out @ [glbPop] else out)
           in out @ [glbEnd]))"

section \<open>Decoding\<close>

text \<open>
  A frame's fixed \<^verbatim>\<open>[6]byte\<close> array and its fill count \<^verbatim>\<open>n\<close>; \<open>go_copy\<close> is Go's \<^verbatim>\<open>copy(dst[t:], src)\<close>.
\<close>

record glob_frame =
  fn :: nat
  fbytes :: bytes

record globset_decoder =
  gdata :: bytes
  goff :: nat
  gstack :: "glob_frame list"
  grs :: range_set

definition go_copy :: "bytes \<Rightarrow> nat \<Rightarrow> bytes \<Rightarrow> bytes" where
  "go_copy dst t src = take t dst @ take (length dst - t) src @ drop (t + length src) dst"

definition common :: "globset_decoder \<Rightarrow> glob_cnt \<times> nat" where
  "common d = foldl (\<lambda>(gc, t) f. (go_copy gc t (take (fn f) (fbytes f)), t + fn f)) (replicate 6 0, 0) (gstack d)"

definition d_pop :: "globset_decoder \<Rightarrow> globset_decoder" where
  "d_pop d = (if length (gstack d) > 0 then d\<lparr>gstack := butlast (gstack d)\<rparr> else d)"

definition d_push :: "globset_decoder \<Rightarrow> nat \<Rightarrow> bool \<times> globset_decoder" where
  "d_push d n =
     (if goff d + n > length (gdata d) then (True, d)
      else (case common d of (_, cur) \<Rightarrow>
        if cur + n > 6 then (True, d)
        else
          (let f = \<lparr>fn = n, fbytes = go_copy (replicate 6 0) 0 (take n (drop (goff d) (gdata d)))\<rparr>;
               d = d\<lparr>goff := goff d + n, gstack := gstack d @ [f]\<rparr>
           in if cur + n = 6
              then (let x = GCToValue (fst (common d))
                    in (False, d_pop (d\<lparr>grs := appendRaw (grs d) x x\<rparr>)))
              else (False, d))))"

definition d_bitmask :: "globset_decoder \<Rightarrow> bool \<times> globset_decoder" where
  "d_bitmask d =
     (case common d of (gc, cur) \<Rightarrow>
      if cur \<noteq> 5 \<or> goff d + 2 > length (gdata d) then (True, d)
      else
        (let gc = gc[5 := gdata d ! goff d];
             m = gdata d ! (goff d + 1)
         in (False, d\<lparr>goff := goff d + 2, grs := appendBitmask (grs d) (GCToValue gc) m\<rparr>)))"

definition readRange :: "globset_decoder \<Rightarrow> bool \<times> globset_decoder" where
  "readRange d =
     (case common d of (gc, cur) \<Rightarrow>
      if cur > 6 then (True, d)
      else
        (let cnt = 6 - cur in
         if goff d + 2 * cnt > length (gdata d) then (True, d)
         else
           (let loGC = go_copy gc cur (take cnt (drop (goff d) (gdata d)));
                hiGC = go_copy gc cur (take cnt (drop (goff d + cnt) (gdata d)))
            in (False, d\<lparr>goff := goff d + 2 * cnt,
                  grs := appendRaw (grs d) (GCToValue loGC) (GCToValue hiGC)\<rparr>))))"

definition command :: "globset_decoder \<Rightarrow> u8 \<Rightarrow> bool \<times> globset_decoder" where
  "command d cmd =
     (if cmd \<ge> 0x01 \<and> cmd \<le> 0x06 then d_push d (unat cmd)
      else if cmd = glbBitmask then d_bitmask d
      else if cmd = glbPop then (False, d_pop d)
      else if cmd = glbRange then readRange d
      else (True, d))"

lemma command_cursor:
  "command d c = (s, d') \<Longrightarrow> gdata d' = gdata d \<and> goff d \<le> goff d'"
  unfolding command_def d_push_def d_bitmask_def readRange_def d_pop_def
  by (auto simp: Let_def split: if_splits prod.splits)

function deserialize_loop :: "globset_decoder \<Rightarrow> globset_decoder" where
  "deserialize_loop d =
     (if goff d < length (gdata d) then
        (case command (d\<lparr>goff := goff d + 1\<rparr>) (gdata d ! goff d) of
           (stop, d') \<Rightarrow> if stop then d' else deserialize_loop d')
      else d)"
  by pat_completeness auto
termination
  by (relation "measure (\<lambda>d. length (gdata d) - goff d)") (auto dest!: sym [THEN command_cursor])

declare deserialize_loop.simps [simp del]

definition deserializeGlobset :: "bytes \<Rightarrow> range_set \<times> nat" where
  "deserializeGlobset data =
     (let d = deserialize_loop \<lparr>gdata = data, goff = 0, gstack = [], grs = []\<rparr> in (grs d, goff d))"

section \<open>Prefixes of global counters\<close>

lemma take_ValueToGC: "n \<le> 6 \<Longrightarrow> take n (ValueToGC v) = rev (le_bytes n (drop_bit (8 * (6 - n)) v))"
  by (simp add: ValueToGC_be be_bytes_def take_rev drop_le_bytes)

lemma unat_drop_bit_div: "unat (drop_bit k (v :: u64)) = unat v div 2 ^ k"
  by (simp only: unat_drop_bit_eq) (simp only: drop_bit_eq_div)

lemma small_drop_bit:
  assumes "unat (v :: u64) < 2 ^ 48" "n \<le> 6"
  shows "take_bit (8 * n) (drop_bit (8 * (6 - n)) v) = drop_bit (8 * (6 - n)) v"
proof -
  have "8 * n + 8 * (6 - n) = (48 :: nat)" using assms(2) by simp
  then have "(2 :: nat) ^ 48 = 2 ^ (8 * n) * 2 ^ (8 * (6 - n))" by (simp only: flip: power_add)
  then have "unat v div 2 ^ (8 * (6 - n)) < 2 ^ (8 * n)"
    using assms(1) by (simp add: less_mult_imp_div_less)
  then show ?thesis
    by (simp add: word_unat_eq_iff unsigned_take_bit_eq unat_drop_bit_div take_bit_nat_eq_self)
qed

lemma take_ValueToGC_eq_iff:
  assumes "unat v < 2 ^ 48" "unat w < 2 ^ 48" "n \<le> 6"
  shows "take n (ValueToGC v) = take n (ValueToGC w)
    \<longleftrightarrow> unat v div 2 ^ (8 * (6 - n)) = unat w div 2 ^ (8 * (6 - n))"
proof -
  let ?k = "8 * (6 - n)"
  have "take n (ValueToGC v) = take n (ValueToGC w) \<longleftrightarrow> le_bytes n (drop_bit ?k v) = le_bytes n (drop_bit ?k w)"
    using assms(3) by (simp add: take_ValueToGC)
  also have "\<dots> \<longleftrightarrow> drop_bit ?k v = drop_bit ?k w"
    using le_word_le_bytes_take [of n "drop_bit ?k v"] le_word_le_bytes_take [of n "drop_bit ?k w"]
      small_drop_bit [OF assms(1,3)] small_drop_bit [OF assms(2,3)] by metis
  also have "\<dots> \<longleftrightarrow> unat v div 2 ^ ?k = unat w div 2 ^ ?k"
    by (simp add: word_unat_eq_iff unat_drop_bit_div)
  finally show ?thesis .
qed

text \<open>Everything between two values shares their common prefix.\<close>

lemma prefix_between:
  assumes "take n (ValueToGC v) = take n (ValueToGC w)" "n \<le> 6" "unat w < 2 ^ 48"
    "unat v \<le> unat x" "unat x \<le> unat w"
  shows "take n (ValueToGC x) = take n (ValueToGC v)"
proof -
  have small: "unat v < 2 ^ 48" "unat x < 2 ^ 48" using assms by linarith+
  let ?m = "(2 :: nat) ^ (8 * (6 - n))"
  have "unat v div ?m = unat w div ?m" using assms(1-3) small take_ValueToGC_eq_iff by blast
  moreover have "unat v div ?m \<le> unat x div ?m" "unat x div ?m \<le> unat w div ?m"
    using assms(4,5) by (simp_all add: div_le_mono)
  ultimately show ?thesis using small assms(2) take_ValueToGC_eq_iff by simp
qed

lemma commonPrefixLen_le: "commonPrefixLen a b \<le> length a" "commonPrefixLen a b \<le> length b"
  by (induction a b rule: commonPrefixLen.induct) auto

lemma take_commonPrefixLen: "take (commonPrefixLen a b) a = take (commonPrefixLen a b) b"
  by (induction a b rule: commonPrefixLen.induct) auto

lemma commonPrefixLen_full: "length a = length b \<Longrightarrow> commonPrefixLen a b = length a \<longleftrightarrow> a = b"
  by (induction a b rule: commonPrefixLen.induct) auto

lemma ValueToGC_not_Nil [simp]: "ValueToGC v \<noteq> []"
  using length_ValueToGC [of v] by (metis list.size(3) zero_neq_numeral)

lemma ValueToGC_inj: "unat v < 2 ^ 48 \<Longrightarrow> unat w < 2 ^ 48 \<Longrightarrow> ValueToGC v = ValueToGC w \<Longrightarrow> v = w"
  by (metis GCToValue_ValueToGC small_gc_iff)

section \<open>The decoder, command by command\<close>

text \<open>The bytes the stack holds, outermost frame first.\<close>

definition stack_bytes :: "globset_decoder \<Rightarrow> bytes" where
  "stack_bytes d = concat (map (\<lambda>f. take (fn f) (fbytes f)) (gstack d))"

definition d_ok :: "globset_decoder \<Rightarrow> bool" where
  "d_ok d \<longleftrightarrow> goff d \<le> length (gdata d) \<and> length (stack_bytes d) < 6
     \<and> (\<forall>f\<in>set (gstack d). fn f \<le> length (fbytes f))"

definition gunread :: "globset_decoder \<Rightarrow> bytes" where
  "gunread d = drop (goff d) (gdata d)"

definition g_adv :: "nat \<Rightarrow> range_set \<Rightarrow> globset_decoder \<Rightarrow> globset_decoder" where
  "g_adv k ns d = d\<lparr>goff := goff d + k, grs := grs d @ ns\<rparr>"

lemma go_copy_prefix:
  "length pre + length src \<le> 6 \<Longrightarrow>
     go_copy (pre @ replicate (6 - length pre) 0) (length pre) src
       = (pre @ src) @ replicate (6 - length (pre @ src)) 0"
  by (simp add: go_copy_def)

abbreviation copy_frame :: "bytes \<times> nat \<Rightarrow> glob_frame \<Rightarrow> bytes \<times> nat" where
  "copy_frame \<equiv> (\<lambda>(gc, t) f. (go_copy gc t (take (fn f) (fbytes f)), t + fn f))"

abbreviation frames_bytes :: "glob_frame list \<Rightarrow> bytes" where
  "frames_bytes fs \<equiv> concat (map (\<lambda>f. take (fn f) (fbytes f)) fs)"

lemma copy_frames:
  assumes "length (pre @ frames_bytes fs) \<le> 6" "\<forall>f\<in>set fs. fn f \<le> length (fbytes f)"
  shows "foldl copy_frame (pre @ replicate (6 - length pre) 0, length pre) fs
      = ((pre @ frames_bytes fs) @ replicate (6 - length (pre @ frames_bytes fs)) 0,
         length (pre @ frames_bytes fs))"
  using assms
proof (induction fs arbitrary: pre)
  case (Cons f fs)
  let ?p = "pre @ take (fn f) (fbytes f)"
  have "go_copy (pre @ replicate (6 - length pre) 0) (length pre) (take (fn f) (fbytes f))
      = ?p @ replicate (6 - length ?p) 0"
    using Cons.prems by (intro go_copy_prefix) simp
  moreover have "length pre + fn f = length ?p" using Cons.prems(2) by simp
  ultimately have "foldl copy_frame (pre @ replicate (6 - length pre) 0, length pre) (f # fs)
      = foldl copy_frame (?p @ replicate (6 - length ?p) 0, length ?p) fs"
    by (simp only: foldl.simps prod.case)
  also have "\<dots> = ((?p @ frames_bytes fs) @ replicate (6 - length (?p @ frames_bytes fs)) 0,
      length (?p @ frames_bytes fs))"
    using Cons.prems by (intro Cons.IH) simp_all
  finally show ?case by (simp only: append_assoc list.map concat.simps)
qed (simp only: foldl.simps list.map concat.simps append_Nil2)

lemma common_eq:
  assumes "length (stack_bytes d) \<le> 6" "\<forall>f\<in>set (gstack d). fn f \<le> length (fbytes f)"
  shows "common d = (stack_bytes d @ replicate (6 - length (stack_bytes d)) 0, length (stack_bytes d))"
  using copy_frames [of "[]" "gstack d"] assms by (simp only: common_def stack_bytes_def) simp

text \<open>Each command at the front of the unread bytes, as one step of the loop.\<close>

lemma loop_step:
  assumes "d_ok d" "gunread d = c # rest"
  shows "deserialize_loop d = (case command (d\<lparr>goff := goff d + 1\<rparr>) c of
     (stop, d') \<Rightarrow> if stop then d' else deserialize_loop d')"
proof -
  have "goff d < length (gdata d)" using assms(2) unfolding gunread_def by (metis drop_all list.distinct(1) not_le)
  moreover have "gdata d ! goff d = c" using assms(2) calculation
    by (metis gunread_def hd_drop_conv_nth list.sel(1))
  ultimately show ?thesis by (subst deserialize_loop.simps) simp
qed

lemma gunread_length: "d_ok d \<Longrightarrow> length (gdata d) = goff d + length (gunread d)"
  by (simp add: d_ok_def gunread_def)

lemma unread_after: "gunread (d\<lparr>goff := goff d + k\<rparr>) = drop k (gunread d)"
  by (simp add: gunread_def add.commute)

lemma drop_data: "drop (goff d + k) (gdata d) = drop k (gunread d)"
  by (simp add: gunread_def add.commute)

lemma loop_end: "d_ok d \<Longrightarrow> gunread d = 0 # rest \<Longrightarrow> deserialize_loop d = g_adv 1 [] d"
  by (simp add: loop_step command_def g_adv_def)

lemma loop_pop:
  "d_ok d \<Longrightarrow> gunread d = 0x50 # rest \<Longrightarrow> gstack d = fs @ [f] \<Longrightarrow>
     deserialize_loop d = deserialize_loop (d\<lparr>goff := goff d + 1, gstack := fs\<rparr>)"
  by (simp add: loop_step command_def d_pop_def)

lemma push_cmd_byte:
  assumes "1 \<le> n" "n \<le> 6"
  shows "(of_nat n :: u8) \<ge> 1 \<and> (of_nat n :: u8) \<le> 6 \<and> unat (of_nat n :: u8) = n"
  using assms by (simp add: word_le_nat_alt)

definition frame_of :: "bytes \<Rightarrow> glob_frame" where
  "frame_of bs = \<lparr>fn = length bs, fbytes = go_copy (replicate 6 0) 0 bs\<rparr>"

lemma frame_of_bytes [simp]:
  "length bs \<le> 6 \<Longrightarrow> take (fn (frame_of bs)) (fbytes (frame_of bs)) = bs"
  "length bs \<le> 6 \<Longrightarrow> fn (frame_of bs) \<le> length (fbytes (frame_of bs))"
  by (simp_all add: frame_of_def go_copy_def)

lemma loop_push:
  assumes "d_ok d" "gunread d = of_nat (length bs) # bs @ rest" "bs \<noteq> []"
    "length (stack_bytes d) + length bs < 6"
  shows "deserialize_loop d
      = deserialize_loop (d\<lparr>goff := goff d + 1 + length bs, gstack := gstack d @ [frame_of bs]\<rparr>)"
proof -
  let ?d = "d\<lparr>goff := goff d + 1\<rparr>"
  have c: "common ?d = (stack_bytes d @ replicate (6 - length (stack_bytes d)) 0, length (stack_bytes d))"
    using common_eq [of ?d] assms(1) by (simp add: d_ok_def stack_bytes_def)
  have n: "1 \<le> length bs" "length bs \<le> 6" using assms(3,4) by (simp_all add: Suc_le_eq)
  have "drop (goff d + 1) (gdata d) = bs @ rest" using drop_data [of d 1] assms(2) by simp
  then have "d_push ?d (length bs)
      = (False, d\<lparr>goff := goff d + 1 + length bs, gstack := gstack d @ [frame_of bs]\<rparr>)"
    using gunread_length [OF assms(1)] assms(2,4) c by (simp add: d_push_def frame_of_def Let_def)
  then show ?thesis
    using push_cmd_byte [OF n] by (simp add: loop_step [OF assms(1,2)] command_def)
qed

text \<open>A push that completes six bytes emits the value and pops its own frame.\<close>

lemma loop_push_full:
  assumes "d_ok d" "gunread d = of_nat (length bs) # bs @ rest" "bs \<noteq> []"
    "stack_bytes d @ bs = ValueToGC v" "unat v < 2 ^ 48"
  shows "deserialize_loop d = deserialize_loop (g_adv (1 + length bs) [mk_range v v] d)"
proof -
  let ?d = "d\<lparr>goff := goff d + 1\<rparr>"
  let ?e = "d\<lparr>goff := goff d + 1 + length bs, gstack := gstack d @ [frame_of bs]\<rparr>"
  have len: "length (stack_bytes d) + length bs = 6" using arg_cong [OF assms(4), of length] by simp
  have n: "1 \<le> length bs" "length bs \<le> 6" using assms(3) len by (simp_all add: Suc_le_eq)
  have c: "common ?d = (stack_bytes d @ replicate (6 - length (stack_bytes d)) 0, length (stack_bytes d))"
    using common_eq [of ?d] assms(1) by (simp add: d_ok_def stack_bytes_def)
  have sb: "stack_bytes ?e = ValueToGC v" using n assms(4) by (simp add: stack_bytes_def)
  have "common ?e = (stack_bytes ?e @ replicate (6 - length (stack_bytes ?e)) 0, length (stack_bytes ?e))"
    using assms(1) n len sb by (intro common_eq) (auto simp: d_ok_def)
  then have "fst (common ?e) = ValueToGC v"
    unfolding sb by (simp only: fst_conv length_ValueToGC) simp
  then have ce: "GCToValue (fst (common ?e)) = v"
    using assms(5) by (simp only: GCToValue_ValueToGC small_gc_iff)
  have "drop (goff d + 1) (gdata d) = bs @ rest" using drop_data [of d 1] assms(2) by simp
  then have "d_push ?d (length bs) = (False, g_adv (1 + length bs) [mk_range v v] d)"
    using gunread_length [OF assms(1)] assms(2) c len ce
    by (simp add: d_push_def d_pop_def g_adv_def appendRaw_def Let_def frame_of_def)
  then show ?thesis
    using push_cmd_byte [OF n] by (simp add: loop_step [OF assms(1,2)] command_def)
qed

lemma loop_range:
  assumes "d_ok d" "gunread d = 0x52 # ls @ hs @ rest"
    "stack_bytes d @ ls = ValueToGC v" "stack_bytes d @ hs = ValueToGC w"
    "unat v < 2 ^ 48" "unat w < 2 ^ 48"
  shows "deserialize_loop d = deserialize_loop (g_adv (1 + length ls + length hs) [mk_range v w] d)"
proof -
  let ?d = "d\<lparr>goff := goff d + 1\<rparr>"
  let ?s = "stack_bytes d"
  obtain k where k: "length ls = k" "length hs = k" "6 - length ?s = k" "length ?s \<le> 6"
    using arg_cong [OF assms(3), of length] arg_cong [OF assms(4), of length] by simp
  have c: "common ?d = (?s @ replicate k 0, length ?s)"
    using common_eq [of ?d] assms(1) k(3) by (simp add: d_ok_def stack_bytes_def)
  have dr: "drop (goff d + 1) (gdata d) = ls @ hs @ rest" "drop (goff d + 1 + k) (gdata d) = hs @ rest"
    using drop_data [of d 1] drop_data [of d "1 + k"] assms(2) k by (simp_all add: add.assoc)
  have cp: "go_copy (?s @ replicate k 0) (length ?s) ls = ValueToGC v"
    "go_copy (?s @ replicate k 0) (length ?s) hs = ValueToGC w"
    using go_copy_prefix [of ?s ls] go_copy_prefix [of ?s hs] k by (simp_all add: assms(3,4))
  have "GCToValue (ValueToGC v) = v" "GCToValue (ValueToGC w) = w"
    using assms(5,6) by (simp_all only: GCToValue_ValueToGC small_gc_iff)
  then have "readRange ?d = (False, g_adv (1 + length ls + length hs) [mk_range v w] d)"
    using gunread_length [OF assms(1)] assms(2) k dr c cp
    by (simp add: readRange_def g_adv_def appendRaw_def Let_def del: GCToValue_ValueToGC)
  then show ?thesis by (simp add: loop_step [OF assms(1,2)] command_def)
qed

section \<open>Decoding what was encoded\<close>

lemma appendNodeUnder_append: "appendNodeUnder out nd k = out @ appendNodeUnder [] nd k"
  by (simp add: appendNodeUnder_def pushCmd_def rangeCmd_def Let_def)

lemma foldl_appendNode:
  "foldl (\<lambda>out nd. appendNodeUnder out nd k) out nds = out @ concat (map (\<lambda>nd. appendNodeUnder [] nd k) nds)"
proof (induction nds arbitrary: out)
  case (Cons nd nds)
  then show ?case by (simp add: appendNodeUnder_append [of out])
qed simp

lemma g_adv_simps [simp]:
  "gdata (g_adv k ns d) = gdata d" "goff (g_adv k ns d) = goff d + k" "gstack (g_adv k ns d) = gstack d"
  "stack_bytes (g_adv k ns d) = stack_bytes d" "gunread (g_adv k ns d) = drop k (gunread d)"
  "g_adv j ms (g_adv k ns d) = g_adv (k + j) (ns @ ms) d"
  by (simp_all add: g_adv_def stack_bytes_def gunread_def add.commute add.left_commute)

lemma d_ok_g_adv: "d_ok d \<Longrightarrow> k \<le> length (gunread d) \<Longrightarrow> d_ok (g_adv k ns d)"
  by (auto simp: d_ok_def gunread_def stack_bytes_def)

definition push_frame :: "bytes \<Rightarrow> globset_decoder \<Rightarrow> globset_decoder" where
  "push_frame bs d = d\<lparr>goff := goff d + 1 + length bs, gstack := gstack d @ [frame_of bs]\<rparr>"

lemma push_frame_simps:
  "length bs \<le> 6 \<Longrightarrow> stack_bytes (push_frame bs d) = stack_bytes d @ bs"
  "gunread (push_frame bs d) = drop (1 + length bs) (gunread d)"
  "d_ok d \<Longrightarrow> 1 + length bs \<le> length (gunread d) \<Longrightarrow> length (stack_bytes d) + length bs < 6 \<Longrightarrow> d_ok (push_frame bs d)"
  by (auto simp: push_frame_def stack_bytes_def gunread_def add.commute d_ok_def)

lemma loop_pop_frame:
  assumes "d_ok (push_frame bs d)" "d_ok (g_adv k ns (push_frame bs d))"
    "gunread (g_adv k ns (push_frame bs d)) = 0x50 # rest"
  shows "deserialize_loop (g_adv k ns (push_frame bs d)) = deserialize_loop (g_adv (1 + length bs + k + 1) ns d)"
  using loop_pop [OF assms(2,3), of "gstack d" "frame_of bs"] by (cases d) (simp add: push_frame_def g_adv_def add.assoc)

lemma loop_node_range:
  assumes d: "d_ok d" and un: "gunread d = appendNodeUnder [] nd (length (stack_bytes d)) @ rest"
    and nd: "node_ok nd" "lo nd \<noteq> hi nd"
    and pre: "take (length (stack_bytes d)) (ValueToGC (lo nd)) = stack_bytes d"
      "take (length (stack_bytes d)) (ValueToGC (hi nd)) = stack_bytes d"
  shows "deserialize_loop d
    = deserialize_loop (g_adv (length (appendNodeUnder [] nd (length (stack_bytes d)))) [nd] d)"
proof -
  let ?k = "length (stack_bytes d)" and ?lo = "ValueToGC (lo nd)" and ?hi = "ValueToGC (hi nd)"
  define m where "m = commonPrefixLen (drop ?k ?lo) (drop ?k ?hi)"
  define bs where "bs = take m (drop ?k ?lo)"
  have k6: "?k < 6" using d by (simp add: d_ok_def)
  have small: "unat (lo nd) < 2 ^ 48" "unat (hi nd) < 2 ^ 48" using nd(1) by (auto simp: node_ok_nat)
  have "m \<le> 6 - ?k" using commonPrefixLen_le(1) [of "drop ?k ?lo" "drop ?k ?hi"] by (simp add: m_def)
  moreover have "m \<noteq> 6 - ?k"
  proof
    assume "m = 6 - ?k"
    then have "drop ?k ?lo = drop ?k ?hi"
      using commonPrefixLen_full [of "drop ?k ?lo" "drop ?k ?hi"] by (simp add: m_def)
    then have "?lo = ?hi" using pre by (metis append_take_drop_id)
    then show False using nd(2) ValueToGC_inj [OF small] by simp
  qed
  ultimately have m: "m < 6 - ?k" by simp
  have bs: "length bs = m" "bs = take m (drop ?k ?hi)"
    using m take_commonPrefixLen [of "drop ?k ?lo" "drop ?k ?hi"] by (simp_all add: bs_def m_def)
  have split: "(stack_bytes d @ bs) @ drop (?k + m) ?lo = ?lo" "(stack_bytes d @ bs) @ drop (?k + m) ?hi = ?hi"
    using pre bs by (simp_all add: bs_def) (metis append_take_drop_id append.assoc drop_drop add.commute)+
  have app: "appendNodeUnder [] nd ?k = (if m > 0 then of_nat m # bs else []) @ 0x52 # drop (?k + m) ?lo
      @ drop (?k + m) ?hi @ (if m > 0 then [0x50] else [])"
    using nd(2) by (simp add: appendNodeUnder_def pushCmd_def rangeCmd_def Let_def flip: m_def bs_def)
  show ?thesis
  proof (cases "m = 0")
    case True
    then show ?thesis
      using loop_range [of d "drop ?k ?lo" "drop ?k ?hi" rest "lo nd" "hi nd"] d un app split small bs
      by simp
  next
    case False
    define ls hs where "ls = drop (?k + m) ?lo" and "hs = drop (?k + m) ?hi"
    let ?e = "push_frame bs d" and ?n = "1 + length ls + length hs"
    have un': "gunread d = of_nat m # bs @ 0x52 # ls @ hs @ 0x50 # rest"
      and size: "length (appendNodeUnder [] nd ?k) = 1 + length bs + ?n + 1"
      using un app False bs(1) by (simp_all add: ls_def hs_def)
    have e: "d_ok ?e" "gunread ?e = 0x52 # ls @ hs @ 0x50 # rest" "stack_bytes ?e = stack_bytes d @ bs"
      using d un' m bs(1) by (simp_all add: push_frame_simps)
    have "deserialize_loop d = deserialize_loop ?e"
      using loop_push [of d bs] d un' False bs(1) m by (auto simp: push_frame_def)
    also have "\<dots> = deserialize_loop (g_adv ?n [nd] ?e)"
      using loop_range [OF e(1,2), of "lo nd" "hi nd"] split small by (simp add: e(3) ls_def hs_def)
    also have "\<dots> = deserialize_loop (g_adv (1 + length bs + ?n + 1) [nd] d)"
      using e by (intro loop_pop_frame d_ok_g_adv) simp_all
    also note size [symmetric]
    finally show ?thesis .
  qed
qed

lemma loop_node:
  assumes d: "d_ok d" and un: "gunread d = appendNodeUnder [] nd (length (stack_bytes d)) @ rest"
    and nd: "node_ok nd"
    and pre: "take (length (stack_bytes d)) (ValueToGC (lo nd)) = stack_bytes d"
      "take (length (stack_bytes d)) (ValueToGC (hi nd)) = stack_bytes d"
  shows "deserialize_loop d
    = deserialize_loop (g_adv (length (appendNodeUnder [] nd (length (stack_bytes d)))) [nd] d)"
proof (cases "hi nd = lo nd")
  case True
  let ?k = "length (stack_bytes d)"
  let ?bs = "drop ?k (ValueToGC (lo nd))"
  have k: "?k < 6" using d by (simp add: d_ok_def)
  have app: "appendNodeUnder [] nd ?k = of_nat (length ?bs) # ?bs"
    using True by (simp add: appendNodeUnder_def pushCmd_def)
  have "stack_bytes d @ ?bs = ValueToGC (lo nd)" using pre(1) by (metis append_take_drop_id)
  moreover have "mk_range (lo nd) (lo nd) = nd" using mk_range_eta [of nd] True by simp
  moreover have "unat (lo nd) < 2 ^ 48" using nd by (auto simp: node_ok_nat)
  ultimately show ?thesis
    using loop_push_full [of d ?bs rest "lo nd"] d un k by (simp add: app)
next
  case False
  then show ?thesis using loop_node_range [OF d un nd _ pre] by simp
qed

lemma loop_nodes:
  assumes "d_ok d" "length (stack_bytes d) = k"
    "gunread d = concat (map (\<lambda>nd. appendNodeUnder [] nd k) nds) @ rest"
    "\<forall>nd\<in>set nds. node_ok nd \<and> take k (ValueToGC (lo nd)) = stack_bytes d
       \<and> take k (ValueToGC (hi nd)) = stack_bytes d"
  shows "deserialize_loop d = deserialize_loop
    (g_adv (length (concat (map (\<lambda>nd. appendNodeUnder [] nd k) nds))) nds d)"
  using assms
proof (induction nds arbitrary: d)
  case Nil
  then show ?case by (simp add: g_adv_def)
next
  case (Cons nd nds)
  let ?b = "appendNodeUnder [] nd k"
  have "deserialize_loop d = deserialize_loop (g_adv (length ?b) [nd] d)"
    using loop_node [of d nd] Cons.prems by simp
  also have "\<dots> = deserialize_loop (g_adv (length (concat (map (\<lambda>nd. appendNodeUnder [] nd k) nds))) nds
      (g_adv (length ?b) [nd] d))"
    using Cons.prems by (intro Cons.IH d_ok_g_adv) simp_all
  finally show ?case by (simp only: g_adv_simps list.map concat.simps length_append append.simps)
qed

text \<open>
  What the encoder needs of its input, and coalescing provides: every value lies between the
  first lower and the last upper bound, and a set of several nodes has more than one value.
\<close>

definition encodable :: "range_set \<Rightarrow> bool" where
  "encodable rs \<longleftrightarrow> list_all node_ok rs \<and> (length rs > 1 \<longrightarrow>
     lo (hd rs) \<noteq> hi (last rs) \<and>
     (\<forall>nd\<in>set rs. unat (lo (hd rs)) \<le> unat (lo nd) \<and> unat (hi nd) \<le> unat (hi (last rs))))"

lemma serialize_many:
  assumes "length rs > 1"
  shows "serializeGlobset rs = (let k = commonPrefixLen (ValueToGC (lo (hd rs))) (ValueToGC (hi (last rs)));
      body = concat (map (\<lambda>nd. appendNodeUnder [] nd k) rs)
    in if k = 0 then body @ [0] else of_nat k # take k (ValueToGC (lo (hd rs))) @ body @ [0x50, 0])"
proof -
  obtain a b cs where "rs = a # b # cs" using assms by (cases rs; cases "tl rs") auto
  then show ?thesis
    by (simp only: serializeGlobset_def list.case foldl_appendNode) (simp add: Let_def pushCmd_def)
qed

lemma loop_encoded_many:
  assumes rs: "encodable rs" "length rs > 1" and d: "d_ok d" "gstack d = []" "gunread d = serializeGlobset rs @ rest"
  shows "deserialize_loop d = g_adv (length (serializeGlobset rs)) rs d"
proof -
  let ?f = "ValueToGC (lo (hd rs))" and ?b = "ValueToGC (hi (last rs))"
  define k where "k = commonPrefixLen ?f ?b"
  define body where "body = concat (map (\<lambda>nd. appendNodeUnder [] nd k) rs)"
  define bs where "bs = take k ?f"
  have ends: "node_ok (hd rs)" "node_ok (last rs)" "lo (hd rs) \<noteq> hi (last rs)"
    using rs by (cases rs; auto simp: encodable_def list_all_iff)+
  then have "?f \<noteq> ?b" using ValueToGC_inj [of "lo (hd rs)" "hi (last rs)"] by (auto simp: node_ok_nat)
  then have k: "k < 6" using commonPrefixLen_le(1) [of ?f ?b] commonPrefixLen_full [of ?f ?b]
    by (simp add: k_def)
  have pre: "take k (ValueToGC (lo nd)) = bs \<and> take k (ValueToGC (hi nd)) = bs" if "nd \<in> set rs" for nd
  proof -
    have *: "unat (lo (hd rs)) \<le> unat (lo nd)" "unat (hi nd) \<le> unat (hi (last rs))"
      "unat (lo nd) \<le> unat (hi nd)"
      using rs that by (auto simp: encodable_def list_all_iff node_ok_nat)
    have eq: "take k ?f = take k ?b" unfolding k_def by (rule take_commonPrefixLen)
    have "k \<le> 6" "unat (hi (last rs)) < 2 ^ 48" using k ends(2) by (simp_all add: node_ok_nat)
    note between = prefix_between [OF eq this]
    show ?thesis
      unfolding bs_def using * by (intro conjI between) linarith+
  qed
  have lb: "length bs = k" using k by (simp add: bs_def)
  have st: "stack_bytes d = []" using d(2) by (simp add: stack_bytes_def)
  have ser: "serializeGlobset rs = (if k = 0 then body @ [0] else of_nat k # bs @ body @ [0x50, 0])"
    using serialize_many [OF rs(2)] by (simp add: Let_def k_def body_def bs_def)
  have ok: "\<forall>nd\<in>set rs. node_ok nd" using rs(1) by (simp add: encodable_def list_all_iff)
  show ?thesis
  proof (cases "k = 0")
    case True
    have "deserialize_loop d = deserialize_loop (g_adv (length body) rs d)"
      unfolding body_def using d st ser True ok by (intro loop_nodes) (simp_all add: body_def)
    also have "\<dots> = g_adv 1 [] (g_adv (length body) rs d)"
      using d ser True by (intro loop_end d_ok_g_adv) simp_all
    finally show ?thesis by (simp add: ser True)
  next
    case False
    let ?e = "push_frame bs d"
    have un: "gunread d = of_nat (length bs) # bs @ body @ 0x50 # 0 # rest" and bs: "bs \<noteq> []"
      using d(3) ser False lb by auto
    have e: "d_ok ?e" "stack_bytes ?e = bs" "gunread ?e = body @ 0x50 # 0 # rest"
      using d(1) lb k st un by (simp_all add: push_frame_simps)
    have "deserialize_loop d = deserialize_loop ?e"
      unfolding push_frame_def using d(1) un bs by (rule loop_push) (simp add: st lb k)
    also have "\<dots> = deserialize_loop (g_adv (length body) rs ?e)"
      unfolding body_def using e lb pre ok by (intro loop_nodes) (simp_all add: body_def)
    also have "\<dots> = deserialize_loop (g_adv (1 + length bs + length body + 1) rs d)"
      using e by (intro loop_pop_frame d_ok_g_adv) simp_all
    also have "\<dots> = g_adv 1 [] (g_adv (1 + length bs + length body + 1) rs d)"
      using d(1) un by (intro loop_end d_ok_g_adv) simp_all
    finally show ?thesis by (simp add: ser False lb)
  qed
qed

lemma loop_encoded:
  assumes rs: "encodable rs" and d: "d_ok d" "gstack d = []" "gunread d = serializeGlobset rs @ rest"
  shows "deserialize_loop d = g_adv (length (serializeGlobset rs)) rs d"
proof -
  have st: "stack_bytes d = []" using d(2) by (simp add: stack_bytes_def)
  consider "rs = []" | nd where "rs = [nd]" | "length rs > 1" by (cases rs; cases "tl rs") auto
  then show ?thesis
  proof cases
    case 1
    then show ?thesis using loop_end [of d rest] d by (simp add: serializeGlobset_def)
  next
    case 2
    define b where "b = (if hi nd = lo nd then 6 # ValueToGC (lo nd)
      else 0x52 # ValueToGC (lo nd) @ ValueToGC (hi nd))"
    have ser: "serializeGlobset rs = b @ [0]"
      by (simp add: 2 serializeGlobset_def pushCmd_def rangeCmd_def b_def)
    have nd: "node_ok nd" "unat (lo nd) < 2 ^ 48" "unat (hi nd) < 2 ^ 48"
      using rs by (auto simp: 2 encodable_def node_ok_nat)
    have "deserialize_loop d = deserialize_loop (g_adv (length b) [nd] d)"
    proof (cases "hi nd = lo nd")
      case True
      then have eta: "mk_range (lo nd) (lo nd) = nd" using mk_range_eta [of nd] by simp
      show ?thesis
        using loop_push_full [of d "ValueToGC (lo nd)" "0 # rest" "lo nd"] d nd st True
        by (simp add: ser b_def eta)
    next
      case False
      then show ?thesis
        using loop_range [of d "ValueToGC (lo nd)" "ValueToGC (hi nd)" "0 # rest" "lo nd" "hi nd"] d nd st
        by (simp add: ser b_def)
    qed
    also have "\<dots> = g_adv 1 [] (g_adv (length b) [nd] d)"
      using d by (intro loop_end d_ok_g_adv) (simp_all add: ser)
    finally show ?thesis by (simp add: 2) (simp add: ser flip: 2)
  next
    case 3
    then show ?thesis using loop_encoded_many rs d by blast
  qed
qed

lemma deserialize_serialize:
  assumes "encodable rs"
  shows "deserializeGlobset (serializeGlobset rs @ rest) = (rs, length (serializeGlobset rs))"
proof -
  let ?d = "\<lparr>gdata = serializeGlobset rs @ rest, goff = 0, gstack = [], grs = []\<rparr>"
  have "deserialize_loop ?d = g_adv (length (serializeGlobset rs)) rs ?d"
    using assms by (intro loop_encoded) (simp_all add: d_ok_def stack_bytes_def gunread_def)
  then show ?thesis by (simp add: deserializeGlobset_def g_adv_def)
qed

lemma coalesced_encodable: "coalesced rs \<Longrightarrow> encodable rs"
proof -
  assume c: "coalesced rs"
  show "encodable rs"
  proof (cases "length rs > 1")
    case True
    then obtain a ms z where rs: "rs = a # ms @ [z]" by (metis append_butlast_last_id length_Cons less_irrefl list.exhaust list.size(3) not_less_zero One_nat_def)
    have a: "\<forall>b\<in>set (ms @ [z]). apart a b" "node_ok a" and z: "\<forall>b\<in>set (a # ms). apart b z" "node_ok z"
      using c coalesced_Cons [of a "ms @ [z]"] coalesced_snoc [of "a # ms" z] by (simp_all add: rs)
    have ok: "list_all node_ok rs" using c by (simp add: coalesced_def)
    have "unat (lo a) \<le> unat (lo nd) \<and> unat (hi nd) \<le> unat (hi z)" if "nd \<in> set rs" for nd
      using that a z ok by (auto simp: rs apart_def node_ok_nat list_all_iff)
    moreover have "lo a \<noteq> hi z" using a z by (auto simp: apart_def node_ok_nat word_unat_eq_iff)
    ultimately show ?thesis using ok by (simp add: encodable_def rs)
  next
    case False
    then show ?thesis using c by (simp add: encodable_def coalesced_def)
  qed
qed

section \<open>The decoder on arbitrary bytes\<close>

lemma stack_bytes_butlast: "length (stack_bytes (d_pop d)) \<le> length (stack_bytes d)"
  by (cases "gstack d" rule: rev_cases) (auto simp: d_pop_def stack_bytes_def)

lemma d_pop_sel [simp]: "gdata (d_pop d) = gdata d" "goff (d_pop d) = goff d"
  by (simp_all add: d_pop_def)

lemma command_ok:
  assumes d: "d_ok d" and c: "command d c = (s, d')"
  shows "d_ok d'"
proof -
  have cm: "common d = (stack_bytes d @ replicate (6 - length (stack_bytes d)) 0, length (stack_bytes d))"
    using d by (intro common_eq) (auto simp: d_ok_def)
  have pop: "d_ok (d_pop e)" if "goff e \<le> length (gdata e)" "\<forall>f\<in>set (gstack e). fn f \<le> length (fbytes f)"
    "length (stack_bytes (d_pop e)) < 6" for e
    using that by (auto simp: d_ok_def d_pop_def dest: in_set_butlastD)
  have same: "stack_bytes (d\<lparr>goff := x, grs := y\<rparr>) = stack_bytes d" for x y by (simp add: stack_bytes_def)
  have push: "d_ok e" if "d_push d n = (t, e)" for n t e
    using that d unfolding d_push_def cm
    by (auto simp: Let_def d_pop_def d_ok_def stack_bytes_def go_copy_def split: if_splits)
  show ?thesis
    using c d push pop [of d] stack_bytes_butlast [of d]
    unfolding command_def d_bitmask_def readRange_def cm
    by (auto simp: Let_def d_ok_def same split: if_splits)
qed

lemma loop_ok:
  "d_ok d \<Longrightarrow> d_ok (deserialize_loop d) \<and> goff d \<le> goff (deserialize_loop d)
     \<and> gdata (deserialize_loop d) = gdata d
     \<and> (goff d < length (gdata d) \<longrightarrow> goff d < goff (deserialize_loop d))"
proof (induction d rule: deserialize_loop.induct)
  case (1 d)
  show ?case
  proof (cases "goff d < length (gdata d)")
    case True
    let ?d = "d\<lparr>goff := goff d + 1\<rparr>"
    obtain s e where c: "command ?d (gdata d ! goff d) = (s, e)" by force
    have ok: "d_ok ?d" using True 1 by (simp add: d_ok_def stack_bytes_def)
    have e: "d_ok e" "gdata e = gdata d" "goff d < goff e"
      using command_ok [OF ok c] command_cursor [OF c] by simp_all
    have eq: "deserialize_loop d = (if s then e else deserialize_loop e)"
      using True c by (subst deserialize_loop.simps) simp
    show ?thesis using 1(1) [OF True c [symmetric]] e True unfolding eq by (cases s) auto
  next
    case False
    then have "deserialize_loop d = d" by (subst deserialize_loop.simps) simp
    then show ?thesis using 1 False by simp
  qed
qed

section \<open>Properties\<close>

text \<open>
  C1. The GLOBSET codec round trips: for every coalesced range set, and more generally for
  every set of well-formed ranges lying between its first lower and last upper bound, decoding
  the encoder's output (whatever follows it) returns the same ranges in the same order and
  consumes exactly the encoding.
\<close>

theorem globset_roundtrip:
  assumes "coalesced rs \<or> encodable rs"
  shows "deserializeGlobset (serializeGlobset rs @ rest) = (rs, length (serializeGlobset rs))"
  using assms coalesced_encodable deserialize_serialize by blast

theorem globset_roundtrip_witness:
  "serializeGlobset [mk_range 0x0102 0x0104, mk_range 0x0110 0x0110]
     = [5, 0, 0, 0, 0, 1, 0x52, 2, 4, 1, 0x10, 0x50, 0]
   \<and> deserializeGlobset (serializeGlobset [mk_range 0x0102 0x0104, mk_range 0x0110 0x0110] @ [9])
     = ([mk_range 0x0102 0x0104, mk_range 0x0110 0x0110], 13)"
proof -
  have "serializeGlobset [mk_range 0x0102 0x0104, mk_range 0x0110 0x0110]
     = [5, 0, 0, 0, 0, 1, 0x52, 2, 4, 1, 0x10, 0x50, 0]" by code_simp
  moreover have "coalesced [mk_range 0x0102 0x0104, mk_range 0x0110 0x0110]"
    by (simp add: coalesced_def node_ok_def apart_def)
  ultimately show ?thesis
    using globset_roundtrip [of "[mk_range 0x0102 0x0104, mk_range 0x0110 0x0110]" "[9]"] by simp
qed

text \<open>
  C20. On arbitrary bytes the decoder terminates inside the buffer: it consumes at least one
  byte of a non-empty input and never more than there are, and from every state with fewer
  than six common bytes on the stack any command byte leads to such a state again, so no
  array copy leaves its six bytes.
\<close>

theorem globset_decoder_safe:
  shows "(data \<noteq> [] \<longrightarrow> 1 \<le> snd (deserializeGlobset data)) \<and> snd (deserializeGlobset data) \<le> length data
    \<and> (d_ok d \<longrightarrow> (\<forall>c. d_ok (snd (command d c))))"
proof -
  let ?d = "\<lparr>gdata = data, goff = 0, gstack = [], grs = []\<rparr>"
  have "d_ok ?d" by (simp add: d_ok_def stack_bytes_def)
  from loop_ok [OF this] have "data \<noteq> [] \<longrightarrow> 1 \<le> goff (deserialize_loop ?d)"
    "goff (deserialize_loop ?d) \<le> length data" by (auto simp: d_ok_def Suc_le_eq)
  then show ?thesis using command_ok by (metis deserializeGlobset_def prod.collapse snd_conv)
qed

theorem globset_decoder_safe_witness:
  "1 \<le> snd (deserializeGlobset [0x52, 1, 2]) \<and> deserializeGlobset [0x52, 1, 2] = ([], 1)
   \<and> d_ok \<lparr>gdata = [0x52], goff = 1, gstack = [], grs = []\<rparr>
   \<and> d_ok (snd (command \<lparr>gdata = [0x52], goff = 1, gstack = [], grs = []\<rparr> 0x50))"
proof -
  have "d_ok \<lparr>gdata = [0x52], goff = 1, gstack = [], grs = []\<rparr>" "deserializeGlobset [0x52, 1, 2] = ([], 1)"
    by code_simp+
  then show ?thesis
    using globset_decoder_safe [of "[0x52, 1, 2]" "\<lparr>gdata = [0x52], goff = 1, gstack = [], grs = []\<rparr>"] by simp
qed

text \<open>
  Decoding keeps wire order, and the encoder then takes the common prefix from the first
  and last node only: a decoded set whose middle range does not share that prefix is
  re-encoded as other values. Here the values 5, 0x10000, 6 decode as sent and re-encode as
  5, 0, 6.
\<close>

lemma globset_reencode_loses_unsorted:
  "let wire = [6, 0, 0, 0, 0, 0, 5, 6, 0, 0, 0, 1, 0, 0, 6, 0, 0, 0, 0, 0, 6, 0];
       rs = fst (deserializeGlobset wire)
   in rs = [mk_range 5 5, mk_range 0x10000 0x10000, mk_range 6 6]
    \<and> fst (deserializeGlobset (serializeGlobset rs)) = [mk_range 5 5, mk_range 0 0, mk_range 6 6]"
  by code_simp

end
