(* ===== verification/Ics_Idset.thy ===== *)
theory Ics_Idset
  imports Ics_Globcodec
begin

text \<open>
  \<^verbatim>\<open>internal/ics/idset.go\<close>: replica-grouped id sets in their four forms, and the replica mapper
  of a store (\<^verbatim>\<open>storeMapper\<close> of \<^verbatim>\<open>internal/objectstore/icsdownload.go\<close>). A method that mutates its
  receiver returns the updated set, next to its result where it has one.
\<close>

section \<open>Forms, mappers, sets\<close>

abbreviation (input) FormIDPacked :: u8 where "FormIDPacked \<equiv> 0x41"
abbreviation (input) FormIDLoose :: u8 where "FormIDLoose \<equiv> 0x42"
abbreviation (input) FormGUIDPacked :: u8 where "FormGUIDPacked \<equiv> 0x81"
abbreviation (input) FormGUIDLoose :: u8 where "FormGUIDLoose \<equiv> 0x82"

definition packed :: "u8 \<Rightarrow> bool" where
  "packed f \<longleftrightarrow> f AND 0x01 \<noteq> 0"

record replica_mapper =
  ToGUID :: "u16 \<Rightarrow> guid option"
  ToID :: "guid \<Rightarrow> u16 option"

abbreviation (input) homeReplID :: u16 where "homeReplID \<equiv> 1"

definition storeMapper :: "guid \<Rightarrow> replica_mapper" where
  "storeMapper home =
     \<lparr>ToGUID = (\<lambda>replid. if replid = homeReplID then Some home else None),
      ToID = (\<lambda>g. if g = home then Some homeReplID else None)\<rparr>"

record repl_node =
  replid :: u16
  replguid :: guid
  ranges :: range_set

record id_set =
  form :: u8
  repls :: "repl_node list"
  mapper :: "replica_mapper option"

datatype ics_error = ErrNoMapper | ErrNoGUID u16 | ErrPackedForm u8 | ErrTruncatedReplid
  | ErrTruncatedReplguid | ErrLooseForm u8 | ErrEmptyGlobset nat | ErrUnresolved u32 | ErrNotStateTag u32

definition zero_guid :: guid where
  "zero_guid = \<lparr>Data1 = 0, Data2 = 0, Data3 = 0, Data4 = replicate 8 0\<rparr>"

definition NewIDSet :: "u8 \<Rightarrow> replica_mapper option \<Rightarrow> id_set" where
  "NewIDSet fm mp = \<lparr>form = fm, repls = [], mapper = mp\<rparr>"

fun Empty_loop :: "repl_node list \<Rightarrow> bool" where
  "Empty_loop [] \<longleftrightarrow> True"
| "Empty_loop (nd # nds) \<longleftrightarrow> (if \<not> rs_empty (ranges nd) then False else Empty_loop nds)"

definition EmptySet :: "id_set \<Rightarrow> bool" where
  "EmptySet s \<longleftrightarrow> Empty_loop (repls s)"

section \<open>Operations\<close>

text \<open>\<open>findOrCreate\<close> returns the blocks and the index of the block the Go code points to.\<close>

fun findOrCreate :: "repl_node list \<Rightarrow> u16 \<Rightarrow> repl_node list \<times> nat" where
  "findOrCreate [] r = ([\<lparr>replid = r, replguid = zero_guid, ranges = []\<rparr>], 0)"
| "findOrCreate (nd # nds) r =
     (if replid nd = r then (nd # nds, 0)
      else (case findOrCreate nds r of (nds', i) \<Rightarrow> (nd # nds', Suc i)))"

definition AppendRange :: "id_set \<Rightarrow> u16 \<Rightarrow> u64 \<Rightarrow> u64 \<Rightarrow> bool \<times> id_set" where
  "AppendRange s r l h =
     (if packed (form s) \<or> l > h then (False, s)
      else (case findOrCreate (repls s) r of (nds, i) \<Rightarrow>
        (True, s\<lparr>repls := nds[i := (nds ! i)\<lparr>ranges := insert_range (ranges (nds ! i)) l h\<rparr>]\<rparr>)))"

definition Append :: "id_set \<Rightarrow> eid \<Rightarrow> bool \<times> id_set" where
  "Append s e = AppendRange s (ReplID e) (GCValue e) (GCValue e)"

fun Remove_loop :: "repl_node list \<Rightarrow> eid \<Rightarrow> repl_node list" where
  "Remove_loop [] e = []"
| "Remove_loop (nd # nds) e =
     (if replid nd = ReplID e then nd\<lparr>ranges := erase (ranges nd) (GCValue e)\<rparr> # nds
      else nd # Remove_loop nds e)"

definition Remove :: "id_set \<Rightarrow> eid \<Rightarrow> id_set" where
  "Remove s e = (if packed (form s) then s else s\<lparr>repls := Remove_loop (repls s) e\<rparr>)"

fun Contains_loop :: "repl_node list \<Rightarrow> eid \<Rightarrow> bool" where
  "Contains_loop [] e \<longleftrightarrow> False"
| "Contains_loop (nd # nds) e \<longleftrightarrow>
     (if replid nd = ReplID e then rs_contains (ranges nd) (GCValue e) else Contains_loop nds e)"

definition Contains :: "id_set \<Rightarrow> eid \<Rightarrow> bool" where
  "Contains s e \<longleftrightarrow> (if form s = FormGUIDPacked then False else Contains_loop (repls s) e)"

fun Concat_ranges :: "id_set \<Rightarrow> u16 \<Rightarrow> range_set \<Rightarrow> bool \<times> id_set" where
  "Concat_ranges s r [] = (True, s)"
| "Concat_ranges s r (nd # nds) =
     (case AppendRange s r (lo nd) (hi nd) of (ok, s') \<Rightarrow>
      if \<not> ok then (False, s') else Concat_ranges s' r nds)"

fun Concat_loop :: "id_set \<Rightarrow> repl_node list \<Rightarrow> bool \<times> id_set" where
  "Concat_loop s [] = (True, s)"
| "Concat_loop s (nd # nds) =
     (case Concat_ranges s (replid nd) (ranges nd) of (ok, s') \<Rightarrow>
      if \<not> ok then (False, s') else Concat_loop s' nds)"

definition Concatenate :: "id_set \<Rightarrow> id_set \<Rightarrow> bool \<times> id_set" where
  "Concatenate s src =
     (if packed (form s) \<or> packed (form src) then (False, s) else Concat_loop s (repls src))"

definition ForEachRange :: "id_set \<Rightarrow> (u16 \<Rightarrow> u64 \<Rightarrow> u64 \<Rightarrow> 'st \<Rightarrow> 'st) \<Rightarrow> 'st \<Rightarrow> 'st" where
  "ForEachRange s f = fold (\<lambda>nd. fold (\<lambda>r. f (replid nd) (lo r) (hi r)) (ranges nd)) (repls s)"

text \<open>
  \<^verbatim>\<open>Convert\<close> assigns the resolved ids block by block; when one does not resolve, the blocks before
  it keep their new ids and the form stays packed.
\<close>

fun Convert_loop :: "replica_mapper \<Rightarrow> repl_node list \<Rightarrow> bool \<times> repl_node list" where
  "Convert_loop mp [] = (True, [])"
| "Convert_loop mp (nd # nds) =
     (case ToID mp (replguid nd) of
        None \<Rightarrow> (False, nd # nds)
      | Some r \<Rightarrow> (case Convert_loop mp nds of (ok, nds') \<Rightarrow> (ok, nd\<lparr>replid := r\<rparr> # nds')))"

definition Convert :: "id_set \<Rightarrow> bool \<times> id_set" where
  "Convert s =
     (if form s = FormIDPacked then (True, s\<lparr>form := FormIDLoose\<rparr>)
      else if form s = FormGUIDPacked then
        (case mapper s of
           None \<Rightarrow> (False, s)
         | Some mp \<Rightarrow> (case Convert_loop mp (repls s) of (ok, nds) \<Rightarrow>
             if ok then (True, s\<lparr>repls := nds, form := FormGUIDLoose\<rparr>)
             else (False, s\<lparr>repls := nds\<rparr>)))
      else (False, s))"

section \<open>The wire form\<close>

fun Serialize_loop :: "u8 \<Rightarrow> replica_mapper option \<Rightarrow> bytes \<Rightarrow> repl_node list \<Rightarrow> ics_error + bytes" where
  "Serialize_loop fm mp out [] = Inr out"
| "Serialize_loop fm mp out (nd # nds) =
     (if rs_empty (ranges nd) then Serialize_loop fm mp out nds
      else
        bindr
          (if fm = FormIDLoose then Inr (out @ le_bytes 2 (replid nd))
           else if fm = FormGUIDLoose then
             (case mp of
                None \<Rightarrow> Inl ErrNoMapper
              | Some m \<Rightarrow> (case ToGUID m (replid nd) of
                    None \<Rightarrow> Inl (ErrNoGUID (replid nd))
                  | Some g \<Rightarrow> Inr (out @ Flat g)))
           else Inl (ErrPackedForm fm))
          (\<lambda>out. Serialize_loop fm mp (out @ serializeGlobset (ranges nd)) nds))"

definition SerializeSet :: "id_set \<Rightarrow> ics_error + bytes" where
  "SerializeSet s = Serialize_loop (form s) (mapper s) [] (repls s)"

lemma deserializeGlobset_moves:
  "deserializeGlobset data = (rs, n) \<Longrightarrow> n \<le> length data \<and> (data \<noteq> [] \<longrightarrow> 1 \<le> n)"
proof -
  let ?d = "\<lparr>gdata = data, goff = 0, gstack = [], grs = []\<rparr>"
  assume "deserializeGlobset data = (rs, n)"
  moreover have "d_ok ?d" by (simp add: d_ok_def stack_bytes_def)
  ultimately show ?thesis
    using loop_ok [of ?d] by (auto simp: deserializeGlobset_def Let_def d_ok_def Suc_le_eq)
qed

definition block_key :: "u8 \<Rightarrow> bytes \<Rightarrow> nat \<Rightarrow> ics_error + (repl_node \<times> nat)" where
  "block_key fm data off =
     (let nd = \<lparr>replid = 0, replguid = zero_guid, ranges = []\<rparr> in
      if fm = FormIDPacked then
        (if off + 2 > length data then Inl ErrTruncatedReplid
         else Inr (nd\<lparr>replid := le_word (take 2 (drop off data))\<rparr>, off + 2))
      else if fm = FormGUIDPacked then
        (if off + 16 > length data then Inl ErrTruncatedReplguid
         else Inr (nd\<lparr>replguid := FlatToGUID (take 16 (drop off data))\<rparr>, off + 16))
      else Inl (ErrLooseForm fm))"

function Deserialize_loop :: "u8 \<Rightarrow> bytes \<Rightarrow> nat \<Rightarrow> repl_node list \<Rightarrow> ics_error + repl_node list" where
  "Deserialize_loop fm data off nds =
     (if off < length data then
        bindr (block_key fm data off) (\<lambda>(nd, off).
          (case deserializeGlobset (drop off data) of (rs, consumed) \<Rightarrow>
             if consumed = 0 then Inl (ErrEmptyGlobset off)
             else Deserialize_loop fm data (off + consumed) (nds @ [nd\<lparr>ranges := rs\<rparr>])))
      else Inr nds)"
  by pat_completeness auto
termination
  by (relation "measure (\<lambda>(fm, data, off, nds). length data - off)")
    (auto simp: block_key_def Let_def split: if_splits)

declare Deserialize_loop.simps [simp del]

definition Deserialize :: "id_set \<Rightarrow> bytes \<Rightarrow> ics_error + id_set" where
  "Deserialize s data = bindr (Deserialize_loop (form s) data 0 (repls s)) (\<lambda>nds. Inr (s\<lparr>repls := nds\<rparr>))"

section \<open>What an id set stands for\<close>

definition block_ids :: "repl_node list \<Rightarrow> (u16 \<times> nat) set" where
  "block_ids nds = (\<Union>nd\<in>set nds. {replid nd} \<times> denote (ranges nd))"

definition ids :: "id_set \<Rightarrow> (u16 \<times> nat) set" where
  "ids s = block_ids (repls s)"

definition blocks_ok :: "repl_node list \<Rightarrow> bool" where
  "blocks_ok nds \<longleftrightarrow> distinct (map replid nds) \<and> list_all (\<lambda>nd. list_all node_ok (ranges nd)) nds"

definition idset_ok :: "id_set \<Rightarrow> bool" where
  "idset_ok s \<longleftrightarrow> \<not> packed (form s) \<and> blocks_ok (repls s)"

definition eid_key :: "eid \<Rightarrow> u16 \<times> nat" where
  "eid_key e = (ReplID e, unat (GCValue e))"

lemma eid_key_inj: "eid_key e = eid_key f \<longleftrightarrow> e = f"
proof
  assume "eid_key e = eid_key f"
  then have "ReplID e = ReplID f" "GCValue e = GCValue f" by (simp_all add: eid_key_def word_unat_eq_iff)
  then show "e = f" by (metis MakeEIDEx_ReplID_GCValue)
qed simp

lemma block_ids_simps [simp]:
  "block_ids [] = {}" "block_ids (nd # nds) = {replid nd} \<times> denote (ranges nd) \<union> block_ids nds"
  by (auto simp: block_ids_def)

lemma block_ids_replid: "(r, v) \<in> block_ids nds \<Longrightarrow> r \<in> replid ` set nds"
  by (auto simp: block_ids_def)

lemma Contains_loop_ids:
  "distinct (map replid nds) \<Longrightarrow> Contains_loop nds e \<longleftrightarrow> eid_key e \<in> block_ids nds"
  by (induction nds) (auto simp: rs_contains_denote eid_key_def dest: block_ids_replid)

lemma loose_not_guid_packed: "\<not> packed f \<Longrightarrow> f \<noteq> FormGUIDPacked"
  by (auto simp: packed_def)

lemma Contains_ids: "idset_ok s \<Longrightarrow> Contains s e \<longleftrightarrow> eid_key e \<in> ids s"
  by (simp add: Contains_def idset_ok_def blocks_ok_def loose_not_guid_packed Contains_loop_ids ids_def)

lemma blocks_ok_Cons:
  "blocks_ok (nd # nds) \<longleftrightarrow> replid nd \<notin> replid ` set nds \<and> list_all node_ok (ranges nd) \<and> blocks_ok nds"
  by (auto simp: blocks_ok_def)

text \<open>The block \<^verbatim>\<open>findOrCreate\<close> points to, with its ranges replaced.\<close>

definition put_ranges :: "repl_node list \<Rightarrow> u16 \<Rightarrow> (range_set \<Rightarrow> range_set) \<Rightarrow> repl_node list" where
  "put_ranges nds r f = (case findOrCreate nds r of (nds', i) \<Rightarrow>
     nds'[i := (nds' ! i)\<lparr>ranges := f (ranges (nds' ! i))\<rparr>])"

lemma put_ranges_simps [simp]:
  "put_ranges [] r f = [\<lparr>replid = r, replguid = zero_guid, ranges = f []\<rparr>]"
  "put_ranges (nd # nds) r f =
     (if replid nd = r then nd\<lparr>ranges := f (ranges nd)\<rparr> # nds else nd # put_ranges nds r f)"
  by (auto simp: put_ranges_def split: prod.splits)

lemma put_ranges_replids: "replid ` set (put_ranges nds r f) = insert r (replid ` set nds)"
  by (induction nds) auto

lemma put_insert_ok:
  assumes "blocks_ok nds" "l \<le> h" "unat h < 2 ^ 48"
  shows "blocks_ok (put_ranges nds r (\<lambda>rs. insert_range rs l h))
    \<and> block_ids (put_ranges nds r (\<lambda>rs. insert_range rs l h)) = block_ids nds \<union> {r} \<times> {unat l .. unat h}"
  using assms(1)
proof (induction nds)
  case Nil
  then show ?case
    using insert_range_ok [of "[]" l h] assms by (simp add: blocks_ok_def coalesced_def)
next
  case (Cons nd nds)
  have "list_all node_ok (ranges nd)" using Cons.prems by (simp add: blocks_ok_Cons)
  from insert_range_ok [OF this assms(2,3)] show ?case
    using Cons by (auto simp: blocks_ok_Cons coalesced_def put_ranges_replids)
qed

lemma AppendRange_ok:
  assumes "idset_ok s" "l \<le> h" "unat h < 2 ^ 48"
  shows "\<exists>s'. AppendRange s r l h = (True, s') \<and> idset_ok s' \<and> ids s' = ids s \<union> {r} \<times> {unat l .. unat h}
    \<and> form s' = form s \<and> mapper s' = mapper s"
proof -
  have "AppendRange s r l h = (True, s\<lparr>repls := put_ranges (repls s) r (\<lambda>rs. insert_range rs l h)\<rparr>)"
    using assms by (simp add: AppendRange_def idset_ok_def put_ranges_def split: prod.splits)
  then show ?thesis using put_insert_ok [of "repls s" l h r] assms by (simp add: idset_ok_def ids_def)
qed

lemma GCValue_bound: "unat (GCValue e) < 2 ^ 48"
  using GCValue_small [of e] by (simp only: small_gc_iff)

lemma Append_ok:
  assumes "idset_ok s"
  shows "\<exists>s'. Append s e = (True, s') \<and> idset_ok s' \<and> ids s' = insert (eid_key e) (ids s)
    \<and> form s' = form s \<and> mapper s' = mapper s"
  using AppendRange_ok [OF assms order_refl GCValue_bound, of "ReplID e" e] by (auto simp: Append_def eid_key_def)

lemma Remove_loop_ok:
  "blocks_ok nds \<Longrightarrow> blocks_ok (Remove_loop nds e) \<and> block_ids (Remove_loop nds e) = block_ids nds - {eid_key e}
     \<and> replid ` set (Remove_loop nds e) = replid ` set nds"
proof (induction nds)
  case (Cons nd nds)
  show ?case
  proof (cases "replid nd = ReplID e")
    case True
    then have "eid_key e \<notin> block_ids nds"
      using Cons.prems by (auto simp: blocks_ok_Cons eid_key_def dest: block_ids_replid)
    then show ?thesis
      using Cons.prems True by (auto simp: blocks_ok_Cons erase_denote erase_node_ok eid_key_def)
  next
    case False
    then show ?thesis using Cons by (auto simp: blocks_ok_Cons eid_key_def)
  qed
qed simp

lemma Remove_ok:
  "idset_ok s \<Longrightarrow> idset_ok (Remove s e) \<and> ids (Remove s e) = ids s - {eid_key e}"
  using Remove_loop_ok [of "repls s" e] by (simp add: Remove_def idset_ok_def ids_def)

lemma Concat_ranges_ok:
  assumes "idset_ok s" "list_all node_ok rs"
  shows "\<exists>s'. Concat_ranges s r rs = (True, s') \<and> idset_ok s' \<and> ids s' = ids s \<union> {r} \<times> denote rs
    \<and> form s' = form s \<and> mapper s' = mapper s"
  using assms
proof (induction rs arbitrary: s)
  case (Cons nd rs)
  then obtain s1 where s1: "AppendRange s r (lo nd) (hi nd) = (True, s1)" "idset_ok s1"
      "ids s1 = ids s \<union> {r} \<times> span nd" "form s1 = form s" "mapper s1 = mapper s"
    using AppendRange_ok [of s "lo nd" "hi nd" r] by (auto simp: node_ok_def span_def)
  then show ?case using Cons.IH [of s1] Cons.prems by auto
qed auto

lemma Concat_loop_ok:
  assumes "idset_ok s" "list_all (\<lambda>nd. list_all node_ok (ranges nd)) nds"
  shows "\<exists>s'. Concat_loop s nds = (True, s') \<and> idset_ok s' \<and> ids s' = ids s \<union> block_ids nds
    \<and> form s' = form s \<and> mapper s' = mapper s"
  using assms
proof (induction nds arbitrary: s)
  case (Cons nd nds)
  then obtain s1 where s1: "Concat_ranges s (replid nd) (ranges nd) = (True, s1)" "idset_ok s1"
      "ids s1 = ids s \<union> {replid nd} \<times> denote (ranges nd)" "form s1 = form s" "mapper s1 = mapper s"
    using Concat_ranges_ok [of s "ranges nd" "replid nd"] by auto
  then show ?case using Cons.IH [of s1] Cons.prems by auto
qed auto

lemma Concatenate_ok:
  assumes "idset_ok s" "idset_ok t"
  shows "\<exists>s'. Concatenate s t = (True, s') \<and> idset_ok s' \<and> ids s' = ids s \<union> ids t
    \<and> form s' = form s \<and> mapper s' = mapper s"
  using Concat_loop_ok [of s "repls t"] assms
  by (simp add: Concatenate_def idset_ok_def blocks_ok_def ids_def)

section \<open>The contract of an id collection\<close>

text \<open>
  What the synchronisation state and the delta computation rely on: membership after adding,
  removing and merging. The clients of the contract only see ids, never ranges or replicas.
\<close>

locale id_collection =
  fixes inv :: "'s \<Rightarrow> bool" and member :: "'s \<Rightarrow> eid \<Rightarrow> bool" and add :: "'s \<Rightarrow> eid \<Rightarrow> 's"
    and del :: "'s \<Rightarrow> eid \<Rightarrow> 's" and merge :: "'s \<Rightarrow> 's \<Rightarrow> 's"
  assumes add_inv: "inv s \<Longrightarrow> inv (add s e)"
    and add_member: "inv s \<Longrightarrow> member (add s e) f \<longleftrightarrow> f = e \<or> member s f"
    and del_inv: "inv s \<Longrightarrow> inv (del s e)"
    and del_member: "inv s \<Longrightarrow> member (del s e) f \<longleftrightarrow> f \<noteq> e \<and> member s f"
    and merge_inv: "inv s \<Longrightarrow> inv t \<Longrightarrow> inv (merge s t)"
    and merge_member: "inv s \<Longrightarrow> inv t \<Longrightarrow> member (merge s t) f \<longleftrightarrow> member s f \<or> member t f"
begin

lemma adds: "inv s \<Longrightarrow> inv (foldl add s es) \<and> (\<forall>f. member (foldl add s es) f \<longleftrightarrow> f \<in> set es \<or> member s f)"
  by (induction es arbitrary: s) (auto simp: add_inv add_member)

lemma dels: "inv s \<Longrightarrow> inv (foldl del s es) \<and> (\<forall>f. member (foldl del s es) f \<longleftrightarrow> f \<notin> set es \<and> member s f)"
  by (induction es arbitrary: s) (auto simp: del_inv del_member)

text \<open>A log of uploads applied in any order and grouping gives the same membership.\<close>

lemma replay:
  assumes "inv s" "inv t" "set es = set es'"
  shows "member (merge (foldl add s es) t) f \<longleftrightarrow> member (foldl add (merge s t) es') f"
  using assms adds [of s es] adds [of "merge s t" es'] by (auto simp: merge_member merge_inv)

end

interpretation ic: id_collection idset_ok Contains "\<lambda>s e. snd (Append s e)" Remove "\<lambda>s t. snd (Concatenate s t)"
proof
  fix s t e f
  assume s: "idset_ok s"
  obtain s1 where a: "Append s e = (True, s1)" "idset_ok s1" "ids s1 = insert (eid_key e) (ids s)"
    using Append_ok [OF s] by blast
  show "idset_ok (snd (Append s e))" "Contains (snd (Append s e)) f \<longleftrightarrow> f = e \<or> Contains s f"
    using a s by (auto simp: Contains_ids eid_key_inj)
  show "idset_ok (Remove s e)" "Contains (Remove s e) f \<longleftrightarrow> f \<noteq> e \<and> Contains s f"
    using Remove_ok [OF s, of e] s by (auto simp: Contains_ids eid_key_inj)
  assume t: "idset_ok t"
  obtain s2 where "Concatenate s t = (True, s2)" "idset_ok s2" "ids s2 = ids s \<union> ids t"
    using Concatenate_ok [OF s t] by blast
  then show "idset_ok (snd (Concatenate s t))"
    "Contains (snd (Concatenate s t)) f \<longleftrightarrow> Contains s f \<or> Contains t f"
    using s t by (simp_all add: Contains_ids)
qed

text \<open>What a replica mapper promises: the two directions agree.\<close>

locale replica_mapping =
  fixes toGUID :: "u16 \<Rightarrow> guid option" and toID :: "guid \<Rightarrow> u16 option"
  assumes guid_id: "toGUID r = Some g \<Longrightarrow> toID g = Some r"
    and id_guid: "toID g = Some r \<Longrightarrow> toGUID r = Some g"
begin

lemma toGUID_inj: "toGUID r = Some g \<Longrightarrow> toGUID r' = Some g \<Longrightarrow> r = r'"
  by (drule guid_id, drule guid_id) simp

lemma resolves_iff: "toID g = Some r \<longleftrightarrow> toGUID r = Some g"
  using guid_id id_guid by blast

end

interpretation sm: replica_mapping "ToGUID (storeMapper home)" "ToID (storeMapper home)" for home
  by unfold_locales (auto simp: storeMapper_def split: if_splits)

section \<open>Serialising and reading back\<close>

abbreviation nonempty :: "repl_node list \<Rightarrow> repl_node list" where
  "nonempty nds \<equiv> filter (\<lambda>nd. \<not> rs_empty (ranges nd)) nds"

text \<open>The replica keys and ranges of the non-empty blocks: what the wire form carries.\<close>

definition keyed :: "repl_node list \<Rightarrow> (u16 \<times> range_set) list" where
  "keyed nds = map (\<lambda>nd. (replid nd, ranges nd)) nds"

definition view :: "repl_node list \<Rightarrow> (u16 \<times> range_set) list" where
  "view nds = map (\<lambda>nd. (replid nd, ranges nd)) (nonempty nds)"

definition encodable_blocks :: "repl_node list \<Rightarrow> bool" where
  "encodable_blocks nds \<longleftrightarrow> list_all (\<lambda>nd. encodable (ranges nd)) nds"

definition wire :: "(repl_node \<Rightarrow> bytes) \<Rightarrow> repl_node list \<Rightarrow> bytes" where
  "wire K nds = concat (map (\<lambda>nd. K nd @ serializeGlobset (ranges nd)) (nonempty nds))"

lemma Deserialize_block:
  assumes "block_key fm (pre @ k @ serializeGlobset rs @ rest) (length pre) = Inr (nd, length pre + length k)"
    "k \<noteq> []" "encodable rs"
  shows "Deserialize_loop fm (pre @ k @ serializeGlobset rs @ rest) (length pre) acc
    = Deserialize_loop fm (pre @ k @ serializeGlobset rs @ rest)
        (length (pre @ k @ serializeGlobset rs)) (acc @ [nd\<lparr>ranges := rs\<rparr>])"
proof -
  have "deserializeGlobset (serializeGlobset rs @ rest) = (rs, length (serializeGlobset rs))"
    using assms(3) by (rule deserialize_serialize)
  moreover have "length (serializeGlobset rs) \<noteq> 0"
    using deserializeGlobset_moves [of "serializeGlobset rs @ [0]"] deserialize_serialize [OF assms(3), of "[0]"] by auto
  ultimately show ?thesis
    using assms(1,2) by (subst Deserialize_loop.simps) (simp add: add.assoc)
qed

lemma Deserialize_blocks:
  assumes "\<And>nd pre rest. nd \<in> set nds \<Longrightarrow> block_key fm (pre @ K nd @ rest) (length pre) = Inr (P nd, length pre + length (K nd))"
    "\<And>nd. nd \<in> set nds \<Longrightarrow> K nd \<noteq> []" "encodable_blocks nds"
  shows "Deserialize_loop fm (pre @ wire K nds) (length pre) acc
    = Inr (acc @ map (\<lambda>nd. (P nd)\<lparr>ranges := ranges nd\<rparr>) (nonempty nds))"
  using assms
proof (induction nds arbitrary: pre acc)
  case Nil
  then show ?case by (subst Deserialize_loop.simps) (simp add: wire_def)
next
  case (Cons nd nds)
  have IH: "Deserialize_loop fm (pre' @ wire K nds) (length pre') acc'
      = Inr (acc' @ map (\<lambda>nd. (P nd)\<lparr>ranges := ranges nd\<rparr>) (nonempty nds))" for pre' acc'
    using Cons.prems by (intro Cons.IH) (simp_all add: encodable_blocks_def)
  show ?case
  proof (cases "rs_empty (ranges nd)")
    case True
    then show ?thesis using IH [of pre acc] by (simp add: wire_def)
  next
    case False
    let ?b = "K nd @ serializeGlobset (ranges nd)"
    have "wire K (nd # nds) = ?b @ wire K nds" using False by (simp add: wire_def)
    moreover have "encodable (ranges nd)" using Cons.prems(3) by (simp add: encodable_blocks_def)
    ultimately have "Deserialize_loop fm (pre @ wire K (nd # nds)) (length pre) acc
        = Deserialize_loop fm ((pre @ ?b) @ wire K nds) (length (pre @ ?b)) (acc @ [(P nd)\<lparr>ranges := ranges nd\<rparr>])"
      using Deserialize_block [of fm pre "K nd" "ranges nd" "wire K nds" "P nd" acc] Cons.prems(1,2) by simp
    then show ?thesis using IH [of "pre @ ?b"] False by simp
  qed
qed

lemma Serialize_blocks:
  assumes "\<And>nd out. nd \<in> set nds \<Longrightarrow> Serialize_loop fm mp out [nd] = Inr (out @ wire K [nd])"
  shows "Serialize_loop fm mp out nds = Inr (out @ wire K nds)"
  using assms
proof (induction nds arbitrary: out)
  case (Cons nd nds)
  show ?case
  proof (cases "rs_empty (ranges nd)")
    case True
    then show ?thesis using Cons by (simp add: wire_def)
  next
    case False
    have "Serialize_loop fm mp out [nd] = Inr (out @ wire K [nd])" using Cons.prems by simp
    then have "Serialize_loop fm mp out (nd # nds) = Serialize_loop fm mp (out @ wire K [nd]) nds"
      using False by (auto simp: bindr_eq_Inr_iff)
    also have "\<dots> = Inr ((out @ wire K [nd]) @ wire K nds)" using Cons.prems by (intro Cons.IH) simp
    also have "(out @ wire K [nd]) @ wire K nds = out @ wire K (nd # nds)" by (simp add: wire_def)
    finally show ?thesis .
  qed
qed (simp add: wire_def)

lemma Convert_loop_ok:
  assumes "\<And>nd. nd \<in> set nds \<Longrightarrow> ToID mp (replguid (P nd)) = Some (replid nd)"
  shows "\<exists>nds'. Convert_loop mp (map (\<lambda>nd. (P nd)\<lparr>ranges := ranges nd\<rparr>) nds) = (True, nds')
    \<and> map (\<lambda>nd. (replid nd, ranges nd)) nds' = map (\<lambda>nd. (replid nd, ranges nd)) nds"
  using assms by (induction nds) auto

lemma keyed_view: "keyed nds' = view nds \<Longrightarrow> view nds' = view nds"
proof -
  assume h: "keyed nds' = view nds"
  have "map ranges nds' = map ranges (nonempty nds)"
    using arg_cong [OF h, of "map snd"] by (simp add: keyed_def view_def comp_def)
  then have "ranges ` set nds' = ranges ` set (nonempty nds)" by (metis set_map)
  moreover have "\<forall>r\<in>ranges ` set (nonempty nds). \<not> rs_empty r" by auto
  ultimately have "\<forall>r\<in>ranges ` set nds'. \<not> rs_empty r" by (simp only:)
  then have "nonempty nds' = nds'" by (simp add: filter_id_conv)
  then show ?thesis using h by (simp add: view_def keyed_def)
qed

lemma block_ids_keyed: "block_ids nds = (\<Union>(r, rs)\<in>set (keyed nds). {r} \<times> denote rs)"
  by (auto simp: block_ids_def keyed_def)

lemma block_ids_view: "block_ids nds = (\<Union>(r, rs)\<in>set (view nds). {r} \<times> denote rs)"
  by (induction nds) (auto simp: view_def rs_empty_def)

text \<open>A set rebuilt from the wire holds the same ids and keeps the invariant.\<close>

lemma keyed_rebuilt:
  assumes "keyed nds' = view nds" "blocks_ok nds"
  shows "blocks_ok nds' \<and> block_ids nds' = block_ids nds"
proof -
  have "map replid nds' = map replid (nonempty nds)" "map ranges nds' = map ranges (nonempty nds)"
    using arg_cong [OF assms(1), of "map fst"] arg_cong [OF assms(1), of "map snd"]
    by (simp_all add: keyed_def view_def comp_def)
  moreover have "distinct (map replid (nonempty nds))"
    using assms(2) by (simp add: blocks_ok_def distinct_map_filter)
  moreover have "ranges ` set nds' \<subseteq> ranges ` set nds"
    using calculation(2) by (metis filter_is_subset image_mono set_map)
  ultimately have "blocks_ok nds'" using assms(2) by (auto simp: blocks_ok_def list_all_iff image_subset_iff image_iff)
  then show ?thesis using assms(1) block_ids_keyed [of nds'] block_ids_view [of nds] by simp
qed

text \<open>Replid-keyed sets.\<close>

lemma idset_wire_id:
  assumes "form s = FormIDLoose" "encodable_blocks (repls s)"
  shows "\<exists>b t u. SerializeSet s = Inr b \<and> Deserialize (NewIDSet FormIDPacked mp) b = Inr t
    \<and> Convert t = (True, u) \<and> form u = FormIDLoose \<and> keyed (repls u) = view (repls s)"
proof -
  let ?K = "\<lambda>nd. le_bytes 2 (replid nd)"
  let ?P = "\<lambda>nd. \<lparr>replid = replid nd, replguid = zero_guid, ranges = []\<rparr>"
  have ser: "SerializeSet s = Inr (wire ?K (repls s))"
    unfolding SerializeSet_def using Serialize_blocks [of "repls s" FormIDLoose "mapper s" ?K "[]"] assms(1)
    by (simp add: wire_def)
  have key: "block_key FormIDPacked (pre @ ?K nd @ rest) (length pre) = Inr (?P nd, length pre + length (?K nd))"
    for nd pre rest by (simp add: block_key_def)
  have des: "Deserialize_loop FormIDPacked ([] @ wire ?K (repls s)) (length ([] :: bytes)) []
      = Inr ([] @ map (\<lambda>nd. (?P nd)\<lparr>ranges := ranges nd\<rparr>) (nonempty (repls s)))"
    using key assms(2) by (intro Deserialize_blocks) simp_all
  define t where "t = (NewIDSet FormIDPacked mp)\<lparr>repls := map (\<lambda>nd. (?P nd)\<lparr>ranges := ranges nd\<rparr>) (nonempty (repls s))\<rparr>"
  have "Deserialize (NewIDSet FormIDPacked mp) (wire ?K (repls s)) = Inr t"
    using des by (simp add: Deserialize_def NewIDSet_def t_def)
  moreover have "Convert t = (True, t\<lparr>form := FormIDLoose\<rparr>)" by (simp add: Convert_def t_def NewIDSet_def)
  moreover have "keyed (repls t) = view (repls s)" by (simp add: t_def keyed_def view_def)
  ultimately show ?thesis using ser by auto
qed

text \<open>GUID-keyed sets, through a mapper that resolves every block both ways.\<close>

definition resolvable :: "replica_mapper \<Rightarrow> repl_node list \<Rightarrow> bool" where
  "resolvable m nds \<longleftrightarrow> list_all (\<lambda>nd. case ToGUID m (replid nd) of
     None \<Rightarrow> False | Some g \<Rightarrow> guid_wf g \<and> ToID m g = Some (replid nd)) nds"

lemma idset_wire_guid:
  assumes "form s = FormGUIDLoose" "encodable_blocks (repls s)" "mapper s = Some m" "resolvable m (repls s)"
  shows "\<exists>b t u. SerializeSet s = Inr b \<and> Deserialize (NewIDSet FormGUIDPacked (Some m)) b = Inr t
    \<and> Convert t = (True, u) \<and> form u = FormGUIDLoose \<and> mapper u = Some m \<and> keyed (repls u) = view (repls s)"
proof -
  let ?g = "\<lambda>nd. the (ToGUID m (replid nd))"
  let ?K = "\<lambda>nd. Flat (?g nd)"
  let ?P = "\<lambda>nd. \<lparr>replid = 0, replguid = ?g nd, ranges = []\<rparr>"
  have res: "ToGUID m (replid nd) \<noteq> None" "guid_wf (?g nd)" "ToID m (?g nd) = Some (replid nd)"
    if "nd \<in> set (repls s)" for nd
    using that assms(4) by (auto simp: resolvable_def list_all_iff split: option.splits)
  have ser: "SerializeSet s = Inr (wire ?K (repls s))"
  proof -
    have "Serialize_loop FormGUIDLoose (Some m) out [nd] = Inr (out @ wire ?K [nd])"
      if "nd \<in> set (repls s)" for nd out using res(1) [OF that] by (auto simp: wire_def)
    then show ?thesis
      unfolding SerializeSet_def assms(1,3) by (subst Serialize_blocks [where K = ?K]) simp_all
  qed
  have key: "block_key FormGUIDPacked (pre @ ?K nd @ rest) (length pre) = Inr (?P nd, length pre + length (?K nd))"
    if "nd \<in> set (repls s)" for nd pre rest using res(2) [OF that] by (simp add: block_key_def)
  have des: "Deserialize_loop FormGUIDPacked ([] @ wire ?K (repls s)) (length ([] :: bytes)) []
      = Inr ([] @ map (\<lambda>nd. (?P nd)\<lparr>ranges := ranges nd\<rparr>) (nonempty (repls s)))"
    using key assms(2) by (intro Deserialize_blocks) (simp_all add: Flat_def)
  define t where "t = (NewIDSet FormGUIDPacked (Some m))\<lparr>repls := map (\<lambda>nd. (?P nd)\<lparr>ranges := ranges nd\<rparr>) (nonempty (repls s))\<rparr>"
  have "Deserialize (NewIDSet FormGUIDPacked (Some m)) (wire ?K (repls s)) = Inr t"
    using des by (simp add: Deserialize_def NewIDSet_def t_def)
  moreover obtain nds' where c: "Convert_loop m (repls t) = (True, nds')"
    "map (\<lambda>nd. (replid nd, ranges nd)) nds' = map (\<lambda>nd. (replid nd, ranges nd)) (nonempty (repls s))"
    using Convert_loop_ok [of "nonempty (repls s)" m ?P] res(3) by (auto simp: t_def)
  moreover have "Convert t = (True, t\<lparr>repls := nds', form := FormGUIDLoose\<rparr>)"
    using c(1) by (simp add: Convert_def t_def NewIDSet_def)
  moreover have "mapper t = Some m" by (simp add: t_def NewIDSet_def)
  ultimately show ?thesis using ser by (auto simp: keyed_def view_def)
qed

lemma coalesced_blocks_encodable:
  "list_all (\<lambda>nd. coalesced (ranges nd)) nds \<Longrightarrow> encodable_blocks nds"
  by (auto simp: encodable_blocks_def list_all_iff coalesced_encodable)

section \<open>Properties\<close>

text \<open>
  C2. On loose sets with one block per replica, \<^verbatim>\<open>Append\<close>, \<^verbatim>\<open>Remove\<close> and \<^verbatim>\<open>Concatenate\<close> implement
  insertion, deletion and union of message ids: they succeed, keep the invariant, and
  \<^verbatim>\<open>Contains\<close> afterwards answers for the abstract set, for any sequence of ids.
\<close>

theorem idset_refines_set:
  assumes "idset_ok s" "idset_ok t"
  shows "fst (Append s e) \<and> fst (Concatenate s t)
    \<and> idset_ok (snd (Append s e)) \<and> idset_ok (Remove s e) \<and> idset_ok (snd (Concatenate s t))
    \<and> (Contains (snd (Append s e)) f \<longleftrightarrow> f = e \<or> Contains s f)
    \<and> (Contains (Remove s e) f \<longleftrightarrow> f \<noteq> e \<and> Contains s f)
    \<and> (Contains (snd (Concatenate s t)) f \<longleftrightarrow> Contains s f \<or> Contains t f)
    \<and> (Contains (foldl (\<lambda>s e. snd (Append s e)) s es) f \<longleftrightarrow> f \<in> set es \<or> Contains s f)"
proof -
  have "fst (Append s e)" "fst (Concatenate s t)"
    using Append_ok [OF assms(1), of e] Concatenate_ok [OF assms] by auto
  moreover note ic.adds [OF assms(1), of es]
  ultimately show ?thesis
    by (simp add: assms ic.add_inv ic.del_inv ic.merge_inv ic.add_member ic.del_member ic.merge_member)
qed

theorem idset_refines_set_witness:
  "let s = snd (AppendRange (NewIDSet FormIDLoose None) 1 5 9); t = snd (AppendRange (NewIDSet FormIDLoose None) 2 7 7)
   in idset_ok s \<and> idset_ok t \<and> Contains (snd (Append s (MakeEIDEx 1 11))) (MakeEIDEx 1 11)
    \<and> \<not> Contains (Remove s (MakeEIDEx 1 6)) (MakeEIDEx 1 6)
    \<and> Contains (snd (Concatenate s t)) (MakeEIDEx 2 7)"
proof -
  let ?s = "snd (AppendRange (NewIDSet FormIDLoose None) 1 5 9)"
  let ?t = "snd (AppendRange (NewIDSet FormIDLoose None) 2 7 7)"
  have r: "repls ?s = [\<lparr>replid = 1, replguid = zero_guid, ranges = [mk_range 5 9]\<rparr>]" "form ?s = FormIDLoose"
    "repls ?t = [\<lparr>replid = 2, replguid = zero_guid, ranges = [mk_range 7 7]\<rparr>]" "form ?t = FormIDLoose"
    "Contains ?t (MakeEIDEx 2 7)" by code_simp+
  have ok: "idset_ok ?s" "idset_ok ?t" using r by (simp_all add: idset_ok_def blocks_ok_def node_ok_def packed_def)
  show ?thesis
    using ok r(5) idset_refines_set [OF ok(1,2), of "MakeEIDEx 1 11" "MakeEIDEx 1 11"]
      idset_refines_set [OF ok(1,2), of "MakeEIDEx 1 6" "MakeEIDEx 1 6"]
      idset_refines_set [OF ok(1,2), of 0 "MakeEIDEx 2 7"] by (simp add: Let_def)
qed

text \<open>
  C21. A loose set of coalesced blocks survives the wire in both keyings: it serialises, the
  bytes deserialise into a packed set, \<^verbatim>\<open>Convert\<close> succeeds, and the result has the same replica
  ids and ranges (empty blocks are not written). The GUID form goes through the store's
  replica mapper, which knows the home replica only.
\<close>

theorem idset_wire_roundtrip:
  assumes "list_all (\<lambda>nd. coalesced (ranges nd)) (repls s)"
  shows "(form s = FormIDLoose \<longrightarrow> (\<exists>b t u. SerializeSet s = Inr b
      \<and> Deserialize (NewIDSet FormIDPacked mp) b = Inr t \<and> Convert t = (True, u)
      \<and> form u = FormIDLoose \<and> keyed (repls u) = view (repls s)))
    \<and> (form s = FormGUIDLoose \<and> guid_wf home \<and> mapper s = Some (storeMapper home)
        \<and> list_all (\<lambda>nd. replid nd = homeReplID) (repls s)
      \<longrightarrow> (\<exists>b t u. SerializeSet s = Inr b
        \<and> Deserialize (NewIDSet FormGUIDPacked (Some (storeMapper home))) b = Inr t \<and> Convert t = (True, u)
        \<and> form u = FormGUIDLoose \<and> keyed (repls u) = view (repls s)))"
proof -
  note enc = coalesced_blocks_encodable [OF assms]
  have "resolvable (storeMapper home) (repls s)"
    if "guid_wf home" "list_all (\<lambda>nd. replid nd = homeReplID) (repls s)"
    using that by (auto simp: resolvable_def list_all_iff storeMapper_def)
  then show ?thesis
    using idset_wire_id [of s mp, OF _ enc] idset_wire_guid [of s "storeMapper home", OF _ enc] by blast
qed

theorem idset_wire_roundtrip_witness:
  "let s = snd (AppendRange (NewIDSet FormIDLoose None) 1 5 9) in
   \<exists>b t u. SerializeSet s = Inr b \<and> Deserialize (NewIDSet FormIDPacked None) b = Inr t \<and> Convert t = (True, u)
      \<and> form u = FormIDLoose \<and> keyed (repls u) = [(1, [mk_range 5 9])]"
proof -
  let ?s = "snd (AppendRange (NewIDSet FormIDLoose None) 1 5 9)"
  have "repls ?s = [\<lparr>replid = 1, replguid = zero_guid, ranges = [mk_range 5 9]\<rparr>]" "form ?s = FormIDLoose"
    "view (repls ?s) = [(1, [mk_range 5 9])]" by code_simp+
  moreover from this have "list_all (\<lambda>nd. coalesced (ranges nd)) (repls ?s)"
    by (simp add: coalesced_def node_ok_def)
  ultimately show ?thesis using idset_wire_roundtrip [of ?s None] by (simp add: Let_def)
qed

text \<open>
  A packed set is immutable and opaque: \<^verbatim>\<open>Append\<close>, \<^verbatim>\<open>AppendRange\<close> and \<^verbatim>\<open>Concatenate\<close> refuse and
  change nothing, \<^verbatim>\<open>Remove\<close> is a no-op, serialising anything non-empty fails, and a GUID-packed
  set contains nothing; an inverted range is refused by every set.
\<close>

lemma packed_set_immutable:
  assumes "packed (form s)"
  shows "Append s e = (False, s) \<and> AppendRange s r l h = (False, s) \<and> Remove s e = s
    \<and> Concatenate s t = (False, s) \<and> Concatenate t s = (False, t)
    \<and> (\<not> EmptySet s \<longrightarrow> SerializeSet s = Inl (ErrPackedForm (form s)))
    \<and> (form s = FormGUIDPacked \<longrightarrow> \<not> Contains s e)
    \<and> (h < l \<longrightarrow> AppendRange t r l h = (False, t))"
proof -
  have f: "form s \<noteq> FormIDLoose" "form s \<noteq> FormGUIDLoose" using assms by (auto simp: packed_def)
  have "\<not> Empty_loop nds \<Longrightarrow> Serialize_loop (form s) mp out nds = Inl (ErrPackedForm (form s))" for nds mp out
    using f by (induction nds) auto
  then show ?thesis
    using assms by (simp add: Append_def AppendRange_def Remove_def Concatenate_def EmptySet_def
        SerializeSet_def Contains_def)
qed

text \<open>
  Nothing merges blocks of the same replica on decode, and \<^verbatim>\<open>Contains\<close> stops at the first
  block: an id sent in a second block for the same replica is held, is enumerated, and is
  reported absent.
\<close>

lemma idset_duplicate_block_hidden:
  "case Deserialize (NewIDSet FormIDPacked None)
      [1, 0, 6, 0, 0, 0, 0, 0, 5, 0, 1, 0, 6, 0, 0, 0, 0, 0, 9, 0] of
     Inl e \<Rightarrow> False
   | Inr t \<Rightarrow> (case Convert t of (ok, u) \<Rightarrow> ok
       \<and> ForEachRange u (\<lambda>r l h acc. acc @ [(r, l, h)]) [] = [(1, 5, 5), (1, 9, 9)]
       \<and> Contains u (MakeEIDEx 1 5) \<and> \<not> Contains u (MakeEIDEx 1 9))"
  by code_simp

end
