(* ===== verification/Ics_State.thy ===== *)
theory Ics_State
  imports Ics_Idset
begin

text \<open>
  \<^verbatim>\<open>internal/ics/icsstate.go\<close>: the synchronisation state a client and the server exchange, how an
  uploaded set is folded into it, and how it is emitted as meta-tag properties; with the state
  meta-tag predicates of \<^verbatim>\<open>internal/ics/markers.go\<close>.
\<close>

section \<open>Meta-tags (markers.go)\<close>

abbreviation (input) metaTagIdsetGiven :: u32 where "metaTagIdsetGiven \<equiv> 0x40170003"
abbreviation (input) metaTagIdsetGiven1 :: u32 where "metaTagIdsetGiven1 \<equiv> 0x40170102"
abbreviation (input) metaTagCnsetSeen :: u32 where "metaTagCnsetSeen \<equiv> 0x67960102"
abbreviation (input) metaTagCnsetSeenFAI :: u32 where "metaTagCnsetSeenFAI \<equiv> 0x67DA0102"
abbreviation (input) metaTagCnsetRead :: u32 where "metaTagCnsetRead \<equiv> 0x67D20102"

definition IsStateMetaTag :: "u32 \<Rightarrow> bool" where
  "IsStateMetaTag tag \<longleftrightarrow> tag \<in> {metaTagIdsetGiven, metaTagIdsetGiven1, metaTagCnsetSeen,
     metaTagCnsetSeenFAI, metaTagCnsetRead}"

definition IsGivenStateMetaTag :: "u32 \<Rightarrow> bool" where
  "IsGivenStateMetaTag tag \<longleftrightarrow> tag = metaTagIdsetGiven \<or> tag = metaTagIdsetGiven1"

definition IsContentsOnlyStateMetaTag :: "u32 \<Rightarrow> bool" where
  "IsContentsOnlyStateMetaTag tag \<longleftrightarrow> tag = metaTagCnsetSeenFAI \<or> tag = metaTagCnsetRead"

section \<open>The state\<close>

datatype state_type = ContentsDown | ContentsUp | HierarchyDown | HierarchyUp

definition isUp :: "state_type \<Rightarrow> bool" where
  "isUp t \<longleftrightarrow> t = ContentsUp \<or> t = HierarchyUp"

text \<open>A nil set pointer is \<open>None\<close>.\<close>

record ics_state =
  styp :: state_type
  given :: "id_set option"
  seen :: "id_set option"
  seenFAI :: "id_set option"
  readset :: "id_set option"
  smapper :: "replica_mapper option"

definition NewState :: "state_type \<Rightarrow> replica_mapper option \<Rightarrow> ics_state" where
  "NewState ty mp =
     (let mk = Some (NewIDSet FormGUIDLoose mp);
          s = \<lparr>styp = ty, given = None, seen = mk, seenFAI = None, readset = None, smapper = mp\<rparr>
      in case ty of
           ContentsDown \<Rightarrow> s\<lparr>given := mk, seenFAI := mk, readset := mk\<rparr>
         | ContentsUp \<Rightarrow> s\<lparr>given := mk, seenFAI := mk, readset := mk\<rparr>
         | HierarchyDown \<Rightarrow> s\<lparr>given := mk\<rparr>
         | HierarchyUp \<Rightarrow> s)"

text \<open>The result of \<^verbatim>\<open>Concatenate\<close> is ignored: whatever it merged before refusing stays merged.\<close>

definition mergeUp :: "ics_state \<Rightarrow> id_set option \<Rightarrow> id_set \<Rightarrow> id_set" where
  "mergeUp s prior incoming =
     (case prior of
        None \<Rightarrow> incoming
      | Some p \<Rightarrow> if isUp (styp s) \<and> \<not> EmptySet p then snd (Concatenate incoming p) else incoming)"

definition AppendIDSet :: "ics_state \<Rightarrow> u32 \<Rightarrow> bytes \<Rightarrow> ics_error + ics_state" where
  "AppendIDSet s metaTag serialized =
     bindr (Deserialize (NewIDSet FormGUIDPacked (smapper s)) serialized) (\<lambda>incoming.
     case Convert incoming of (ok, incoming) \<Rightarrow>
       if \<not> ok then Inl (ErrUnresolved metaTag)
       else if metaTag = metaTagIdsetGiven \<or> metaTag = metaTagIdsetGiven1 then Inr (s\<lparr>given := Some incoming\<rparr>)
       else if metaTag = metaTagCnsetSeen then Inr (s\<lparr>seen := Some (mergeUp s (seen s) incoming)\<rparr>)
       else if metaTag = metaTagCnsetSeenFAI then
         Inr (s\<lparr>seenFAI := Some (if styp s = ContentsUp then mergeUp s (seenFAI s) incoming else incoming)\<rparr>)
       else if metaTag = metaTagCnsetRead then
         Inr (s\<lparr>readset := Some (if styp s = ContentsUp then mergeUp s (readset s) incoming else incoming)\<rparr>)
       else Inl (ErrNotStateTag metaTag))"

definition emitsGiven :: "ics_state \<Rightarrow> bool" where
  "emitsGiven s \<longleftrightarrow> (case given s of
     None \<Rightarrow> False
   | Some g \<Rightarrow> styp s = ContentsDown \<or> styp s = HierarchyDown \<or> (styp s = ContentsUp \<and> \<not> EmptySet g))"

definition emitsSeenFAI :: "ics_state \<Rightarrow> bool" where
  "emitsSeenFAI s \<longleftrightarrow> seenFAI s \<noteq> None \<and> (styp s = ContentsDown \<or> styp s = ContentsUp)"

definition emitsRead :: "ics_state \<Rightarrow> bool" where
  "emitsRead s \<longleftrightarrow> (case readset s of
     None \<Rightarrow> False
   | Some r \<Rightarrow> styp s = ContentsDown \<or> (styp s = ContentsUp \<and> \<not> EmptySet r))"

text \<open>
  The closure \<^verbatim>\<open>emit\<close>: it dereferences the set pointer, which the callers have tested (\<open>seen\<close> is
  always allocated); the \<^verbatim>\<open>StreamProp\<close> is the tag with its binary value.
\<close>

definition emit :: "u32 \<Rightarrow> id_set option \<Rightarrow> (u32 \<times> bytes) list \<Rightarrow> ics_error + (u32 \<times> bytes) list" where
  "emit metaTag st out = bindr (SerializeSet (the st)) (\<lambda>b. Inr (out @ [(metaTag, b)]))"

definition SerializeState :: "ics_state \<Rightarrow> ics_error + (u32 \<times> bytes) list" where
  "SerializeState s =
     bindr (if emitsGiven s then emit metaTagIdsetGiven1 (given s) [] else Inr []) (\<lambda>out.
     bindr (emit metaTagCnsetSeen (seen s) out) (\<lambda>out.
     bindr (if emitsSeenFAI s then emit metaTagCnsetSeenFAI (seenFAI s) out else Inr out) (\<lambda>out.
     if emitsRead s then emit metaTagCnsetRead (readset s) out else Inr out)))"

text \<open>Folding a list of uploaded properties, as the upload-state stream does one by one.\<close>

fun AppendAll :: "ics_state \<Rightarrow> (u32 \<times> bytes) list \<Rightarrow> ics_error + ics_state" where
  "AppendAll s [] = Inr s"
| "AppendAll s ((t, b) # ps) = bindr (AppendIDSet s t b) (\<lambda>s. AppendAll s ps)"

section \<open>Laws\<close>

text \<open>A tracked set of a well-formed state: loose, coalesced, home replica only.\<close>

definition home_set :: "guid \<Rightarrow> id_set \<Rightarrow> bool" where
  "home_set home s \<longleftrightarrow> form s = FormGUIDLoose \<and> mapper s = Some (storeMapper home)
     \<and> list_all (\<lambda>nd. coalesced (ranges nd) \<and> replid nd = homeReplID) (repls s)"

lemma home_set_wire:
  assumes "home_set home s" "guid_wf home"
  shows "\<exists>b t u. SerializeSet s = Inr b \<and> Deserialize (NewIDSet FormGUIDPacked (Some (storeMapper home))) b = Inr t
    \<and> Convert t = (True, u) \<and> form u = FormGUIDLoose \<and> keyed (repls u) = view (repls s)"
proof -
  have "resolvable (storeMapper home) (repls s)"
    using assms by (auto simp: home_set_def resolvable_def list_all_iff storeMapper_def)
  moreover have "encodable_blocks (repls s)"
    using assms by (intro coalesced_blocks_encodable) (auto simp: home_set_def list_all_iff)
  ultimately show ?thesis
    using idset_wire_guid [of s "storeMapper home"] assms by (auto simp: home_set_def)
qed

text \<open>Equal up to empty blocks and replica GUID fields: the content of an optional set.\<close>

definition content :: "id_set option \<Rightarrow> (u16 \<times> range_set) list" where
  "content so = (case so of None \<Rightarrow> [] | Some s \<Rightarrow> view (repls s))"

lemma content_None [simp]: "content None = []" and content_Some [simp]: "content (Some s) = view (repls s)"
  by (simp_all add: content_def)

lemma EmptySet_view: "EmptySet s \<longleftrightarrow> view (repls s) = []"
proof -
  have "Empty_loop nds \<longleftrightarrow> view nds = []" for nds
    by (induction nds) (auto simp: view_def)
  then show ?thesis by (simp add: EmptySet_def)
qed

lemma EmptySet_New [simp]: "EmptySet (NewIDSet f m)"
  by (simp add: EmptySet_def NewIDSet_def)

text \<open>One emitted set re-applied to a state whose target set is still empty.\<close>

definition fresh :: "id_set option \<Rightarrow> bool" where
  "fresh p \<longleftrightarrow> (case p of None \<Rightarrow> True | Some q \<Rightarrow> EmptySet q)"

definition home_opt :: "guid \<Rightarrow> id_set option \<Rightarrow> bool" where
  "home_opt home p \<longleftrightarrow> (case p of None \<Rightarrow> True | Some q \<Rightarrow> home_set home q)"

lemma mergeUp_fresh: "fresh p \<Longrightarrow> mergeUp st p u = u"
  by (auto simp: mergeUp_def fresh_def split: option.splits)

lemma reappend:
  assumes "home_set home s" "guid_wf home"
  shows "\<exists>b u. SerializeSet s = Inr b \<and> view (repls u) = view (repls s)
    \<and> (\<forall>st. smapper st = Some (storeMapper home) \<longrightarrow>
        AppendIDSet st metaTagIdsetGiven1 b = Inr (st\<lparr>given := Some u\<rparr>)
      \<and> (fresh (seen st) \<longrightarrow> AppendIDSet st metaTagCnsetSeen b = Inr (st\<lparr>seen := Some u\<rparr>))
      \<and> (fresh (seenFAI st) \<longrightarrow> AppendIDSet st metaTagCnsetSeenFAI b = Inr (st\<lparr>seenFAI := Some u\<rparr>))
      \<and> (fresh (readset st) \<longrightarrow> AppendIDSet st metaTagCnsetRead b = Inr (st\<lparr>readset := Some u\<rparr>)))"
proof -
  obtain b t u where b: "SerializeSet s = Inr b" "view (repls u) = view (repls s)"
      "Deserialize (NewIDSet FormGUIDPacked (Some (storeMapper home))) b = Inr t" "Convert t = (True, u)"
    using home_set_wire [OF assms(1,2)] keyed_view by blast
  then show ?thesis
    by (intro exI [of _ b] exI [of _ u]) (simp add: AppendIDSet_def mergeUp_fresh)
qed

lemma fresh_NewState [simp]:
  "fresh (seen (NewState ty mp))" "fresh (seenFAI (NewState ty mp))" "fresh (readset (NewState ty mp))"
  "smapper (NewState ty mp) = mp" "content (given (NewState ty mp)) = []"
  "content (seenFAI (NewState ty mp)) = []" "content (readset (NewState ty mp)) = []"
  by (cases ty; simp add: NewState_def fresh_def Let_def; simp add: NewIDSet_def view_def)+

lemma AppendAll_append: "AppendAll s (ps @ qs) = bindr (AppendAll s ps) (\<lambda>s. AppendAll s qs)"
proof (induction ps arbitrary: s)
  case (Cons p ps)
  obtain t b where "p = (t, b)" by (cases p)
  then show ?case using Cons by (cases "AppendIDSet s t b") auto
qed simp

definition state_ok :: "guid \<Rightarrow> ics_state \<Rightarrow> bool" where
  "state_ok home s \<longleftrightarrow> guid_wf home \<and> smapper s = Some (storeMapper home) \<and> seen s \<noteq> None
     \<and> home_opt home (given s) \<and> home_opt home (seen s) \<and> home_opt home (seenFAI s) \<and> home_opt home (readset s)"

lemma reappend_opt:
  assumes "home_opt home p" "guid_wf home"
  obtains b u where "p \<noteq> None \<Longrightarrow> SerializeSet (the p) = Inr b" "p \<noteq> None \<Longrightarrow> view (repls u) = content p"
    "\<And>st. p \<noteq> None \<Longrightarrow> smapper st = Some (storeMapper home) \<Longrightarrow>
       AppendIDSet st metaTagIdsetGiven1 b = Inr (st\<lparr>given := Some u\<rparr>)"
    "\<And>st. p \<noteq> None \<Longrightarrow> smapper st = Some (storeMapper home) \<Longrightarrow> fresh (seen st) \<Longrightarrow>
       AppendIDSet st metaTagCnsetSeen b = Inr (st\<lparr>seen := Some u\<rparr>)"
    "\<And>st. p \<noteq> None \<Longrightarrow> smapper st = Some (storeMapper home) \<Longrightarrow> fresh (seenFAI st) \<Longrightarrow>
       AppendIDSet st metaTagCnsetSeenFAI b = Inr (st\<lparr>seenFAI := Some u\<rparr>)"
    "\<And>st. p \<noteq> None \<Longrightarrow> smapper st = Some (storeMapper home) \<Longrightarrow> fresh (readset st) \<Longrightarrow>
       AppendIDSet st metaTagCnsetRead b = Inr (st\<lparr>readset := Some u\<rparr>)"
proof (cases p)
  case None
  then show ?thesis by (intro that) auto
next
  case (Some q)
  then obtain b u where "SerializeSet q = Inr b" "view (repls u) = view (repls q)"
    "\<forall>st. smapper st = Some (storeMapper home) \<longrightarrow>
        AppendIDSet st metaTagIdsetGiven1 b = Inr (st\<lparr>given := Some u\<rparr>)
      \<and> (fresh (seen st) \<longrightarrow> AppendIDSet st metaTagCnsetSeen b = Inr (st\<lparr>seen := Some u\<rparr>))
      \<and> (fresh (seenFAI st) \<longrightarrow> AppendIDSet st metaTagCnsetSeenFAI b = Inr (st\<lparr>seenFAI := Some u\<rparr>))
      \<and> (fresh (readset st) \<longrightarrow> AppendIDSet st metaTagCnsetRead b = Inr (st\<lparr>readset := Some u\<rparr>))"
    using reappend [of home q] assms by (auto simp: home_opt_def)
  then show ?thesis using Some by (intro that [of b u]) simp_all
qed

lemma emitsGiven_iff: "emitsGiven s \<longleftrightarrow> given s \<noteq> None \<and> (styp s = ContentsDown \<or> styp s = HierarchyDown
    \<or> styp s = ContentsUp \<and> content (given s) \<noteq> [])"
  by (auto simp: emitsGiven_def EmptySet_view split: option.splits)

lemma emitsRead_iff: "emitsRead s \<longleftrightarrow> readset s \<noteq> None \<and> (styp s = ContentsDown
    \<or> styp s = ContentsUp \<and> content (readset s) \<noteq> [])"
  by (auto simp: emitsRead_def EmptySet_view split: option.splits)

section \<open>Properties\<close>

text \<open>
  C16. A synchronisation state checkpoint survives the wire: for every state type, emitting a
  state whose sets are coalesced and keyed to the home replica and folding the emitted
  properties into a fresh state of the same type rebuilds the content of every set the type
  carries.
\<close>

theorem state_checkpoint_roundtrip:
  assumes "state_ok home s"
  shows "\<exists>out s'. SerializeState s = Inr out \<and> AppendAll (NewState (styp s) (smapper s)) out = Inr s'
    \<and> content (seen s') = content (seen s)
    \<and> (styp s \<noteq> HierarchyUp \<longrightarrow> content (given s') = content (given s))
    \<and> (styp s \<in> {ContentsDown, ContentsUp} \<longrightarrow>
         content (seenFAI s') = content (seenFAI s) \<and> content (readset s') = content (readset s))"
proof -
  let ?m = "Some (storeMapper home)" and ?n = "NewState (styp s) (smapper s)"
  have ok: "guid_wf home" "smapper s = ?m" "seen s \<noteq> None" "home_opt home (given s)" "home_opt home (seen s)"
    "home_opt home (seenFAI s)" "home_opt home (readset s)" using assms by (simp_all add: state_ok_def)
  obtain bg ug where g: "given s \<noteq> None \<Longrightarrow> SerializeSet (the (given s)) = Inr bg"
      "given s \<noteq> None \<Longrightarrow> view (repls ug) = content (given s)"
      "\<And>st. given s \<noteq> None \<Longrightarrow> smapper st = ?m \<Longrightarrow> AppendIDSet st metaTagIdsetGiven1 bg = Inr (st\<lparr>given := Some ug\<rparr>)"
    using reappend_opt [OF ok(4,1)] by metis
  obtain bs us where sn: "SerializeSet (the (seen s)) = Inr bs" "view (repls us) = content (seen s)"
      "\<And>st. smapper st = ?m \<Longrightarrow> fresh (seen st) \<Longrightarrow> AppendIDSet st metaTagCnsetSeen bs = Inr (st\<lparr>seen := Some us\<rparr>)"
    using reappend_opt [OF ok(5,1)] ok(3) by metis
  obtain bf uf where f: "seenFAI s \<noteq> None \<Longrightarrow> SerializeSet (the (seenFAI s)) = Inr bf"
      "seenFAI s \<noteq> None \<Longrightarrow> view (repls uf) = content (seenFAI s)"
      "\<And>st. seenFAI s \<noteq> None \<Longrightarrow> smapper st = ?m \<Longrightarrow> fresh (seenFAI st) \<Longrightarrow>
         AppendIDSet st metaTagCnsetSeenFAI bf = Inr (st\<lparr>seenFAI := Some uf\<rparr>)"
    using reappend_opt [OF ok(6,1)] by metis
  obtain br ur where r: "readset s \<noteq> None \<Longrightarrow> SerializeSet (the (readset s)) = Inr br"
      "readset s \<noteq> None \<Longrightarrow> view (repls ur) = content (readset s)"
      "\<And>st. readset s \<noteq> None \<Longrightarrow> smapper st = ?m \<Longrightarrow> fresh (readset st) \<Longrightarrow>
         AppendIDSet st metaTagCnsetRead br = Inr (st\<lparr>readset := Some ur\<rparr>)"
    using reappend_opt [OF ok(7,1)] by metis
  let ?out = "(if emitsGiven s then [(metaTagIdsetGiven1, bg)] else []) @ [(metaTagCnsetSeen, bs)]
    @ (if emitsSeenFAI s then [(metaTagCnsetSeenFAI, bf)] else []) @ (if emitsRead s then [(metaTagCnsetRead, br)] else [])"
  let ?g = "if emitsGiven s then ?n\<lparr>given := Some ug\<rparr> else ?n"
  let ?s = "?g\<lparr>seen := Some us\<rparr>"
  let ?f = "if emitsSeenFAI s then ?s\<lparr>seenFAI := Some uf\<rparr> else ?s"
  let ?r = "if emitsRead s then ?f\<lparr>readset := Some ur\<rparr> else ?f"
  have ser: "SerializeState s = Inr ?out"
    using g(1) sn(1) f(1) r(1) by (simp add: SerializeState_def emit_def emitsGiven_iff emitsSeenFAI_def emitsRead_iff)
  have app: "AppendAll ?n ?out = Inr ?r"
    using g(3) sn(3) f(3) r(3) ok(2) by (simp add: AppendAll_append emitsGiven_iff emitsSeenFAI_def emitsRead_iff)
  have "content (seen ?r) = content (seen s)" using sn(2) by simp
  moreover have "styp s \<noteq> HierarchyUp \<longrightarrow> content (given ?r) = content (given s)"
    using g(2) by (cases "styp s"; cases "given s") (auto simp: emitsGiven_iff)
  moreover have "styp s \<in> {ContentsDown, ContentsUp} \<longrightarrow> content (seenFAI ?r) = content (seenFAI s)"
    using f(2) by (cases "seenFAI s") (auto simp: emitsSeenFAI_def)
  moreover have "styp s \<in> {ContentsDown, ContentsUp} \<longrightarrow> content (readset ?r) = content (readset s)"
    using r(2) by (cases "readset s") (auto simp: emitsRead_iff)
  ultimately show ?thesis using ser app by blast
qed

definition home0 :: guid where
  "home0 = \<lparr>Data1 = 1, Data2 = 2, Data3 = 3, Data4 = [1, 2, 3, 4, 5, 6, 7, 8]\<rparr>"

definition set0 :: "u64 \<Rightarrow> u64 \<Rightarrow> id_set" where
  "set0 l h = \<lparr>form = FormGUIDLoose, repls = [\<lparr>replid = homeReplID, replguid = zero_guid, ranges = [mk_range l h]\<rparr>],
     mapper = Some (storeMapper home0)\<rparr>"

lemma set0_ok: "l \<le> h \<Longrightarrow> unat h < 2 ^ 48 \<Longrightarrow> home_set home0 (set0 l h) \<and> idset_ok (set0 l h)"
  by (simp add: set0_def home_set_def coalesced_def node_ok_def idset_ok_def blocks_ok_def packed_def)

lemma guid_wf_home0 [simp]: "guid_wf home0"
  by (simp add: home0_def guid_wf_def)

theorem state_checkpoint_roundtrip_witness:
  "\<exists>out s'. SerializeState ((NewState HierarchyUp (Some (storeMapper home0)))\<lparr>seen := Some (set0 5 9)\<rparr>) = Inr out
     \<and> AppendAll (NewState HierarchyUp (Some (storeMapper home0))) out = Inr s'
     \<and> content (seen s') = [(1, [mk_range 5 9])]"
proof -
  let ?s = "(NewState HierarchyUp (Some (storeMapper home0)))\<lparr>seen := Some (set0 5 9)\<rparr>"
  have "state_ok home0 ?s"
    using set0_ok [of 5 9] by (simp add: state_ok_def NewState_def Let_def home_opt_def)
  moreover have "content (seen ?s) = [(1, [mk_range 5 9])]" by (simp add: set0_def view_def rs_empty_def)
  moreover have "styp ?s = HierarchyUp" "smapper ?s = Some (storeMapper home0)"
    by (simp_all add: NewState_def Let_def)
  ultimately show ?thesis using state_checkpoint_roundtrip [of home0 ?s] by metis
qed

text \<open>What folding an uploaded set into one slot does: union for the cumulative types, else replace.\<close>

definition slot_ok :: "id_set option \<Rightarrow> bool" where
  "slot_ok p \<longleftrightarrow> (case p of None \<Rightarrow> True | Some q \<Rightarrow> idset_ok q)"

definition slot_has :: "id_set option \<Rightarrow> eid \<Rightarrow> bool" where
  "slot_has p e \<longleftrightarrow> (case p of None \<Rightarrow> False | Some q \<Rightarrow> Contains q e)"

lemma EmptySet_no_ids: "EmptySet q \<Longrightarrow> ids q = {}"
  by (simp add: EmptySet_view ids_def block_ids_view)

lemma mergeUp_ok:
  assumes "slot_ok p" "idset_ok u"
  shows "idset_ok (mergeUp s p u)
    \<and> (Contains (mergeUp s p u) e \<longleftrightarrow> Contains u e \<or> isUp (styp s) \<and> slot_has p e)"
proof (cases p)
  case None
  then show ?thesis using assms by (simp add: mergeUp_def slot_has_def)
next
  case (Some q)
  then have q: "idset_ok q" using assms(1) by (simp add: slot_ok_def)
  show ?thesis
    using Some ic.merge_inv [OF assms(2) q] ic.merge_member [OF assms(2) q] EmptySet_no_ids [of q] assms(2) q
    by (auto simp: mergeUp_def slot_has_def Contains_ids)
qed

lemma uploaded_set:
  assumes "home_set home t" "idset_ok t" "guid_wf home"
  obtains b x u where "SerializeSet t = Inr b"
    "Deserialize (NewIDSet FormGUIDPacked (Some (storeMapper home))) b = Inr x" "Convert x = (True, u)"
    "idset_ok u" "\<And>e. Contains u e \<longleftrightarrow> Contains t e"
proof -
  obtain b x u where b: "SerializeSet t = Inr b" "Deserialize (NewIDSet FormGUIDPacked (Some (storeMapper home))) b = Inr x"
      "Convert x = (True, u)" "form u = FormGUIDLoose" "keyed (repls u) = view (repls t)"
    using home_set_wire [OF assms(1,3)] by blast
  have "blocks_ok (repls u) \<and> ids u = ids t"
    using keyed_rebuilt [OF b(5)] assms(2) by (simp add: idset_ok_def ids_def)
  then have "idset_ok u" "ids u = ids t" using b(4) by (simp_all add: idset_ok_def packed_def)
  then show ?thesis using b assms(2) by (intro that [of b x u]) (simp_all add: Contains_ids)
qed

text \<open>
  C22. Folding an uploaded id set into the state: the given set is replaced, under either of its two tags; the
  seen set becomes the union with its prior value for the upload types and is replaced for the download types; the FAI
  and read sets accumulate for a contents upload only and are replaced otherwise (for a hierarchy upload too);
  every other set is untouched. A tag that is no state meta-tag is refused. The uploaded set is the wire form of a
  loose set over the home replica with coalesced ranges and one block per replica, and the stored sets have well-formed
  48-bit ranges and one block per replica.
\<close>

theorem state_append_merges:
  assumes "home_set home t" "idset_ok t" "guid_wf home" "smapper s = Some (storeMapper home)"
    "slot_ok (seen s)" "slot_ok (seenFAI s)" "slot_ok (readset s)"
  shows "\<exists>b. SerializeSet t = Inr b \<and>
    (\<exists>q. AppendIDSet s metaTagIdsetGiven b = Inr (s\<lparr>given := Some q\<rparr>) \<and> AppendIDSet s metaTagIdsetGiven1 b = Inr (s\<lparr>given := Some q\<rparr>)
       \<and> (\<forall>e. Contains q e \<longleftrightarrow> Contains t e)) \<and>
    (\<exists>q. AppendIDSet s metaTagCnsetSeen b = Inr (s\<lparr>seen := Some q\<rparr>)
       \<and> (\<forall>e. Contains q e \<longleftrightarrow> Contains t e \<or> isUp (styp s) \<and> slot_has (seen s) e)) \<and>
    (\<exists>q. AppendIDSet s metaTagCnsetSeenFAI b = Inr (s\<lparr>seenFAI := Some q\<rparr>)
       \<and> (\<forall>e. Contains q e \<longleftrightarrow> Contains t e \<or> styp s = ContentsUp \<and> slot_has (seenFAI s) e)) \<and>
    (\<exists>q. AppendIDSet s metaTagCnsetRead b = Inr (s\<lparr>readset := Some q\<rparr>)
       \<and> (\<forall>e. Contains q e \<longleftrightarrow> Contains t e \<or> styp s = ContentsUp \<and> slot_has (readset s) e)) \<and>
    (\<forall>tag. \<not> IsStateMetaTag tag \<longrightarrow> AppendIDSet s tag b = Inl (ErrNotStateTag tag))"
proof -
  obtain b x u where b: "SerializeSet t = Inr b"
      "Deserialize (NewIDSet FormGUIDPacked (Some (storeMapper home))) b = Inr x" "Convert x = (True, u)"
      "idset_ok u" "\<And>e. Contains u e \<longleftrightarrow> Contains t e"
    using uploaded_set [OF assms(1-3)] by metis
  let ?f = "if styp s = ContentsUp then mergeUp s (seenFAI s) u else u"
  let ?r = "if styp s = ContentsUp then mergeUp s (readset s) u else u"
  have eqs: "AppendIDSet s metaTagIdsetGiven b = Inr (s\<lparr>given := Some u\<rparr>) \<and> AppendIDSet s metaTagIdsetGiven1 b = Inr (s\<lparr>given := Some u\<rparr>)"
    "AppendIDSet s metaTagCnsetSeen b = Inr (s\<lparr>seen := Some (mergeUp s (seen s) u)\<rparr>)"
    "AppendIDSet s metaTagCnsetSeenFAI b = Inr (s\<lparr>seenFAI := Some ?f\<rparr>)"
    "AppendIDSet s metaTagCnsetRead b = Inr (s\<lparr>readset := Some ?r\<rparr>)"
    "\<forall>tag. \<not> IsStateMetaTag tag \<longrightarrow> AppendIDSet s tag b = Inl (ErrNotStateTag tag)"
    using b(2,3) assms(4) by (simp_all add: AppendIDSet_def IsStateMetaTag_def)
  have "\<forall>e. Contains (mergeUp s (seen s) u) e \<longleftrightarrow> Contains t e \<or> isUp (styp s) \<and> slot_has (seen s) e"
    "\<forall>e. Contains ?f e \<longleftrightarrow> Contains t e \<or> styp s = ContentsUp \<and> slot_has (seenFAI s) e"
    "\<forall>e. Contains ?r e \<longleftrightarrow> Contains t e \<or> styp s = ContentsUp \<and> slot_has (readset s) e"
    using mergeUp_ok [OF _ b(4)] assms(5-7) b(5) by (simp_all add: isUp_def)
  then show ?thesis using b(1,5) eqs by blast
qed

theorem state_append_merges_witness:
  "\<exists>b q. SerializeSet (set0 5 9) = Inr b
     \<and> AppendIDSet ((NewState ContentsUp (Some (storeMapper home0)))\<lparr>seen := Some (set0 1 2)\<rparr>) metaTagCnsetSeen b
       = Inr ((NewState ContentsUp (Some (storeMapper home0)))\<lparr>seen := Some q\<rparr>)
     \<and> Contains q (MakeEIDEx 1 2) \<and> Contains q (MakeEIDEx 1 7)"
proof -
  let ?s = "(NewState ContentsUp (Some (storeMapper home0)))\<lparr>seen := Some (set0 1 2)\<rparr>"
  have "slot_ok (seen ?s)" "slot_ok (seenFAI ?s)" "slot_ok (readset ?s)" "smapper ?s = Some (storeMapper home0)"
    using set0_ok [of 1 2]
    by (simp_all add: slot_ok_def NewState_def Let_def NewIDSet_def idset_ok_def blocks_ok_def packed_def)
  moreover have "Contains (set0 5 9) (MakeEIDEx 1 7)" "slot_has (seen ?s) (MakeEIDEx 1 2)" "isUp (styp ?s)"
    by (simp_all add: Contains_def set0_def slot_has_def NewState_def Let_def isUp_def small_gc_iff)
  moreover have "?s\<lparr>seen := p\<rparr> = (NewState ContentsUp (Some (storeMapper home0)))\<lparr>seen := p\<rparr>" for p by simp
  ultimately show ?thesis
    using state_append_merges [of home0 "set0 5 9" ?s] set0_ok [of 5 9] by auto
qed

section \<open>A merge that stops part-way\<close>

lemma Concat_ranges_append:
  "Concat_ranges s r (xs @ ys) = (case Concat_ranges s r xs of (ok, s') \<Rightarrow> if ok then Concat_ranges s' r ys else (False, s'))"
  by (induction xs arbitrary: s) (auto split: prod.splits)

lemma Concat_loop_append:
  "Concat_loop s (xs @ ys) = (case Concat_loop s xs of (ok, s') \<Rightarrow> if ok then Concat_loop s' ys else (False, s'))"
  by (induction xs arbitrary: s) (auto split: prod.splits)

lemma Concat_ranges_stops:
  assumes "idset_ok s" "list_all node_ok good" "hi bad < lo bad"
  shows "\<exists>s'. Concat_ranges s r (good @ bad # rest) = (False, s') \<and> idset_ok s' \<and> ids s' = ids s \<union> {r} \<times> denote good"
proof -
  obtain s' where s': "Concat_ranges s r good = (True, s')" "idset_ok s'" "ids s' = ids s \<union> {r} \<times> denote good"
    using Concat_ranges_ok [OF assms(1,2)] by blast
  then show ?thesis using assms(3) by (simp add: Concat_ranges_append AppendRange_def)
qed

lemma Concatenate_stops:
  assumes "idset_ok u" "\<not> packed (form q)" "repls q = before @ nd # after" "list_all (\<lambda>nd. list_all node_ok (ranges nd)) before"
    "ranges nd = good @ bad # rest" "list_all node_ok good" "hi bad < lo bad"
  shows "\<exists>r. Concatenate u q = (False, r) \<and> idset_ok r \<and> ids r = ids u \<union> block_ids before \<union> {replid nd} \<times> denote good"
proof -
  obtain s where s: "Concat_loop u before = (True, s)" "idset_ok s" "ids s = ids u \<union> block_ids before"
    using Concat_loop_ok [OF assms(1,4)] by blast
  obtain r where "Concat_ranges s (replid nd) (ranges nd) = (False, r)" "idset_ok r" "ids r = ids s \<union> {replid nd} \<times> denote good"
    using Concat_ranges_stops [OF s(2) assms(6,7)] assms(5) by metis
  then show ?thesis using s assms(1-3) by (simp add: Concatenate_def Concat_loop_append idset_ok_def)
qed

lemma EmptySet_append: "\<not> packed (form q) \<Longrightarrow> repls q = before @ nd # after \<Longrightarrow> ranges nd \<noteq> [] \<Longrightarrow> \<not> EmptySet q"
proof -
  have "Empty_loop (before @ nd # after) \<Longrightarrow> ranges nd = []" for before by (induction before) (auto simp: rs_empty_def split: if_splits)
  then show "\<not> packed (form q) \<Longrightarrow> repls q = before @ nd # after \<Longrightarrow> ranges nd \<noteq> [] \<Longrightarrow> \<not> EmptySet q"
    by (auto simp: EmptySet_def)
qed

text \<open>
  C32. The cumulative merge can stop part-way without an error. A decoded set may hold an inverted range, low bound
  above the high one (\<^verbatim>\<open>Deserialize\<close> accepts it); appending it is refused and the refusal is ignored. So for every
  upload type and every well-formed upload, when the stored seen set has an inverted range, the new seen set holds the
  upload and exactly those stored ids that stand before the inverted range: every id behind it, in
  its block and in all later blocks, is forgotten, and \<^verbatim>\<open>AppendIDSet\<close> reports success.
\<close>

theorem state_merge_drops_after_inverted_range:
  assumes "home_set home t" "idset_ok t" "guid_wf home" "smapper s = Some (storeMapper home)" "isUp (styp s)"
    "seen s = Some q" "\<not> packed (form q)" "repls q = before @ nd # after" "list_all (\<lambda>nd. list_all node_ok (ranges nd)) before"
    "ranges nd = good @ bad # rest" "list_all node_ok good" "hi bad < lo bad"
  shows "\<exists>b r. SerializeSet t = Inr b \<and> AppendIDSet s metaTagCnsetSeen b = Inr (s\<lparr>seen := Some r\<rparr>)
    \<and> (\<forall>e. Contains r e \<longleftrightarrow> Contains t e \<or> eid_key e \<in> block_ids before \<union> {replid nd} \<times> denote good)"
proof -
  obtain b x u where b: "SerializeSet t = Inr b"
      "Deserialize (NewIDSet FormGUIDPacked (Some (storeMapper home))) b = Inr x" "Convert x = (True, u)"
      "idset_ok u" "\<And>e. Contains u e \<longleftrightarrow> Contains t e"
    using uploaded_set [OF assms(1-3)] by metis
  obtain r where r: "Concatenate u q = (False, r)" "idset_ok r" "ids r = ids u \<union> block_ids before \<union> {replid nd} \<times> denote good"
    using Concatenate_stops [OF b(4) assms(7-12)] by blast
  have "\<not> EmptySet q" using EmptySet_append [OF assms(7,8)] assms(10) by simp
  then have "AppendIDSet s metaTagCnsetSeen b = Inr (s\<lparr>seen := Some r\<rparr>)"
    using b(2,3) assms(4-6) r(1) by (simp add: AppendIDSet_def mergeUp_def)
  moreover have "\<forall>e. Contains r e \<longleftrightarrow> Contains t e \<or> eid_key e \<in> block_ids before \<union> {replid nd} \<times> denote good"
    using b(4,5) r(2,3) by (auto simp: Contains_ids)
  ultimately show ?thesis using b(1) by blast
qed

text \<open>The bytes of a set whose first range, 7 to 3, is inverted and whose second is the id 9.\<close>

definition inverted_upload :: bytes where
  "inverted_upload = Flat home0 @ [0x52, 0, 0, 0, 0, 0, 7, 0, 0, 0, 0, 0, 3, 6, 0, 0, 0, 0, 0, 9, 0]"

lemma inverted_seen:
  "case AppendIDSet (NewState HierarchyUp (Some (storeMapper home0))) metaTagCnsetSeen inverted_upload of Inl e \<Rightarrow> False
   | Inr s \<Rightarrow> styp s = HierarchyUp \<and> map_option (\<lambda>q. (form q, map (\<lambda>nd. (replid nd, ranges nd)) (repls q))) (seen s)
         = Some (FormGUIDLoose, [(1, [mk_range 7 3, mk_range 9 9])])"
  by code_simp

lemma AppendIDSet_mapper: "AppendIDSet s tag b = Inr s' \<Longrightarrow> smapper s' = smapper s"
  by (auto simp: AppendIDSet_def bindr_def split: sum.splits prod.splits if_splits)

theorem state_merge_drops_after_inverted_range_witness:
  "\<exists>s1 b s2. AppendIDSet (NewState HierarchyUp (Some (storeMapper home0))) metaTagCnsetSeen inverted_upload = Inr s1
     \<and> slot_has (seen s1) (MakeEIDEx 1 9) \<and> SerializeSet (set0 1 1) = Inr b \<and> AppendIDSet s1 metaTagCnsetSeen b = Inr s2
     \<and> slot_has (seen s2) (MakeEIDEx 1 1) \<and> \<not> slot_has (seen s2) (MakeEIDEx 1 9)"
proof -
  obtain s1 q nd where s1: "AppendIDSet (NewState HierarchyUp (Some (storeMapper home0))) metaTagCnsetSeen inverted_upload = Inr s1"
      "styp s1 = HierarchyUp" "seen s1 = Some q" "form q = FormGUIDLoose" "repls q = [] @ nd # []" "replid nd = 1"
      "ranges nd = [] @ mk_range 7 3 # [mk_range 9 9]"
    using inverted_seen by (auto split: sum.splits)
  moreover have "smapper s1 = Some (storeMapper home0)" using AppendIDSet_mapper [OF s1(1)] by (simp add: NewState_def Let_def split: state_type.splits)
  moreover have "slot_has (seen s1) (MakeEIDEx 1 9)" using s1(3-7) by (simp add: slot_has_def Contains_def small_gc_iff)
  moreover have "Contains (set0 1 1) (MakeEIDEx 1 1)" "\<not> Contains (set0 1 1) (MakeEIDEx 1 9)"
    by code_simp+
  moreover obtain b r where "SerializeSet (set0 1 1) = Inr b" "AppendIDSet s1 metaTagCnsetSeen b = Inr (s1\<lparr>seen := Some r\<rparr>)"
      "\<forall>e. Contains r e \<longleftrightarrow> Contains (set0 1 1) e"
    using state_merge_drops_after_inverted_range [of home0 "set0 1 1" s1 q "[]" nd "[]" "[]" "mk_range 7 3" "[mk_range 9 9]"]
      set0_ok [of 1 1] calculation by (auto simp: isUp_def packed_def)
  ultimately show ?thesis by (auto simp: slot_has_def)
qed

end
