(* ===== verification/Ics_Stream.thy ===== *)
theory Ics_Stream
  imports Ext_Ids Ics_State
begin

text \<open>
  \<^verbatim>\<open>internal/ics/ftcodec.go\<close>, \<^verbatim>\<open>ftaux.go\<close> and the stream part of \<^verbatim>\<open>markers.go\<close>: the element codec of the
  FastTransfer stream. The cursor \<^verbatim>\<open>reader\<close> is represented by its unread bytes. A read has three
  outcomes: a value with the bytes left, an element that is not complete yet (\<^verbatim>\<open>ok\<close> false), or an
  error. Floating-point values are their bit patterns, signed integers the words of their bits.
\<close>

unbundle bit_operations_syntax

section \<open>Values and results\<close>

text \<open>The Go types a property value can have; \<open>VOther\<close> is any other.\<close>

datatype fx_value =
    VShort u16 | VLong u32 | VError u32 | VFloat u32 | VDouble u64 | VBool bool | VInt64 u64 | VTime u64
  | VGuid guid | VString go_string | VBytes bytes
  | VMvShort "u16 list" | VMvLong "u32 list" | VMvInt64 "u64 list" | VMvTime "u64 list" | VMvFloat "u32 list"
  | VMvDouble "u64 list" | VMvGuid "guid list" | VMvString "go_string list" | VMvBytes "bytes list"
  | VOther

record stream_prop =
  STag :: prop_tag
  SName :: "property_name option"
  SValue :: fx_value

datatype item = Marker u32 | Prop stream_prop

datatype fx_error =
    UnsupportedFXType prop_type | MissingName prop_tag | InvalidKind u8 | WrongValueType
  | ImplausibleCount u32 | CountExceeds u32 nat

datatype 'a fx_result = Short | Bad fx_error | Val 'a bytes

type_synonym 'a fx_reader = "bytes \<Rightarrow> 'a fx_result"

definition fxbind :: "'a fx_reader \<Rightarrow> ('a \<Rightarrow> 'b fx_reader) \<Rightarrow> 'b fx_reader" where
  "fxbind m f b = (case m b of Short \<Rightarrow> Short | Bad e \<Rightarrow> Bad e | Val x s \<Rightarrow> f x s)"

definition fxret :: "'a \<Rightarrow> 'a fx_reader" where
  "fxret x b = Val x b"

definition fxmap :: "('a \<Rightarrow> 'b) \<Rightarrow> 'a fx_reader \<Rightarrow> 'b fx_reader" where
  "fxmap g m = fxbind m (\<lambda>x. fxret (g x))"

section \<open>Markers (markers.go)\<close>

definition markerSet :: "u32 list" where
  "markerSet =
     [0x40090003, 0x400A0003, 0x400B0003, 0x400C0003, 0x400D0003, 0x40100003, 0x40010003, 0x40020003,
      0x40030003, 0x40040003, 0x40000003, 0x400E0003, 0x40120003, 0x407D0003, 0x40130003, 0x40140003,
      0x402F0003, 0x403A0003, 0x403B0003, 0x4074000B, 0x4075000B, 0x40150003, 0x407B0102, 0x40180003]"

definition isMarker :: "u32 \<Rightarrow> bool" where
  "isMarker w \<longleftrightarrow> w \<in> set markerSet"

abbreviation (input) cpUTF16 :: u16 where "cpUTF16 \<equiv> 1200"
abbreviation (input) fxCodepageFlag :: u16 where "fxCodepageFlag \<equiv> 0x8000"
abbreviation (input) propIDMessageCls :: u16 where "propIDMessageCls \<equiv> 0x001A"

section \<open>The cursor and text (ftcodec.go)\<close>

definition fx_u8 :: "u8 fx_reader" where
  "fx_u8 b = (if length b < 1 then Short else Val (b ! 0) (drop 1 b))"

definition fx_u16 :: "u16 fx_reader" where
  "fx_u16 b = (if length b < 2 then Short else Val (le_word (take 2 b)) (drop 2 b))"

definition fx_u32 :: "u32 fx_reader" where
  "fx_u32 b = (if length b < 4 then Short else Val (le_word (take 4 b)) (drop 4 b))"

definition fx_u64 :: "u64 fx_reader" where
  "fx_u64 b = (if length b < 8 then Short else Val (le_word (take 8 b)) (drop 8 b))"

definition fx_bytes :: "nat \<Rightarrow> bytes fx_reader" where
  "fx_bytes n b = (if length b < n then Short else Val (take n b) (drop n b))"

definition lenPrefixed :: "bytes fx_reader" where
  "lenPrefixed = fxbind fx_u32 (\<lambda>n. fx_bytes (unat n))"

definition encodeUTF16 :: "go_string \<Rightarrow> bytes" where
  "encodeUTF16 s = concat (map (le_bytes 2) (utf16_encode (utf8_decode s) @ [0]))"

fun code_units :: "bytes \<Rightarrow> u16 list" where
  "code_units (a # b # s) = le_word [a, b] # code_units s"
| "code_units _ = []"

definition decodeUTF16 :: "bytes \<Rightarrow> go_string" where
  "decodeUTF16 b = utf8_encode (utf16_decode (rev (dropWhile (\<lambda>u. u = 0) (rev (code_units b)))))"

definition trimNUL :: "bytes \<Rightarrow> bytes" where
  "trimNUL b = (if length b > 0 \<and> b ! (length b - 1) = 0 then take (length b - 1) b else b)"

definition isMultivalue :: "prop_type \<Rightarrow> bool" where
  "isMultivalue t \<longleftrightarrow> t AND MvFlag = MvFlag"

definition fxWireType :: "prop_type \<Rightarrow> u16 \<Rightarrow> prop_type" where
  "fxWireType typ' propid =
     (if typ' \<noteq> PtString8 \<and> typ' \<noteq> PtUnicode then typ'
      else if propid = propIDMessageCls then PtString8 else PtUnicode)"

section \<open>Encoding\<close>

definition appendTearable :: "bytes \<Rightarrow> bytes \<Rightarrow> fx_error + bytes \<times> bytes" where
  "appendTearable header body = Inr (header @ le_bytes 4 (of_nat (length body) :: u32), body)"

definition fxValueWriters :: "prop_type \<Rightarrow> (bytes \<Rightarrow> fx_value \<Rightarrow> fx_error + bytes \<times> bytes) option" where
  "fxValueWriters t =
     (if t = PtShort then Some (\<lambda>h v. case v of VShort x \<Rightarrow> Inr (h @ le_bytes 2 x, []) | _ \<Rightarrow> Inl WrongValueType)
      else if t = PtLong then Some (\<lambda>h v. case v of VLong x \<Rightarrow> Inr (h @ le_bytes 4 x, []) | _ \<Rightarrow> Inl WrongValueType)
      else if t = PtError then Some (\<lambda>h v. case v of VError x \<Rightarrow> Inr (h @ le_bytes 4 x, []) | _ \<Rightarrow> Inl WrongValueType)
      else if t = PtFloat then Some (\<lambda>h v. case v of VFloat x \<Rightarrow> Inr (h @ le_bytes 4 x, []) | _ \<Rightarrow> Inl WrongValueType)
      else if t = PtDouble \<or> t = PtAppTime
      then Some (\<lambda>h v. case v of VDouble x \<Rightarrow> Inr (h @ le_bytes 8 x, []) | _ \<Rightarrow> Inl WrongValueType)
      else if t = PtBoolean
      then Some (\<lambda>h v. case v of VBool x \<Rightarrow> Inr (h @ le_bytes 2 (if x then 1 else 0 :: u16), []) | _ \<Rightarrow> Inl WrongValueType)
      else if t = PtCurrency \<or> t = PtI8
      then Some (\<lambda>h v. case v of VInt64 x \<Rightarrow> Inr (h @ le_bytes 8 x, []) | _ \<Rightarrow> Inl WrongValueType)
      else if t = PtSysTime then Some (\<lambda>h v. case v of VTime x \<Rightarrow> Inr (h @ le_bytes 8 x, []) | _ \<Rightarrow> Inl WrongValueType)
      else if t = PtCLSID then Some (\<lambda>h v. case v of VGuid x \<Rightarrow> Inr (h @ Flat x, []) | _ \<Rightarrow> Inl WrongValueType)
      else if t = PtUnicode then Some (\<lambda>h v. case v of VString s \<Rightarrow> appendTearable h (encodeUTF16 s) | _ \<Rightarrow> Inl WrongValueType)
      else if t = PtString8 then Some (\<lambda>h v. case v of VString s \<Rightarrow> appendTearable h (s @ [0]) | _ \<Rightarrow> Inl WrongValueType)
      else if t = PtBinary \<or> t = PtObject
      then Some (\<lambda>h v. case v of VBytes b \<Rightarrow> appendTearable h b | _ \<Rightarrow> Inl WrongValueType)
      else None)"

definition appendName :: "bytes \<Rightarrow> property_name \<Rightarrow> fx_error + bytes" where
  "appendName b n =
     (let b = b @ Flat (NGUID n) @ [Kind n] in
      if Kind n = MnidID then Inr (b @ le_bytes 4 (LID n))
      else if Kind n = MnidString then Inr (b @ encodeUTF16 (Name n))
      else if Kind n = KindNone then Inr b
      else Inl (InvalidKind (Kind n)))"

definition appendLenPrefixed :: "bytes \<Rightarrow> bytes" where
  "appendLenPrefixed body = le_bytes 4 (of_nat (length body) :: u32) @ body"

definition appendMVElems :: "('a \<Rightarrow> bytes) \<Rightarrow> 'a list \<Rightarrow> bytes" where
  "appendMVElems w xs = le_bytes 4 (of_nat (length xs) :: u32) @ concat (map w xs)"

definition mvWriters :: "prop_type \<Rightarrow> (fx_value \<Rightarrow> bytes option) option" where
  "mvWriters t =
     (if t = PtMvShort then Some (\<lambda>v. case v of VMvShort xs \<Rightarrow> Some (appendMVElems (le_bytes 2) xs) | _ \<Rightarrow> None)
      else if t = PtMvLong then Some (\<lambda>v. case v of VMvLong xs \<Rightarrow> Some (appendMVElems (le_bytes 4) xs) | _ \<Rightarrow> None)
      else if t = PtMvCurrency \<or> t = PtMvI8
      then Some (\<lambda>v. case v of VMvInt64 xs \<Rightarrow> Some (appendMVElems (le_bytes 8) xs) | _ \<Rightarrow> None)
      else if t = PtMvSysTime then Some (\<lambda>v. case v of VMvTime xs \<Rightarrow> Some (appendMVElems (le_bytes 8) xs) | _ \<Rightarrow> None)
      else if t = PtMvFloat then Some (\<lambda>v. case v of VMvFloat xs \<Rightarrow> Some (appendMVElems (le_bytes 4) xs) | _ \<Rightarrow> None)
      else if t = PtMvDouble \<or> t = PtMvAppTime
      then Some (\<lambda>v. case v of VMvDouble xs \<Rightarrow> Some (appendMVElems (le_bytes 8) xs) | _ \<Rightarrow> None)
      else if t = PtMvCLSID then Some (\<lambda>v. case v of VMvGuid xs \<Rightarrow> Some (appendMVElems Flat xs) | _ \<Rightarrow> None)
      else if t = PtMvString8
      then Some (\<lambda>v. case v of VMvString xs \<Rightarrow> Some (appendMVElems (\<lambda>s. appendLenPrefixed (s @ [0])) xs) | _ \<Rightarrow> None)
      else if t = PtMvUnicode
      then Some (\<lambda>v. case v of VMvString xs \<Rightarrow> Some (appendMVElems (\<lambda>s. appendLenPrefixed (encodeUTF16 s)) xs) | _ \<Rightarrow> None)
      else if t = PtMvBinary
      then Some (\<lambda>v. case v of VMvBytes xs \<Rightarrow> Some (appendMVElems appendLenPrefixed xs) | _ \<Rightarrow> None)
      else None)"

definition appendMV :: "bytes \<Rightarrow> prop_type \<Rightarrow> fx_value \<Rightarrow> fx_error + bytes" where
  "appendMV b t v =
     (case mvWriters t of
        None \<Rightarrow> Inl (UnsupportedFXType t)
      | Some write \<Rightarrow> (case write v of None \<Rightarrow> Inl WrongValueType | Some bs \<Rightarrow> Inr (b @ bs)))"

definition encodeProp :: "stream_prop \<Rightarrow> fx_error + bytes \<times> bytes" where
  "encodeProp p =
     (let propid = TagID (STag p);
          wireType = fxWireType (TagType (STag p)) propid;
          header = le_bytes 4 (MakeTag propid wireType)
      in bindr
           (if propid \<ge> 0x8000 then
              (case SName p of None \<Rightarrow> Inl (MissingName (STag p)) | Some n \<Rightarrow> appendName header n)
            else Inr header)
           (\<lambda>header.
              case fxValueWriters wireType of
                Some write \<Rightarrow> write header (SValue p)
              | None \<Rightarrow>
                  if isMultivalue wireType then bindr (appendMV header wireType (SValue p)) (\<lambda>h. Inr (h, []))
                  else Inl (UnsupportedFXType (TagType (STag p)))))"

section \<open>Decoding\<close>

definition fxValueReaders :: "prop_type \<Rightarrow> fx_value fx_reader option" where
  "fxValueReaders t =
     (if t = PtShort then Some (fxmap VShort fx_u16)
      else if t = PtLong then Some (fxmap VLong fx_u32)
      else if t = PtError then Some (fxmap VError fx_u32)
      else if t = PtFloat then Some (fxmap VFloat fx_u32)
      else if t = PtDouble \<or> t = PtAppTime then Some (fxmap VDouble fx_u64)
      else if t = PtBoolean then Some (fxmap (\<lambda>v. VBool (v \<noteq> 0)) fx_u16)
      else if t = PtCurrency \<or> t = PtI8 then Some (fxmap VInt64 fx_u64)
      else if t = PtSysTime then Some (fxmap VTime fx_u64)
      else if t = PtCLSID then Some (fxmap (\<lambda>f. VGuid (FlatToGUID f)) (fx_bytes 16))
      else if t = PtUnicode then Some (fxmap (\<lambda>raw. VString (decodeUTF16 raw)) lenPrefixed)
      else if t = PtString8 then Some (fxmap (\<lambda>raw. VString (trimNUL raw)) lenPrefixed)
      else if t = PtBinary \<or> t = PtObject then Some (fxmap VBytes lenPrefixed)
      else None)"

fun fx_times :: "nat \<Rightarrow> 'a fx_reader \<Rightarrow> 'a list fx_reader" where
  "fx_times 0 rd = fxret []"
| "fx_times (Suc n) rd = fxbind rd (\<lambda>x. fxmap (\<lambda>xs. x # xs) (fx_times n rd))"

definition decodeMVElems :: "('a list \<Rightarrow> fx_value) \<Rightarrow> 'a fx_reader \<Rightarrow> u32 \<Rightarrow> fx_value fx_reader" where
  "decodeMVElems mk rd cnt b =
     (if unat cnt * 2 > length b then Bad (CountExceeds cnt (length b))
      else fxmap mk (fx_times (unat cnt) rd) b)"

definition mvReaders :: "prop_type \<Rightarrow> (u32 \<Rightarrow> fx_value fx_reader) option" where
  "mvReaders t =
     (if t = PtMvShort then Some (decodeMVElems VMvShort fx_u16)
      else if t = PtMvLong then Some (decodeMVElems VMvLong fx_u32)
      else if t = PtMvCurrency \<or> t = PtMvI8 then Some (decodeMVElems VMvInt64 fx_u64)
      else if t = PtMvSysTime then Some (decodeMVElems VMvTime fx_u64)
      else if t = PtMvFloat then Some (decodeMVElems VMvFloat fx_u32)
      else if t = PtMvDouble \<or> t = PtMvAppTime then Some (decodeMVElems VMvDouble fx_u64)
      else if t = PtMvCLSID then Some (decodeMVElems VMvGuid (fxmap FlatToGUID (fx_bytes 16)))
      else if t = PtMvString8 then Some (decodeMVElems VMvString (fxmap trimNUL lenPrefixed))
      else if t = PtMvUnicode then Some (decodeMVElems VMvString (fxmap decodeUTF16 lenPrefixed))
      else if t = PtMvBinary then Some (decodeMVElems VMvBytes lenPrefixed)
      else None)"

abbreviation (input) maxMVCount :: u32 where "maxMVCount \<equiv> 0x100000"

definition decodeMV :: "prop_type \<Rightarrow> fx_value fx_reader" where
  "decodeMV t =
     fxbind fx_u32 (\<lambda>cnt b.
       if cnt > maxMVCount then Bad (ImplausibleCount cnt)
       else (case mvReaders t of None \<Rightarrow> Bad (UnsupportedFXType t) | Some rd \<Rightarrow> rd cnt b))"

definition decodeValue :: "prop_type \<Rightarrow> fx_value fx_reader" where
  "decodeValue t b =
     (case fxValueReaders t of
        None \<Rightarrow> if isMultivalue t then decodeMV t b else Bad (UnsupportedFXType t)
      | Some rd \<Rightarrow> rd b)"

text \<open>\<^verbatim>\<open>readNakedUTF16\<close>; the bytes before the terminator are collected in \<open>acc\<close>.\<close>

fun naked_units :: "bytes \<Rightarrow> go_string fx_reader" where
  "naked_units acc (a # b # s) =
     (if a = 0 \<and> b = 0 then Val (decodeUTF16 (acc @ [a, b])) s else naked_units (acc @ [a, b]) s)"
| "naked_units acc _ = Short"

definition readNakedUTF16 :: "go_string fx_reader" where
  "readNakedUTF16 = naked_units []"

definition decodeName :: "property_name fx_reader" where
  "decodeName =
     fxbind (fx_bytes 16) (\<lambda>f.
     fxbind fx_u8 (\<lambda>kind.
       let n = \<lparr>Kind = kind, NGUID = FlatToGUID f, LID = 0, Name = []\<rparr> in
       if kind = MnidID then fxmap (\<lambda>lid. n\<lparr>LID := lid\<rparr>) fx_u32
       else if kind = MnidString then fxmap (\<lambda>s. n\<lparr>Name := s\<rparr>) readNakedUTF16
       else if kind = KindNone then fxret n
       else (\<lambda>b. Short)))"

definition decode_prop :: "u32 \<Rightarrow> item fx_reader" where
  "decode_prop word =
     (let propid = TagID word;
          valueType = (if word = metaTagIdsetGiven then PtBinary else TagType word)
      in fxbind (if propid \<ge> 0x8000 then fxmap Some decodeName else fxret None) (\<lambda>name.
           let valueType =
             (if valueType AND fxCodepageFlag \<noteq> 0
              then (if valueType AND NOT fxCodepageFlag = cpUTF16 then PtUnicode else PtString8) else valueType)
           in fxmap (\<lambda>v. Prop \<lparr>STag = MakeTag propid valueType, SName = name, SValue = v\<rparr>) (decodeValue valueType)))"

definition decodeElement :: "item fx_reader" where
  "decodeElement = fxbind fx_u32 (\<lambda>word. if isMarker word then fxret (Marker word) else decode_prop word)"

section \<open>Encodings and readers\<close>

text \<open>
  \<open>p\<close> is a whole encoding of \<open>x\<close> when the reader returns \<open>x\<close> from it and leaves what follows; the
  encoding is exact when, in addition, every proper prefix of it is reported as incomplete.
\<close>

definition whole :: "'a fx_reader \<Rightarrow> bytes \<Rightarrow> 'a \<Rightarrow> bool" where
  "whole rd p x \<longleftrightarrow> (\<forall>c. rd (p @ c) = Val x c)"

definition exact :: "'a fx_reader \<Rightarrow> bytes \<Rightarrow> 'a \<Rightarrow> bool" where
  "exact rd p x \<longleftrightarrow> whole rd p x \<and> (\<forall>q r. p = q @ r \<longrightarrow> r \<noteq> [] \<longrightarrow> rd q = Short)"

named_theorems fx_exact \<open>exactness of the readers\<close>

lemma exact_whole: "exact rd p x \<Longrightarrow> whole rd p x"
  by (simp add: exact_def)

lemma whole_bind: "whole m p x \<Longrightarrow> whole (f x) p' y \<Longrightarrow> whole (fxbind m f) (p @ p') y"
  by (simp add: whole_def fxbind_def)

lemma exact_bind:
  assumes "exact m p x" "exact (f x) p' y"
  shows "exact (fxbind m f) (p @ p') y"
proof -
  have "fxbind m f q = Short" if pr: "p @ p' = q @ r" and ne: "r \<noteq> []" for q r
  proof -
    obtain us where "p = q @ us \<and> us @ p' = r \<or> q = p @ us \<and> p' = us @ r"
      using pr by (auto simp: append_eq_append_conv2)
    then consider "p = q @ us" "us \<noteq> []" | us where "q = p @ us" "p' = us @ r" by (cases "us = []") auto
    then show ?thesis
    proof cases
      case 1
      then have "m q = Short" using assms(1) unfolding exact_def by blast
      then show ?thesis by (simp add: fxbind_def)
    next
      case 2
      then have "f x us = Short" using assms(2) ne by (auto simp: exact_def)
      then show ?thesis using assms(1) 2 by (simp add: fxbind_def exact_def whole_def)
    qed
  qed
  then show ?thesis using assms whole_bind [of m p x f p' y] by (auto simp: exact_def)
qed

lemma exact_ret: "exact (fxret x) [] x"
  by (simp add: exact_def whole_def fxret_def)

lemma exact_map: "exact m p x \<Longrightarrow> y = g x \<Longrightarrow> exact (fxmap g m) p y"
  using exact_bind [of m p x "\<lambda>x. fxret (g x)" "[]" "g x"] exact_ret [of "g x"] by (simp add: fxmap_def)

lemma whole_map: "whole m p x \<Longrightarrow> y = g x \<Longrightarrow> whole (fxmap g m) p y"
  by (simp add: whole_def fxmap_def fxbind_def fxret_def)

lemma exact_u8 [fx_exact]: "exact fx_u8 [x] x"
  by (auto simp: exact_def whole_def fx_u8_def Cons_eq_append_conv)

lemma exact_fixed:
  assumes "length p = n" "\<And>b. rd b = (if length b < n then Short else Val (g (take n b)) (drop n b))"
  shows "exact rd p (g p)"
  using assms by (auto simp: exact_def whole_def)

lemma exact_u16 [fx_exact]: "exact fx_u16 (le_bytes 2 x) x"
  using exact_fixed [of "le_bytes 2 x" 2 fx_u16 le_word] by (simp add: fx_u16_def)

lemma exact_u32 [fx_exact]: "exact fx_u32 (le_bytes 4 x) x"
  using exact_fixed [of "le_bytes 4 x" 4 fx_u32 le_word] by (simp add: fx_u32_def)

lemma exact_u64 [fx_exact]: "exact fx_u64 (le_bytes 8 x) x"
  using exact_fixed [of "le_bytes 8 x" 8 fx_u64 le_word] by (simp add: fx_u64_def)

lemma exact_bytes: "length p = n \<Longrightarrow> exact (fx_bytes n) p p"
  using exact_fixed [of p n "fx_bytes n" "\<lambda>b. b"] by (simp add: fx_bytes_def)

lemma exact_lenPrefixed: "length body < 2 ^ 32 \<Longrightarrow> exact lenPrefixed (appendLenPrefixed body) body"
  unfolding lenPrefixed_def appendLenPrefixed_def
  by (rule exact_bind [OF exact_u32]) (simp add: exact_bytes)

lemma exact_guid [fx_exact]: "guid_wf g \<Longrightarrow> exact (fxmap FlatToGUID (fx_bytes 16)) (Flat g) g"
  by (rule exact_map [OF exact_bytes]) simp_all

lemma whole_times: "\<forall>x\<in>set xs. whole rd (w x) x \<Longrightarrow> whole (fx_times (length xs) rd) (concat (map w xs)) xs"
proof (induction xs)
  case Nil
  then show ?case by (simp add: whole_def fxret_def)
next
  case (Cons x xs)
  then show ?case by (auto intro!: whole_bind [of rd "w x" x] whole_map)
qed

subsection \<open>Text\<close>

definition text_ok :: "go_string \<Rightarrow> bool" where
  "text_ok s \<longleftrightarrow> valid_utf8 s \<and> 0 \<notin> set s \<and> length (encodeUTF16 s) < 2 ^ 32"

lemma unit_bytes: "\<exists>a b. le_bytes 2 (u :: u16) = [a, b]"
  by (simp add: numeral_2_eq_2)

lemma code_units_concat: "code_units (concat (map (le_bytes 2) us)) = us"
proof (induction us)
  case (Cons u us)
  obtain a b where ab: "le_bytes 2 u = [a, b]" using unit_bytes by blast
  then have "le_word [a, b] = u" using le_word_le_bytes [of 2 u] by simp
  then show ?case using Cons ab by simp
qed simp

lemma decode_encode_UTF16: "text_ok s \<Longrightarrow> decodeUTF16 (encodeUTF16 s) = s"
proof -
  assume ok: "text_ok s"
  let ?us = "utf16_encode (utf8_decode s)"
  have "0 \<notin> set ?us" using ok utf8_decode_nonzero [of s] utf8_decode_scalar [of s]
    by (simp add: text_ok_def utf16_encode_nonzero)
  then have "rev (dropWhile (\<lambda>u. u = 0) (rev (?us @ [0]))) = ?us"
    by (cases "rev ?us") (auto simp: dropWhile_eq_self_iff dest: arg_cong [where f = rev])
  then show ?thesis using ok utf16_string_roundtrip [of s]
    by (simp add: decodeUTF16_def encodeUTF16_def code_units_concat text_ok_def del: map_append)
qed

lemma exact_pair:
  assumes "exact rd' p x" "\<And>s. rd (a # b # s) = rd' s" "rd [] = Short" "rd [a] = Short"
  shows "exact rd (a # b # p) x"
  using assms by (auto simp: exact_def whole_def Cons_eq_append_conv)

lemma exact_naked_units:
  "0 \<notin> set us \<Longrightarrow> exact (naked_units acc) (concat (map (le_bytes 2) (us @ [0 :: u16])))
     (decodeUTF16 (acc @ concat (map (le_bytes 2) (us @ [0]))))"
proof (induction us arbitrary: acc)
  case Nil
  have "le_bytes 2 (0 :: u16) = [0, 0]" by (simp add: numeral_2_eq_2)
  then show ?case using exact_pair [OF exact_ret, of "naked_units acc" 0 0] by (simp add: fxret_def)
next
  case (Cons u us)
  obtain a b where ab: "le_bytes 2 u = [a, b]" using unit_bytes by blast
  have "le_word [a, b] = u" using le_word_le_bytes [of 2 u] ab by simp
  then have "\<not> (a = 0 \<and> b = 0)" using Cons.prems by auto
  then have "naked_units acc (a # b # s) = naked_units (acc @ [a, b]) s" for s by auto
  then show ?case using exact_pair [OF Cons.IH [of "acc @ [a, b]"], of "naked_units acc" a b] Cons.prems ab by simp
qed

lemma exact_readNaked: "text_ok s \<Longrightarrow> exact readNakedUTF16 (encodeUTF16 s) s"
proof -
  assume ok: "text_ok s"
  have "0 \<notin> set (utf16_encode (utf8_decode s))" using ok utf8_decode_nonzero [of s] utf8_decode_scalar [of s]
    by (simp add: text_ok_def utf16_encode_nonzero)
  from exact_naked_units [OF this, of "[]"] show ?thesis
    using decode_encode_UTF16 [OF ok] by (simp add: readNakedUTF16_def encodeUTF16_def del: map_append)
qed

subsection \<open>Names and values\<close>

text \<open>Names and values that survive: the fields a kind does not use are empty, texts are valid UTF-8 without NUL.\<close>

definition name_ok :: "property_name \<Rightarrow> bool" where
  "name_ok n \<longleftrightarrow> guid_wf (NGUID n) \<and>
     (Kind n = MnidID \<and> Name n = [] \<or> Kind n = MnidString \<and> LID n = 0 \<and> text_ok (Name n)
      \<or> Kind n = KindNone \<and> LID n = 0 \<and> Name n = [])"

lemma exact_name:
  assumes "name_ok n"
  shows "\<exists>nb. appendName h n = Inr (h @ nb) \<and> exact decodeName nb n"
proof -
  have g: "guid_wf (NGUID n)" using assms by (simp add: name_ok_def)
  let ?n = "\<lparr>Kind = Kind n, NGUID = NGUID n, LID = 0, Name = []\<rparr>"
  let ?rest = "if Kind n = MnidID then fxmap (\<lambda>lid. ?n\<lparr>LID := lid\<rparr>) fx_u32
    else if Kind n = MnidString then fxmap (\<lambda>s. ?n\<lparr>Name := s\<rparr>) readNakedUTF16
    else if Kind n = KindNone then fxret ?n else (\<lambda>b. Short)"
  define tl where "tl = (if Kind n = MnidID then le_bytes 4 (LID n) else if Kind n = MnidString then encodeUTF16 (Name n) else [])"
  have "exact ?rest tl n"
    using assms by (cases n) (auto simp: name_ok_def tl_def intro!: exact_map [OF exact_u32] exact_map [OF exact_readNaked] exact_ret)
  then have "exact decodeName (Flat (NGUID n) @ [Kind n] @ tl) n"
    unfolding decodeName_def using g
    by (intro exact_bind [OF exact_bytes] exact_bind [OF exact_u8]) (simp_all add: Let_def)
  moreover have "appendName h n = Inr (h @ Flat (NGUID n) @ [Kind n] @ tl)"
    using assms by (auto simp: appendName_def name_ok_def tl_def)
  ultimately show ?thesis by blast
qed

definition val_ok :: "prop_type \<Rightarrow> fx_value \<Rightarrow> bool" where
  "val_ok t v =
     (case v of
        VGuid g \<Rightarrow> guid_wf g
      | VString s \<Rightarrow> if t = PtString8 then length s + 1 < 2 ^ 32 else text_ok s
      | VBytes b \<Rightarrow> length b < 2 ^ 32
      | VMvShort xs \<Rightarrow> length xs \<le> 0x100000
      | VMvLong xs \<Rightarrow> length xs \<le> 0x100000
      | VMvInt64 xs \<Rightarrow> length xs \<le> 0x100000
      | VMvTime xs \<Rightarrow> length xs \<le> 0x100000
      | VMvFloat xs \<Rightarrow> length xs \<le> 0x100000
      | VMvDouble xs \<Rightarrow> length xs \<le> 0x100000
      | VMvGuid xs \<Rightarrow> length xs \<le> 0x100000 \<and> list_all guid_wf xs
      | VMvString xs \<Rightarrow> length xs \<le> 0x100000
          \<and> list_all (\<lambda>s. if t = PtMvString8 then length s + 1 < 2 ^ 32 else text_ok s) xs
      | VMvBytes xs \<Rightarrow> length xs \<le> 0x100000 \<and> list_all (\<lambda>b. length b < 2 ^ 32) xs
      | _ \<Rightarrow> True)"

lemma trimNUL_snoc [simp]: "trimNUL (s @ [0]) = s"
  by (simp add: trimNUL_def)

lemma tearable:
  "appendTearable h body = Inr (h', b') \<Longrightarrow> h' @ b' = h @ appendLenPrefixed body \<and> b' = body"
  by (auto simp: appendTearable_def appendLenPrefixed_def)

lemma exact_text: "text_ok s \<Longrightarrow> exact (fxmap decodeUTF16 lenPrefixed) (appendLenPrefixed (encodeUTF16 s)) s"
  by (rule exact_map [OF exact_lenPrefixed]) (simp_all add: text_ok_def decode_encode_UTF16)

lemma exact_string8: "length s + 1 < 2 ^ 32 \<Longrightarrow> exact (fxmap trimNUL lenPrefixed) (appendLenPrefixed (s @ [0])) s"
  by (rule exact_map [OF exact_lenPrefixed]) simp_all

lemma fxmap_comp: "fxmap f (fxmap g m) = fxmap (\<lambda>x. f (g x)) m"
  by (auto simp: fxmap_def fxbind_def fxret_def split: fx_result.splits)

text \<open>What the writers produce for the scalar types, read back exactly.\<close>

lemma decodeValue_scalars:
  "decodeValue PtShort = fxmap VShort fx_u16" "decodeValue PtLong = fxmap VLong fx_u32"
  "decodeValue PtError = fxmap VError fx_u32" "decodeValue PtFloat = fxmap VFloat fx_u32"
  "decodeValue PtDouble = fxmap VDouble fx_u64" "decodeValue PtAppTime = fxmap VDouble fx_u64"
  "decodeValue PtBoolean = fxmap (\<lambda>v. VBool (v \<noteq> 0)) fx_u16"
  "decodeValue PtCurrency = fxmap VInt64 fx_u64" "decodeValue PtI8 = fxmap VInt64 fx_u64"
  "decodeValue PtSysTime = fxmap VTime fx_u64"
  "decodeValue PtCLSID = fxmap (\<lambda>f. VGuid (FlatToGUID f)) (fx_bytes 16)"
  "decodeValue PtUnicode = fxmap (\<lambda>raw. VString (decodeUTF16 raw)) lenPrefixed"
  "decodeValue PtString8 = fxmap (\<lambda>raw. VString (trimNUL raw)) lenPrefixed"
  "decodeValue PtBinary = fxmap VBytes lenPrefixed" "decodeValue PtObject = fxmap VBytes lenPrefixed"
  by (simp_all add: fun_eq_iff decodeValue_def fxValueReaders_def)

lemma scalar_written:
  assumes "fxValueWriters t = Some wr" "wr h v = Inr (h', body)"
  obtains x where "t = PtShort" "v = VShort x" "h' @ body = h @ le_bytes 2 x"
  | x where "t = PtLong" "v = VLong x" "h' @ body = h @ le_bytes 4 x"
  | x where "t = PtError" "v = VError x" "h' @ body = h @ le_bytes 4 x"
  | x where "t = PtFloat" "v = VFloat x" "h' @ body = h @ le_bytes 4 x"
  | x where "t = PtDouble \<or> t = PtAppTime" "v = VDouble x" "h' @ body = h @ le_bytes 8 x"
  | x where "t = PtBoolean" "v = VBool x" "h' @ body = h @ le_bytes 2 (if x then 1 else 0 :: u16)"
  | x where "t = PtCurrency \<or> t = PtI8" "v = VInt64 x" "h' @ body = h @ le_bytes 8 x"
  | x where "t = PtSysTime" "v = VTime x" "h' @ body = h @ le_bytes 8 x"
  | x where "t = PtCLSID" "v = VGuid x" "h' @ body = h @ Flat x"
  | x where "t = PtUnicode" "v = VString x" "h' @ body = h @ appendLenPrefixed (encodeUTF16 x)"
  | x where "t = PtString8" "v = VString x" "h' @ body = h @ appendLenPrefixed (x @ [0])"
  | x where "t = PtBinary \<or> t = PtObject" "v = VBytes x" "h' @ body = h @ appendLenPrefixed x"
  using assms unfolding fxValueWriters_def
  by (auto split: if_splits fx_value.splits dest!: tearable)

lemma exact_scalar:
  assumes "fxValueWriters t = Some wr" "wr h v = Inr (h', body)" "val_ok t v"
  shows "\<exists>vb. h' @ body = h @ vb \<and> exact (decodeValue t) vb v"
  by (rule scalar_written [OF assms(1,2)]; rule exI, erule conjI)
    (use assms(3) in \<open>auto simp: decodeValue_scalars val_ok_def text_ok_def decode_encode_UTF16 simp del: le_bytes_zero intro!: exact_map [OF exact_u16]
      exact_map [OF exact_u32] exact_map [OF exact_u64] exact_map [OF exact_bytes] exact_map [OF exact_lenPrefixed]\<close>)

lemma elems_length: "\<forall>x\<in>set xs. 2 \<le> length (w x) \<Longrightarrow> length xs * 2 \<le> length (concat (map w xs))"
  by (induction xs) auto

lemma whole_mv:
  assumes rd: "mvReaders t = Some (decodeMVElems mk rd)" and t: "fxValueReaders t = None" "isMultivalue t"
    and xs: "length xs \<le> 0x100000" "\<forall>x\<in>set xs. whole rd (w x) x \<and> 2 \<le> length (w x)"
  shows "whole (decodeValue t) (appendMVElems w xs) (mk xs)"
proof -
  let ?n = "of_nat (length xs) :: u32"
  have n: "unat ?n = length xs" using xs(1) by (intro unat_of_nat_less) simp
  have "whole (decodeMVElems mk rd ?n) (concat (map w xs)) (mk xs)"
    using whole_times [of xs rd w] xs(2) elems_length [of xs w] n
    by (auto simp: whole_def decodeMVElems_def fxmap_def fxbind_def fxret_def)
  moreover have "\<not> ?n > maxMVCount" using n xs(1) by (simp add: word_less_nat_alt)
  ultimately have "whole (decodeMV t) (appendMVElems w xs) (mk xs)"
    unfolding decodeMV_def appendMVElems_def using rd
    by (intro whole_bind [OF exact_whole [OF exact_u32]]) (simp add: whole_def)
  then show ?thesis using t by (simp add: whole_def decodeValue_def)
qed

lemma mv_written:
  assumes "mvWriters t = Some wr" "wr v = Some bs"
  obtains xs where "t = PtMvShort" "v = VMvShort xs" "bs = appendMVElems (le_bytes 2) xs"
  | xs where "t = PtMvLong" "v = VMvLong xs" "bs = appendMVElems (le_bytes 4) xs"
  | xs where "t = PtMvCurrency \<or> t = PtMvI8" "v = VMvInt64 xs" "bs = appendMVElems (le_bytes 8) xs"
  | xs where "t = PtMvSysTime" "v = VMvTime xs" "bs = appendMVElems (le_bytes 8) xs"
  | xs where "t = PtMvFloat" "v = VMvFloat xs" "bs = appendMVElems (le_bytes 4) xs"
  | xs where "t = PtMvDouble \<or> t = PtMvAppTime" "v = VMvDouble xs" "bs = appendMVElems (le_bytes 8) xs"
  | xs where "t = PtMvCLSID" "v = VMvGuid xs" "bs = appendMVElems Flat xs"
  | xs where "t = PtMvString8" "v = VMvString xs" "bs = appendMVElems (\<lambda>s. appendLenPrefixed (s @ [0])) xs"
  | xs where "t = PtMvUnicode" "v = VMvString xs" "bs = appendMVElems (\<lambda>s. appendLenPrefixed (encodeUTF16 s)) xs"
  | xs where "t = PtMvBinary" "v = VMvBytes xs" "bs = appendMVElems appendLenPrefixed xs"
  using assms unfolding mvWriters_def
  by (auto split: if_splits fx_value.splits)

lemma mvReaders_types:
  "mvReaders PtMvShort = Some (decodeMVElems VMvShort fx_u16)" "mvReaders PtMvLong = Some (decodeMVElems VMvLong fx_u32)"
  "mvReaders PtMvCurrency = Some (decodeMVElems VMvInt64 fx_u64)" "mvReaders PtMvI8 = Some (decodeMVElems VMvInt64 fx_u64)"
  "mvReaders PtMvSysTime = Some (decodeMVElems VMvTime fx_u64)" "mvReaders PtMvFloat = Some (decodeMVElems VMvFloat fx_u32)"
  "mvReaders PtMvDouble = Some (decodeMVElems VMvDouble fx_u64)" "mvReaders PtMvAppTime = Some (decodeMVElems VMvDouble fx_u64)"
  "mvReaders PtMvCLSID = Some (decodeMVElems VMvGuid (fxmap FlatToGUID (fx_bytes 16)))"
  "mvReaders PtMvString8 = Some (decodeMVElems VMvString (fxmap trimNUL lenPrefixed))"
  "mvReaders PtMvUnicode = Some (decodeMVElems VMvString (fxmap decodeUTF16 lenPrefixed))"
  "mvReaders PtMvBinary = Some (decodeMVElems VMvBytes lenPrefixed)"
  by (simp_all add: mvReaders_def)

lemma mv_types:
  "t \<in> {PtMvShort, PtMvLong, PtMvCurrency, PtMvI8, PtMvSysTime, PtMvFloat, PtMvDouble, PtMvAppTime, PtMvCLSID,
     PtMvString8, PtMvUnicode, PtMvBinary} \<Longrightarrow> fxValueReaders t = None \<and> isMultivalue t"
  by (auto simp: fxValueReaders_def isMultivalue_def)

lemma lenPrefixed_long: "2 \<le> length (appendLenPrefixed b)"
  by (simp add: appendLenPrefixed_def)

lemma whole_multivalue:
  assumes "mvWriters t = Some wr" "wr v = Some bs" "val_ok t v"
  shows "whole (decodeValue t) bs v"
  by (rule mv_written [OF assms(1,2)])
    (use assms(3) in \<open>auto simp: val_ok_def list_all_iff mvReaders_types mv_types lenPrefixed_long
      intro!: whole_mv exact_whole [OF exact_u16] exact_whole [OF exact_u32] exact_whole [OF exact_u64]
        exact_whole [OF exact_guid] exact_whole [OF exact_string8] exact_whole [OF exact_text] exact_whole [OF exact_lenPrefixed]\<close>)

section \<open>Elements\<close>

definition wire_type :: "stream_prop \<Rightarrow> prop_type" where
  "wire_type p = fxWireType (TagType (STag p)) (TagID (STag p))"

text \<open>The property a reader sees: the type as written on the wire, and a name for named properties only.\<close>

definition as_read :: "stream_prop \<Rightarrow> stream_prop" where
  "as_read p = \<lparr>STag = MakeTag (TagID (STag p)) (wire_type p),
     SName = (if TagID (STag p) \<ge> 0x8000 then SName p else None), SValue = SValue p\<rparr>"

lemma as_read_tag: "STag (as_read p) = MakeTag (TagID (STag p)) (fxWireType (TagType (STag p)) (TagID (STag p)))"
  by (simp add: as_read_def wire_type_def)

text \<open>Its tag must not be one of the words the stream reserves.\<close>

definition prop_ok :: "stream_prop \<Rightarrow> bool" where
  "prop_ok p \<longleftrightarrow> \<not> isMarker (STag (as_read p)) \<and> STag (as_read p) \<noteq> metaTagIdsetGiven
     \<and> (case SName (as_read p) of Some n \<Rightarrow> name_ok n | None \<Rightarrow> True) \<and> val_ok (wire_type p) (SValue p)"

lemma writer_types:
  "fxValueWriters t = Some wr \<Longrightarrow> t AND fxCodepageFlag = 0 \<and> \<not> isMultivalue t"
  "mvWriters t = Some wr' \<Longrightarrow> t AND fxCodepageFlag = 0"
  by (auto simp: fxValueWriters_def mvWriters_def isMultivalue_def split: if_splits)

lemma encodeProp_parts:
  assumes "encodeProp p = Inr (h, body)" "prop_ok p"
  obtains nb vb where "h @ body = le_bytes 4 (STag (as_read p)) @ nb @ vb"
    "exact (if TagID (STag p) \<ge> 0x8000 then fxmap Some decodeName else fxret None) nb (SName (as_read p))"
    "wire_type p AND fxCodepageFlag = 0" "whole (decodeValue (wire_type p)) vb (SValue p)"
    "isMultivalue (wire_type p) \<and> body = [] \<or> exact (decodeValue (wire_type p)) vb (SValue p)"
proof -
  let ?h = "le_bytes 4 (STag (as_read p))"
  have v: "val_ok (wire_type p) (SValue p)" using assms(2) by (simp add: prop_ok_def)
  obtain h1 where h1: "(if TagID (STag p) \<ge> 0x8000 then (case SName p of None \<Rightarrow> Inl (MissingName (STag p)) | Some n \<Rightarrow> appendName ?h n)
      else Inr ?h) = Inr h1"
    and w: "(case fxValueWriters (wire_type p) of Some write \<Rightarrow> write h1 (SValue p)
      | None \<Rightarrow> if isMultivalue (wire_type p) then bindr (appendMV h1 (wire_type p) (SValue p)) (\<lambda>h. Inr (h, []))
        else Inl (UnsupportedFXType (TagType (STag p)))) = Inr (h, body)"
    using assms(1) unfolding encodeProp_def Let_def as_read_tag wire_type_def bindr_eq_Inr_iff by blast
  obtain nb where nb: "h1 = ?h @ nb"
    "exact (if TagID (STag p) \<ge> 0x8000 then fxmap Some decodeName else fxret None) nb (SName (as_read p))"
  proof (cases "TagID (STag p) \<ge> 0x8000")
    case True
    then obtain n where n: "SName p = Some n" "appendName ?h n = Inr h1" using h1 by (cases "SName p") auto
    then have "name_ok n" using assms(2) True by (simp add: prop_ok_def as_read_def)
    from exact_name [OF this, of ?h] obtain nb where "h1 = ?h @ nb" "exact decodeName nb n" using n(2) by auto
    then show ?thesis using that n(1) True by (auto simp: as_read_def intro: exact_map)
  next
    case False
    then show ?thesis using that [of "[]"] h1 exact_ret [of "None :: property_name option"] by (simp add: as_read_def)
  qed
  show ?thesis
  proof (cases "fxValueWriters (wire_type p)")
    case (Some wr)
    have "wr h1 (SValue p) = Inr (h, body)" using w Some by simp
    from exact_scalar [OF Some this v] obtain vb where
      "h @ body = h1 @ vb" "exact (decodeValue (wire_type p)) vb (SValue p)" by blast
    then show ?thesis using that [OF _ nb(2)] nb(1) writer_types(1) [OF Some] by (auto dest: exact_whole)
  next
    case None
    then obtain wr bs where mv: "isMultivalue (wire_type p)" "mvWriters (wire_type p) = Some wr" "wr (SValue p) = Some bs"
      "h = h1 @ bs" "body = []"
      using w by (auto simp: appendMV_def split: if_splits option.splits)
    then show ?thesis using that [OF _ nb(2)] nb(1) writer_types(2) [OF mv(2)] whole_multivalue [OF mv(2,3) v] by simp
  qed
qed

lemma exact_decode_prop:
  assumes "exact nrd nb n" "\<not> isMarker (MakeTag i t)" "MakeTag i t \<noteq> metaTagIdsetGiven" "t AND fxCodepageFlag = 0"
    "nrd = (if i \<ge> 0x8000 then fxmap Some decodeName else fxret None)" "p = \<lparr>STag = MakeTag i t, SName = n, SValue = v\<rparr>"
  shows "whole (decodeValue t) vb v \<Longrightarrow> whole decodeElement (le_bytes 4 (MakeTag i t) @ nb @ vb) (Prop p)"
    and "exact (decodeValue t) vb v \<Longrightarrow> exact decodeElement (le_bytes 4 (MakeTag i t) @ nb @ vb) (Prop p)"
proof -
  have d: "decode_prop (MakeTag i t) = fxbind nrd (\<lambda>n. fxmap (\<lambda>v. Prop \<lparr>STag = MakeTag i t, SName = n, SValue = v\<rparr>) (decodeValue t))"
    using assms(3,4,5) by (simp add: decode_prop_def Let_def)
  show "whole decodeElement (le_bytes 4 (MakeTag i t) @ nb @ vb) (Prop p)" if "whole (decodeValue t) vb v"
    unfolding decodeElement_def using assms(2) d that assms(6)
    by (intro whole_bind [OF exact_whole [OF exact_u32]]) (auto intro!: whole_bind [OF exact_whole [OF assms(1)]] whole_map)
  show "exact decodeElement (le_bytes 4 (MakeTag i t) @ nb @ vb) (Prop p)" if "exact (decodeValue t) vb v"
    unfolding decodeElement_def using assms(2) d that assms(6)
    by (intro exact_bind [OF exact_u32]) (auto intro!: exact_bind [OF assms(1)] exact_map)
qed

lemma element_roundtrip:
  assumes "encodeProp p = Inr (h, body)" "prop_ok p"
  shows "whole decodeElement (h @ body) (Prop (as_read p))"
    and "isMultivalue (wire_type p) \<and> body = [] \<or> exact decodeElement (h @ body) (Prop (as_read p))"
proof -
  obtain nb vb where e: "h @ body = le_bytes 4 (STag (as_read p)) @ nb @ vb"
    "exact (if TagID (STag p) \<ge> 0x8000 then fxmap Some decodeName else fxret None) nb (SName (as_read p))"
    "wire_type p AND fxCodepageFlag = 0" "whole (decodeValue (wire_type p)) vb (SValue p)"
    "isMultivalue (wire_type p) \<and> body = [] \<or> exact (decodeValue (wire_type p)) vb (SValue p)"
    by (rule encodeProp_parts [OF assms])
  note d = exact_decode_prop [OF e(2) _ _ e(3) refl, where p = "as_read p" and v = "SValue p" and vb = vb]
  have t: "STag (as_read p) = MakeTag (TagID (STag p)) (wire_type p)" by (simp add: as_read_def)
  have r: "\<not> isMarker (MakeTag (TagID (STag p)) (wire_type p))" "MakeTag (TagID (STag p)) (wire_type p) \<noteq> metaTagIdsetGiven"
    using assms(2) by (simp_all add: prop_ok_def t)
  have p: "as_read p = \<lparr>STag = MakeTag (TagID (STag p)) (wire_type p), SName = SName (as_read p), SValue = SValue p\<rparr>"
    by (simp add: as_read_def)
  show "whole decodeElement (h @ body) (Prop (as_read p))" using d(1) [OF r p e(4)] e(1) t by simp
  show "isMultivalue (wire_type p) \<and> body = [] \<or> exact decodeElement (h @ body) (Prop (as_read p))"
    using d(2) [OF r p] e(1,5) t by auto
qed

lemma exact_marker: "isMarker m \<Longrightarrow> exact decodeElement (le_bytes 4 m) (Marker m)"
  unfolding decodeElement_def using exact_bind [OF exact_u32, of "\<lambda>word. if isMarker word then fxret (Marker word) else decode_prop word" m "[]"]
  by (simp add: exact_ret)

end
