(* ===== verification/Ics_Transport.thy ===== *)
theory Ics_Transport
  imports Ics_Stream "HOL-Library.Code_Target_Nat"
begin

text \<open>
  \<^verbatim>\<open>internal/ics/producer.go\<close> and \<^verbatim>\<open>parser.go\<close>: the transport of the FastTransfer stream in chunks. The
  producer queues elements and serves them in buffers of a given size; the parser reassembles
  elements from chunks cut anywhere.
\<close>

section \<open>Producer (producer.go)\<close>

record element =
  header :: bytes
  body :: bytes
  headerDone :: bool
  bodyPos :: nat

record producer =
  queue :: "element list"
  head :: nat

definition newProducer :: producer where
  "newProducer = \<lparr>queue = [], head = 0\<rparr>"

definition WriteMarker :: "producer \<Rightarrow> u32 \<Rightarrow> producer" where
  "WriteMarker pr m = pr\<lparr>queue := queue pr @ [\<lparr>header = le_bytes 4 m, body = [], headerDone = False, bodyPos = 0\<rparr>]\<rparr>"

definition WriteProp :: "producer \<Rightarrow> stream_prop \<Rightarrow> fx_error + producer" where
  "WriteProp pr p =
     (if TagType (STag p) = PtSvrEID then Inr pr
      else bindr (encodeProp p) (\<lambda>(h, b).
        Inr (pr\<lparr>queue := queue pr @ [\<lparr>header = h, body = b, headerDone = False, bodyPos = 0\<rparr>]\<rparr>)))"

definition Pending :: "producer \<Rightarrow> bool" where
  "Pending pr \<longleftrightarrow> head pr < length (queue pr)"

definition PendingLen :: "producer \<Rightarrow> nat" where
  "PendingLen pr = sum_list (map (\<lambda>e. (if headerDone e then 0 else length (header e)) + (length (body e) - bodyPos e))
     (drop (head pr) (queue pr)))"

text \<open>The loop of \<^verbatim>\<open>ReadBuffer\<close>.\<close>

function read_loop :: "producer \<Rightarrow> bytes \<Rightarrow> nat \<Rightarrow> producer \<times> bytes" where
  "read_loop pr out maxLen =
     (if head pr < length (queue pr) then
        (let e = queue pr ! head pr in
         if \<not> headerDone e \<and> length out > 0 \<and> length out + length (header e) > maxLen then (pr, out)
         else
           (let out = (if headerDone e then out else out @ header e);
                e = e\<lparr>headerDone := True\<rparr>;
                avail = maxLen - length out;
                rem = length (body e) - bodyPos e
            in if rem \<le> avail
               then read_loop (pr\<lparr>queue := (queue pr)[head pr := e], head := head pr + 1\<rparr>) (out @ drop (bodyPos e) (body e)) maxLen
               else
                 (pr\<lparr>queue := (queue pr)[head pr := e\<lparr>bodyPos := bodyPos e + avail\<rparr>]\<rparr>,
                  out @ take avail (drop (bodyPos e) (body e)))))
      else (pr, out))"
  by pat_completeness auto
termination by (relation "measure (\<lambda>(pr, _). length (queue pr) - head pr)") auto

declare read_loop.simps [simp del]

definition ReadBuffer :: "producer \<Rightarrow> nat \<Rightarrow> producer \<times> bytes \<times> bool" where
  "ReadBuffer pr maxLen =
     (case read_loop pr [] maxLen of (pr, out) \<Rightarrow>
        if head pr \<ge> length (queue pr) then (pr\<lparr>queue := [], head := 0\<rparr>, out, True) else (pr, out, False))"

section \<open>Parser (parser.go)\<close>

record parser =
  buf :: bytes
  ppos :: nat

definition newParser :: parser where
  "newParser = \<lparr>buf = [], ppos = 0\<rparr>"

definition Feed :: "parser \<Rightarrow> bytes \<Rightarrow> parser" where
  "Feed ps chunk =
     (let ps = (if ppos ps > 0 then ps\<lparr>buf := drop (ppos ps) (buf ps), ppos := 0\<rparr> else ps)
      in ps\<lparr>buf := buf ps @ chunk\<rparr>)"

text \<open>\<open>None\<close> is the answer that more bytes are needed.\<close>

definition Next :: "parser \<Rightarrow> fx_error + (item \<times> parser) option" where
  "Next ps =
     (let b = drop (ppos ps) (buf ps) in
      case decodeElement b of
        Bad e \<Rightarrow> Inl e
      | Short \<Rightarrow> Inr None
      | Val it s \<Rightarrow> Inr (Some (it, ps\<lparr>ppos := ppos ps + (length b - length s)\<rparr>)))"

text \<open>
  A receiver: after each chunk it takes elements until the parser asks for more. Every element has
  at least four bytes, so the number of buffered bytes bounds the rounds.
\<close>

fun drain :: "nat \<Rightarrow> parser \<Rightarrow> fx_error + item list \<times> parser" where
  "drain 0 ps = Inr ([], ps)"
| "drain (Suc n) ps =
     bindr (Next ps) (\<lambda>r. case r of None \<Rightarrow> Inr ([], ps)
       | Some (it, ps) \<Rightarrow> bindr (drain n ps) (\<lambda>(its, ps). Inr (it # its, ps)))"

definition receive :: "parser \<Rightarrow> bytes \<Rightarrow> fx_error + item list \<times> parser" where
  "receive ps chunk = (let ps = Feed ps chunk in drain (length (buf ps)) ps)"

fun receive_all :: "parser \<Rightarrow> bytes list \<Rightarrow> fx_error + item list \<times> parser" where
  "receive_all ps [] = Inr ([], ps)"
| "receive_all ps (c # cs) =
     bindr (receive ps c) (\<lambda>(its, ps). bindr (receive_all ps cs) (\<lambda>(its', ps). Inr (its @ its', ps)))"

definition unread_bytes :: "parser \<Rightarrow> bytes" where
  "unread_bytes ps = drop (ppos ps) (buf ps)"

section \<open>Streams of elements\<close>

text \<open>
  A stream is the concatenation of whole encodings; a list of pairs of an item and its bytes.
\<close>

definition stream_ok :: "(item \<times> bytes) list \<Rightarrow> bool" where
  "stream_ok es \<longleftrightarrow> (\<forall>(it, p)\<in>set es. whole decodeElement p it)"

lemma decodeElement_Nil [simp]: "decodeElement [] = Short"
  by (simp add: decodeElement_def fxbind_def fx_u32_def)

lemma whole_nonempty: "whole decodeElement p it \<Longrightarrow> p \<noteq> []"
  using decodeElement_Nil unfolding whole_def by (metis append_Nil fx_result.distinct(3))

lemma drain_stream:
  assumes "stream_ok es" "unread_bytes ps = concat (map snd es) @ part" "decodeElement part = Short"
    "ppos ps \<le> length (buf ps)" "length es \<le> n"
  shows "\<exists>ps'. drain n ps = Inr (map fst es, ps') \<and> unread_bytes ps' = part \<and> ppos ps' \<le> length (buf ps')"
  using assms
proof (induction n arbitrary: es ps)
  case 0
  then show ?case by simp
next
  case (Suc n)
  show ?case
  proof (cases es)
    case Nil
    then show ?thesis using Suc.prems by (auto simp: Next_def unread_bytes_def Let_def)
  next
    case (Cons e es')
    obtain it p where e: "e = (it, p)" by (cases e)
    have w: "whole decodeElement p it" "stream_ok es'" using Suc.prems(1) Cons e by (auto simp: stream_ok_def)
    let ?rest = "concat (map snd es') @ part"
    have u: "drop (ppos ps) (buf ps) = p @ ?rest" using Suc.prems(2) Cons e by (simp add: unread_bytes_def)
    let ?ps = "ps\<lparr>ppos := ppos ps + length p\<rparr>"
    have n: "Next ps = Inr (Some (it, ?ps))" using w(1) unfolding Next_def Let_def u by (simp add: whole_def)
    have "unread_bytes ?ps = ?rest"
      using arg_cong [OF u, of "drop (length p)"] by (simp add: unread_bytes_def add.commute)
    moreover have "ppos ?ps \<le> length (buf ?ps)"
      using arg_cong [OF u, of length] Suc.prems(4) by simp
    ultimately obtain ps' where "drain n ?ps = Inr (map fst es', ps')" "unread_bytes ps' = part" "ppos ps' \<le> length (buf ps')"
      using Suc.IH [of es' ?ps] w(2) Suc.prems(3,5) Cons by auto
    then show ?thesis using n Cons e by simp
  qed
qed

lemma stream_length: "stream_ok es \<Longrightarrow> length es \<le> length (concat (map snd es))"
proof (induction es)
  case (Cons e es)
  obtain it p where e: "e = (it, p)" by (cases e)
  then have "p \<noteq> []" "stream_ok es" using Cons.prems whole_nonempty by (auto simp: stream_ok_def)
  then show ?case using Cons.IH e by (cases p) auto
qed simp

lemma receive_stream:
  assumes "stream_ok es" "unread_bytes ps @ c = concat (map snd es) @ part" "decodeElement part = Short"
    "ppos ps \<le> length (buf ps)"
  shows "\<exists>ps'. receive ps c = Inr (map fst es, ps') \<and> unread_bytes ps' = part \<and> ppos ps' \<le> length (buf ps')"
proof -
  have f: "unread_bytes (Feed ps c) = concat (map snd es) @ part" "ppos (Feed ps c) = 0"
    using assms(2) by (cases "ppos ps > 0", simp_all add: Feed_def unread_bytes_def Let_def)+
  then have "buf (Feed ps c) = concat (map snd es) @ part" by (simp add: unread_bytes_def)
  then show ?thesis unfolding receive_def Let_def
    using drain_stream [OF assms(1) f(1) assms(3)] f(2) stream_length [OF assms(1)] by simp
qed

section \<open>Chunks cut anywhere\<close>

definition exact_stream :: "(item \<times> bytes) list \<Rightarrow> bool" where
  "exact_stream es \<longleftrightarrow> (\<forall>(it, p)\<in>set es. exact decodeElement p it)"

lemma exact_stream_ok: "exact_stream es \<Longrightarrow> stream_ok es"
  by (auto simp: exact_stream_def stream_ok_def exact_whole)

lemma split_stream:
  assumes "exact_stream es" "u @ r = concat (map snd es)"
  shows "\<exists>es1 es2 part. es = es1 @ es2 \<and> u = concat (map snd es1) @ part \<and> part @ r = concat (map snd es2)
    \<and> decodeElement part = Short"
  using assms
proof (induction es arbitrary: u)
  case Nil
  then show ?case by simp
next
  case (Cons e es)
  obtain it p where e: "e = (it, p)" by (cases e)
  have x: "exact decodeElement p it" "exact_stream es" using Cons.prems(1) e by (auto simp: exact_stream_def)
  have eq: "u @ r = p @ concat (map snd es)" using Cons.prems(2) e by simp
  then obtain us where "u = p @ us \<and> us @ r = concat (map snd es) \<or> p = u @ us \<and> r = us @ concat (map snd es)"
    by (auto simp: append_eq_append_conv2)
  then consider us where "u = p @ us" "us @ r = concat (map snd es)" | "p = u @ us" "us \<noteq> []" by (cases "us = []") auto
  then show ?case
  proof cases
    case 1
    from Cons.IH [OF x(2) 1(2)] obtain es1 es2 part where
      "es = es1 @ es2" "us = concat (map snd es1) @ part" "part @ r = concat (map snd es2)" "decodeElement part = Short"
      by blast
    then show ?thesis using 1 e by (intro exI [of _ "e # es1"] exI [of _ es2] exI [of _ part]) simp
  next
    case 2
    then have "decodeElement u = Short" using x(1) by (auto simp: exact_def)
    then show ?thesis using Cons.prems(2) by (intro exI [of _ "[]"] exI [of _ "e # es"] exI [of _ u]) simp
  qed
qed

lemma receive_all_exact:
  assumes "exact_stream es" "unread_bytes ps @ concat cs = concat (map snd es)" "ppos ps \<le> length (buf ps)"
    "decodeElement (unread_bytes ps) = Short"
  shows "\<exists>ps'. receive_all ps cs = Inr (map fst es, ps') \<and> unread_bytes ps' = []"
  using assms
proof (induction cs arbitrary: es ps)
  case Nil
  then have "es = []" using whole_nonempty
  proof (cases es)
    case (Cons e es')
    obtain it p where e: "e = (it, p)" by (cases e)
    have "whole decodeElement p it" using Nil.prems(1) Cons e by (auto simp: exact_stream_def exact_whole)
    then have "decodeElement (unread_bytes ps) = Val it (concat (map snd es'))" using Nil.prems(2) Cons e by (simp add: whole_def)
    then show ?thesis using Nil.prems(4) by simp
  qed
  then show ?case using Nil by simp
next
  case (Cons c cs)
  have "(unread_bytes ps @ c) @ concat cs = concat (map snd es)" using Cons.prems(2) by simp
  from split_stream [OF Cons.prems(1) this] obtain es1 es2 part where
    sp: "es = es1 @ es2" "unread_bytes ps @ c = concat (map snd es1) @ part" "part @ concat cs = concat (map snd es2)"
    "decodeElement part = Short" by blast
  have ex: "exact_stream es1" "exact_stream es2" using Cons.prems(1) sp(1) by (auto simp: exact_stream_def)
  obtain ps1 where r1: "receive ps c = Inr (map fst es1, ps1)" "unread_bytes ps1 = part" "ppos ps1 \<le> length (buf ps1)"
    using receive_stream [OF exact_stream_ok [OF ex(1)] sp(2,4) Cons.prems(3)] by blast
  obtain ps' where "receive_all ps1 cs = Inr (map fst es2, ps')" "unread_bytes ps' = []"
    using Cons.IH [OF ex(2), of ps1] sp(3,4) r1 by auto
  then show ?case using r1(1) sp(1) by simp
qed

section \<open>What the producer sends\<close>

text \<open>
  A queued element stands for an item: its header and body together are a whole encoding of it, and
  a cut inside the body leaves an incomplete element.
\<close>

definition stands_for :: "element \<Rightarrow> item \<times> bytes \<Rightarrow> bool" where
  "stands_for e x \<longleftrightarrow> header e @ body e = snd x \<and> header e \<noteq> [] \<and> whole decodeElement (snd x) (fst x)
     \<and> (\<forall>k<length (body e). decodeElement (header e @ take k (body e)) = Short)"

definition fresh :: "element \<Rightarrow> bool" where
  "fresh e \<longleftrightarrow> \<not> headerDone e \<and> bodyPos e = 0"

text \<open>The bytes of the current element that have been sent already.\<close>

definition sent :: "element \<Rightarrow> bytes" where
  "sent e = (if headerDone e then header e @ take (bodyPos e) (body e) else [])"

definition sent_head :: "element list \<Rightarrow> bytes" where
  "sent_head q = (case q of [] \<Rightarrow> [] | e # _ \<Rightarrow> sent e)"

definition queue_ok :: "element list \<Rightarrow> (item \<times> bytes) list \<Rightarrow> bool" where
  "queue_ok q es \<longleftrightarrow> list_all2 stands_for q es \<and> (\<forall>e\<in>set (tl q). fresh e)
     \<and> (q \<noteq> [] \<longrightarrow> fresh (hd q) \<or> headerDone (hd q) \<and> bodyPos (hd q) < length (body (hd q)))"

abbreviation rest :: "producer \<Rightarrow> element list" where
  "rest pr \<equiv> drop (head pr) (queue pr)"

lemma queue_ok_tl: "queue_ok (e # q) (x # es) \<Longrightarrow> queue_ok q es \<and> sent_head q = []"
  by (cases q) (auto simp: queue_ok_def sent_head_def sent_def fresh_def)

lemma sent_short: "queue_ok q es \<Longrightarrow> decodeElement (sent_head q) = Short"
  by (cases q) (auto simp: queue_ok_def sent_head_def sent_def fresh_def stands_for_def list_all2_Cons1)

text \<open>One round of the loop, on the rest of the queue.\<close>

lemma read_loop_nil: "rest pr = [] \<Longrightarrow> read_loop pr out m = (pr, out)"
  by (subst read_loop.simps) simp

lemma read_loop_cons:
  assumes "rest pr = e # q"
  defines "out1 \<equiv> (if headerDone e then [] else header e)"
  shows "read_loop pr out m =
    (if \<not> headerDone e \<and> length out > 0 \<and> length out + length (header e) > m then (pr, out)
     else if length (body e) - bodyPos e \<le> m - length (out @ out1)
     then read_loop (pr\<lparr>queue := (queue pr)[head pr := e\<lparr>headerDone := True\<rparr>], head := head pr + 1\<rparr>)
       (out @ out1 @ drop (bodyPos e) (body e)) m
     else (pr\<lparr>queue := (queue pr)[head pr := e\<lparr>headerDone := True, bodyPos := bodyPos e + (m - length (out @ out1))\<rparr>]\<rparr>,
       out @ out1 @ take (m - length (out @ out1)) (drop (bodyPos e) (body e))))"
proof -
  have l: "head pr < length (queue pr)" using assms(1) by (cases "head pr < length (queue pr)") simp_all
  have e: "queue pr ! head pr = e" using Cons_nth_drop_Suc [OF l] assms(1) by simp
  have r: "bodyPos (e\<lparr>headerDone := True\<rparr>) = bodyPos e" "body (e\<lparr>headerDone := True\<rparr>) = body e" by simp_all
  show ?thesis
    by (cases "headerDone e")
      (simp_all only: read_loop.simps [of pr out m] l e Let_def if_True if_False out1_def simp_thms append_Nil2 append_assoc
        append_Nil r)
qed

lemma rest_advance:
  assumes "rest pr = e # q"
  shows "rest (pr\<lparr>queue := (queue pr)[head pr := e'], head := head pr + 1\<rparr>) = q"
proof -
  have "drop (Suc (head pr)) (queue pr) = q" using arg_cong [OF assms, of tl] by (simp add: tl_drop drop_Suc)
  then show ?thesis by simp
qed

lemma rest_update: "rest pr = e # q \<Longrightarrow> rest (pr\<lparr>queue := (queue pr)[head pr := e']\<rparr>) = e' # q"
  by (simp add: drop_update_swap)

lemma read_loop_round:
  assumes "rest pr = e # q" "read_loop pr out m = (pr', out')"
  obtains (held) "pr' = pr" "out' = out"
  | (whole) "read_loop (pr\<lparr>queue := (queue pr)[head pr := e\<lparr>headerDone := True\<rparr>], head := head pr + 1\<rparr>)
      (out @ (if headerDone e then [] else header e) @ drop (bodyPos e) (body e)) m = (pr', out')"
  | (torn) avail where "pr' = pr\<lparr>queue := (queue pr)[head pr := e\<lparr>headerDone := True, bodyPos := bodyPos e + avail\<rparr>]\<rparr>"
      "out' = out @ (if headerDone e then [] else header e) @ take avail (drop (bodyPos e) (body e))"
      "avail < length (body e) - bodyPos e"
proof -
  let ?o = "out @ (if headerDone e then [] else header e)"
  show thesis
  proof (cases "\<not> headerDone e \<and> length out > 0 \<and> length out + length (header e) > m")
    case True
    then show ?thesis using held assms(2) read_loop_cons [OF assms(1), of out m] by simp
  next
    case c1: False
    show ?thesis
    proof (cases "length (body e) - bodyPos e \<le> m - length ?o")
      case True
      show ?thesis by (rule whole) (use assms(2) read_loop_cons [OF assms(1), of out m] c1 True in \<open>simp only: if_False if_True\<close>)
    next
      case False
      have "(pr', out') = (pr\<lparr>queue := (queue pr)[head pr := e\<lparr>headerDone := True, bodyPos := bodyPos e + (m - length ?o)\<rparr>]\<rparr>,
         out @ (if headerDone e then [] else header e) @ take (m - length ?o) (drop (bodyPos e) (body e)))"
        using assms(2) read_loop_cons [OF assms(1), of out m] c1 False by (simp only: if_False)
      then show ?thesis using torn [of "m - length ?o"] False by (simp only: prod.inject not_le)
    qed
  qed
qed

lemma read_loop_sends:
  assumes "queue_ok (rest pr) es" "read_loop pr out m = (pr', out')"
  shows "\<exists>es1 es2 new. es = es1 @ es2 \<and> queue_ok (rest pr') es2 \<and> out' = out @ new
    \<and> sent_head (rest pr) @ new = concat (map snd es1) @ sent_head (rest pr')"
  using assms
proof (induction "rest pr" arbitrary: pr es out)
  case Nil
  then have "pr' = pr" "out' = out" using read_loop_nil [of pr out m] by auto
  then show ?case using Nil by (intro exI [of _ "[]"] exI [of _ es]) simp
next
  case (Cons e q)
  let ?o1 = "if headerDone e then [] else header e"
  note rl = read_loop_cons [OF Cons.hyps(2) [symmetric], of out m]
  obtain x es' where es: "es = x # es'" "stands_for e x" using Cons.prems(1) Cons.hyps(2) [symmetric]
    by (auto simp: queue_ok_def list_all2_Cons1)
  have tl: "queue_ok q es'" "sent_head q = []"
    using queue_ok_tl [of e q x es'] Cons.prems(1) Cons.hyps(2) [symmetric] es(1) by simp_all
  have sh: "sent_head (rest pr) = sent e" using Cons.hyps(2) [symmetric] by (simp add: sent_head_def)
  have hd: "fresh e \<or> headerDone e \<and> bodyPos e < length (body e)"
    using Cons.prems(1) Cons.hyps(2) [symmetric] by (simp add: queue_ok_def)
  from Cons.hyps(2) [symmetric] Cons.prems(2) show ?case
  proof (cases rule: read_loop_round)
    case held
    then show ?thesis using Cons.prems(1) by (intro exI [of _ "[]"] exI [of _ es]) simp
  next
    case whole
    let ?pr = "pr\<lparr>queue := (queue pr)[head pr := e\<lparr>headerDone := True\<rparr>], head := head pr + 1\<rparr>"
    have r: "rest ?pr = q" by (rule rest_advance [OF Cons.hyps(2) [symmetric]])
    have "queue_ok (rest ?pr) es'" unfolding r by (rule tl(1))
    from Cons.hyps(1) [OF r [symmetric] this whole] obtain es1 es2 new where
      n: "es' = es1 @ es2" "queue_ok (rest pr') es2" "out' = (out @ ?o1 @ drop (bodyPos e) (body e)) @ new"
      "sent_head (rest ?pr) @ new = concat (map snd es1) @ sent_head (rest pr')" by blast
    have new: "new = concat (map snd es1) @ sent_head (rest pr')" using n(4) unfolding r tl(2) by simp
    have "sent e @ ?o1 @ drop (bodyPos e) (body e) = snd x" using es(2) hd by (auto simp: sent_def stands_for_def fresh_def)
    then show ?thesis using n(1-3) new es(1) sh
      by (intro exI [of _ "x # es1"] exI [of _ es2] exI [of _ "?o1 @ drop (bodyPos e) (body e) @ new"]) auto
  next
    case (torn avail)
    let ?e = "e\<lparr>headerDone := True, bodyPos := bodyPos e + avail\<rparr>"
    have r: "rest pr' = ?e # q" using rest_update [OF Cons.hyps(2) [symmetric]] torn(1) by simp
    have "queue_ok (?e # q) es" using Cons.prems(1) Cons.hyps(2) [symmetric] torn(3)
      by (auto simp: queue_ok_def stands_for_def list_all2_Cons1)
    moreover have "sent e @ ?o1 @ take avail (drop (bodyPos e) (body e)) = sent_head (rest pr')"
      using hd unfolding r by (auto simp: sent_def sent_head_def fresh_def take_add)
    ultimately have "es = [] @ es \<and> queue_ok (rest pr') es \<and> out' = out @ ?o1 @ take avail (drop (bodyPos e) (body e))
      \<and> sent_head (rest pr) @ ?o1 @ take avail (drop (bodyPos e) (body e)) = concat (map snd []) @ sent_head (rest pr')"
      using r torn(2) sh by simp
    then show ?thesis by blast
  qed
qed

lemma ReadBuffer_sends:
  assumes "queue_ok (rest pr) es" "ReadBuffer pr m = (pr', c, fin)"
  shows "\<exists>es1 es2. es = es1 @ es2 \<and> queue_ok (rest pr') es2
    \<and> sent_head (rest pr) @ c = concat (map snd es1) @ sent_head (rest pr') \<and> fin = (rest pr' = [])"
proof -
  obtain pr1 where l: "read_loop pr [] m = (pr1, c)"
    and p: "pr' = (if rest pr1 = [] then pr1\<lparr>queue := [], head := 0\<rparr> else pr1)" "fin = (rest pr1 = [])"
    using assms(2) by (auto simp: ReadBuffer_def split: prod.splits if_splits)
  have "rest pr' = rest pr1" using p(1) by (auto split: if_splits)
  then show ?thesis using read_loop_sends [OF assms(1) l] p(2) by auto
qed

text \<open>A buffer of at least one byte makes progress.\<close>

lemma read_loop_grows: "read_loop pr out m = (pr', out') \<Longrightarrow> length out \<le> length out'"
proof (induction "rest pr" arbitrary: pr out)
  case Nil
  then show ?case using read_loop_nil [of pr out m] by simp
next
  case (Cons e q)
  from Cons.hyps(2) [symmetric] Cons.prems show ?case
  proof (cases rule: read_loop_round)
    case whole
    from Cons.hyps(1) [OF rest_advance [OF Cons.hyps(2) [symmetric], symmetric] whole] show ?thesis by simp
  qed auto
qed

lemma ReadBuffer_progress:
  assumes "queue_ok (rest pr) es" "rest pr \<noteq> []" "0 < m" "ReadBuffer pr m = (pr', c, fin)"
  shows "c \<noteq> []"
proof -
  obtain e q where r: "rest pr = e # q" using assms(2) by (cases "rest pr") auto
  have e: "header e \<noteq> []" "fresh e \<or> headerDone e \<and> bodyPos e < length (body e)"
    using assms(1) r by (auto simp: queue_ok_def stands_for_def list_all2_Cons1)
  obtain pr1 where l: "read_loop pr [] m = (pr1, c)"
    using assms(4) by (auto simp: ReadBuffer_def split: prod.splits if_splits)
  let ?o = "(if headerDone e then [] else header e) :: bytes"
  have rl: "read_loop pr [] m = (if length (body e) - bodyPos e \<le> m - length ?o
     then read_loop (pr\<lparr>queue := (queue pr)[head pr := e\<lparr>headerDone := True\<rparr>], head := head pr + 1\<rparr>) (?o @ drop (bodyPos e) (body e)) m
     else (pr\<lparr>queue := (queue pr)[head pr := e\<lparr>headerDone := True, bodyPos := bodyPos e + (m - length ?o)\<rparr>]\<rparr>,
       ?o @ take (m - length ?o) (drop (bodyPos e) (body e))))"
    using read_loop_cons [OF r, of "[]" m] by (simp only: list.size(3) less_irrefl simp_thms if_False append_Nil)
  show ?thesis
  proof (cases "length (body e) - bodyPos e \<le> m - length ?o")
    case True
    then have "length (?o @ drop (bodyPos e) (body e)) \<le> length c"
      using rl l read_loop_grows by (metis (no_types, lifting))
    then show ?thesis using e by (auto simp: fresh_def split: if_splits)
  next
    case False
    then have "c = ?o @ take (m - length ?o) (drop (bodyPos e) (body e))" using rl l by (simp only: if_False prod.inject)
    then show ?thesis using e assms(3) False by (auto simp: fresh_def split: if_splits)
  qed
qed

definition left :: "element list \<Rightarrow> nat" where
  "left q = sum_list (map (\<lambda>e. (if headerDone e then 0 else length (header e)) + (length (body e) - bodyPos e)) q)"

lemma left_fresh: "list_all2 stands_for q es \<Longrightarrow> \<forall>e\<in>set q. fresh e \<Longrightarrow> left q = length (concat (map snd es))"
  by (induction q es rule: list_all2_induct) (auto simp: left_def stands_for_def fresh_def dest: arg_cong [where f = length])

lemma left_sent: "queue_ok q es \<Longrightarrow> left q + length (sent_head q) = length (concat (map snd es))"
proof (cases q)
  case (Cons e q')
  assume ok: "queue_ok q es"
  obtain x es' where es: "es = x # es'" "stands_for e x" "list_all2 stands_for q' es'"
    using ok Cons by (auto simp: queue_ok_def list_all2_Cons1)
  have "left q' = length (concat (map snd es'))" using left_fresh [OF es(3)] ok Cons by (simp add: queue_ok_def)
  moreover have "left q = left [e] + left q'" using Cons by (simp add: left_def)
  moreover have "left [e] + length (sent e) = length (snd x)"
    using es(2) ok Cons by (auto simp: left_def sent_def stands_for_def queue_ok_def fresh_def dest: arg_cong [where f = length])
  ultimately show ?thesis using es(1) Cons by (simp add: sent_head_def)
qed (auto simp: queue_ok_def left_def sent_head_def)

lemma PendingLen_left: "PendingLen pr = left (rest pr)"
  by (simp add: PendingLen_def left_def)

lemma left_zero: "queue_ok q es \<Longrightarrow> left q = 0 \<Longrightarrow> q = []"
  by (cases q) (auto simp: queue_ok_def left_def stands_for_def fresh_def list_all2_Cons1 split: if_splits)

section \<open>Transfer\<close>

text \<open>A sender that serves buffers of the sizes \<open>ms\<close>.\<close>

fun serve :: "producer \<Rightarrow> nat list \<Rightarrow> bytes list \<times> producer" where
  "serve pr [] = ([], pr)"
| "serve pr (m # ms) =
     (case ReadBuffer pr m of (pr, c, _) \<Rightarrow> case serve pr ms of (cs, pr) \<Rightarrow> (c # cs, pr))"

lemma queue_stream: "list_all2 stands_for q es \<Longrightarrow> stream_ok es"
  by (induction q es rule: list_all2_induct) (auto simp: stream_ok_def stands_for_def)

lemma transfer_prefix:
  assumes "queue_ok (rest pr) es" "serve pr ms = (cs, pr')"
    "unread_bytes ps = sent_head (rest pr)" "ppos ps \<le> length (buf ps)"
  shows "\<exists>es1 es2 ps'. es = es1 @ es2 \<and> receive_all ps cs = Inr (map fst es1, ps')
    \<and> queue_ok (rest pr') es2 \<and> unread_bytes ps' = sent_head (rest pr')"
  using assms
proof (induction ms arbitrary: pr es ps cs)
  case Nil
  then have "es = [] @ es \<and> receive_all ps cs = Inr (map fst [], ps) \<and> queue_ok (rest pr') es \<and> unread_bytes ps = sent_head (rest pr')"
    by auto
  then show ?case by blast
next
  case (Cons m ms)
  obtain pr1 c fin where rb: "ReadBuffer pr m = (pr1, c, fin)" by (cases "ReadBuffer pr m")
  obtain cs' where cs: "cs = c # cs'" "serve pr1 ms = (cs', pr')" using Cons.prems(2) rb by (auto split: prod.splits)
  obtain es1 es2 where e: "es = es1 @ es2" "queue_ok (rest pr1) es2"
    "sent_head (rest pr) @ c = concat (map snd es1) @ sent_head (rest pr1)"
    using ReadBuffer_sends [OF Cons.prems(1) rb] by blast
  have "stream_ok es1" using queue_stream [of "rest pr" es] Cons.prems(1) e(1) by (auto simp: queue_ok_def stream_ok_def)
  then obtain ps1 where r1: "receive ps c = Inr (map fst es1, ps1)" "unread_bytes ps1 = sent_head (rest pr1)"
    "ppos ps1 \<le> length (buf ps1)"
    using receive_stream [of es1 ps c "sent_head (rest pr1)"] e(3) Cons.prems(3,4) sent_short [OF e(2)] by auto
  from Cons.IH [OF e(2) cs(2) r1(2,3)] obtain es3 es4 ps' where
    "es2 = es3 @ es4" "receive_all ps1 cs' = Inr (map fst es3, ps')" "queue_ok (rest pr') es4" "unread_bytes ps' = sent_head (rest pr')"
    by blast
  then have "es = (es1 @ es3) @ es4 \<and> receive_all ps cs = Inr (map fst (es1 @ es3), ps')
      \<and> queue_ok (rest pr') es4 \<and> unread_bytes ps' = sent_head (rest pr')"
    using e(1) cs(1) r1(1) by simp
  then show ?case by blast
qed

lemma serve_progress:
  assumes "queue_ok (rest pr) es" "serve pr ms = (cs, pr')" "\<forall>m\<in>set ms. 0 < m" "PendingLen pr \<le> length ms"
  shows "rest pr' = []"
  using assms
proof (induction ms arbitrary: pr es cs)
  case Nil
  then show ?case using left_zero [of "rest pr" es] by (simp add: PendingLen_left)
next
  case (Cons m ms)
  obtain pr1 c fin where rb: "ReadBuffer pr m = (pr1, c, fin)" by (cases "ReadBuffer pr m")
  obtain cs' where cs: "serve pr1 ms = (cs', pr')" using Cons.prems(2) rb by (auto split: prod.splits)
  obtain es1 es2 where e: "es = es1 @ es2" "queue_ok (rest pr1) es2"
    "sent_head (rest pr) @ c = concat (map snd es1) @ sent_head (rest pr1)"
    using ReadBuffer_sends [OF Cons.prems(1) rb] by blast
  have "PendingLen pr = length c + PendingLen pr1"
    using left_sent [OF Cons.prems(1)] left_sent [OF e(2)] arg_cong [OF e(3), of length] e(1) by (simp add: PendingLen_left)
  moreover have "c \<noteq> [] \<or> rest pr = []" using ReadBuffer_progress [OF Cons.prems(1) _ _ rb] Cons.prems(3) by auto
  moreover have "PendingLen pr = 0" if "rest pr = []" using that by (simp add: PendingLen_left left_def)
  ultimately have "PendingLen pr1 \<le> length ms" using Cons.prems(4) by (cases c) auto
  then show ?case using Cons.IH [OF e(2) cs] Cons.prems(3) by simp
qed

text \<open>Writing a sequence of markers and properties; what the other side is to receive.\<close>

fun write_all :: "producer \<Rightarrow> item list \<Rightarrow> fx_error + producer" where
  "write_all pr [] = Inr pr"
| "write_all pr (Marker m # xs) = write_all (WriteMarker pr m) xs"
| "write_all pr (Prop p # xs) = bindr (WriteProp pr p) (\<lambda>pr. write_all pr xs)"

fun expected :: "item list \<Rightarrow> item list" where
  "expected [] = []"
| "expected (Marker m # xs) = Marker m # expected xs"
| "expected (Prop p # xs) = (if TagType (STag p) = PtSvrEID then expected xs else Prop (as_read p) # expected xs)"

fun item_ok :: "item \<Rightarrow> bool" where
  "item_ok (Marker m) = isMarker m"
| "item_ok (Prop p) = (TagType (STag p) = PtSvrEID \<or> prop_ok p)"

lemma marker_stands: "isMarker m \<Longrightarrow> stands_for \<lparr>header = le_bytes 4 m, body = [], headerDone = False, bodyPos = 0\<rparr> (Marker m, le_bytes 4 m)"
  by (simp add: stands_for_def exact_whole exact_marker)

lemma encodeProp_header: "encodeProp p = Inr (h, b) \<Longrightarrow> h \<noteq> []"
proof -
  assume e: "encodeProp p = Inr (h, b)"
  have w: "fxValueWriters t = Some wr \<Longrightarrow> wr h0 v = Inr (h, b) \<Longrightarrow> h0 \<noteq> [] \<Longrightarrow> h \<noteq> []" for t wr h0 v
    by (auto simp: fxValueWriters_def appendTearable_def split: if_splits fx_value.splits)
  have n: "appendName h0 n = Inr h1 \<Longrightarrow> h0 \<noteq> [] \<Longrightarrow> h1 \<noteq> []" for h0 n h1
    by (auto simp: appendName_def Let_def split: if_splits)
  show ?thesis using e unfolding encodeProp_def Let_def bindr_eq_Inr_iff
    by (auto simp: appendMV_def split: if_splits option.splits dest: w n)
qed

lemma prop_stands:
  assumes "encodeProp p = Inr (h, b)" "prop_ok p"
  shows "stands_for \<lparr>header = h, body = b, headerDone = False, bodyPos = 0\<rparr> (Prop (as_read p), h @ b)"
proof -
  have "decodeElement (h @ take k b) = Short" if k: "k < length b" for k
  proof -
    have x: "exact decodeElement (h @ b) (Prop (as_read p))" using element_roundtrip(2) [OF assms] k by auto
    have "h @ b = (h @ take k b) @ drop k b" "drop k b \<noteq> []" using k by simp_all
    then show ?thesis using x unfolding exact_def by blast
  qed
  then show ?thesis using element_roundtrip(1) [OF assms] encodeProp_header [OF assms(1)] by (simp add: stands_for_def)
qed

lemma write_all_queue:
  assumes "write_all pr xs = Inr pr'" "list_all item_ok xs" "queue_ok (rest pr) es" "head pr = 0" "\<forall>e\<in>set (queue pr). fresh e"
  shows "\<exists>es'. queue_ok (rest pr') (es @ es') \<and> map fst es' = expected xs \<and> head pr' = 0 \<and> (\<forall>e\<in>set (queue pr'). fresh e)"
  using assms
proof (induction xs arbitrary: pr es)
  case Nil
  then show ?case by (intro exI [of _ "[]"]) auto
next
  case (Cons x xs)
  have app: "\<exists>es'. queue_ok (rest pr') (es @ es') \<and> map fst es' = i # expected xs \<and> head pr' = 0 \<and> (\<forall>e\<in>set (queue pr'). fresh e)"
    if st: "stands_for e (i, p)" and fr: "fresh e" and wr: "write_all (pr\<lparr>queue := queue pr @ [e]\<rparr>) xs = Inr pr'" for e i p
  proof -
    let ?pr = "pr\<lparr>queue := queue pr @ [e]\<rparr>"
    have "list_all2 stands_for (queue pr @ [e]) (es @ [(i, p)])"
      using st Cons.prems(3,4) by (intro list_all2_appendI) (auto simp: queue_ok_def)
    then have "queue_ok (rest ?pr) (es @ [(i, p)])"
      using fr Cons.prems(4,5) by (cases "queue pr") (auto simp: queue_ok_def)
    from Cons.IH [OF wr _ this] obtain es' where
      "queue_ok (rest pr') ((es @ [(i, p)]) @ es')" "map fst es' = expected xs" "head pr' = 0" "\<forall>e\<in>set (queue pr'). fresh e"
      using Cons.prems(2,4,5) fr by auto
    then show ?thesis by (intro exI [of _ "(i, p) # es'"]) simp
  qed
  show ?case
  proof (cases x)
    case (Marker m)
    then show ?thesis using app [OF marker_stands] Cons.prems(1,2) by (simp add: WriteMarker_def fresh_def)
  next
    case (Prop p)
    show ?thesis
    proof (cases "TagType (STag p) = PtSvrEID")
      case True
      then show ?thesis using Cons Prop by (simp add: WriteProp_def)
    next
      case False
      then obtain h b where "encodeProp p = Inr (h, b)"
        "write_all (pr\<lparr>queue := queue pr @ [\<lparr>header = h, body = b, headerDone = False, bodyPos = 0\<rparr>]\<rparr>) xs = Inr pr'"
        using Cons.prems(1) Prop by (auto simp: WriteProp_def)
      then show ?thesis using app [OF prop_stands] Cons.prems(2) Prop False by (simp add: fresh_def)
    qed
  qed
qed

section \<open>Properties\<close>

text \<open>
  C37. A stream of well-formed single-valued properties is received property by property and without an error
  however it is cut into chunks, in the middle of a primitive included: the parser returns each
  property as it went over the wire and is left with no unread byte. Well formed (\<open>prop_ok\<close>) means that the tag as
  written is neither a marker nor the four-byte given-set tag, a name of a named property holds only what its kind
  uses, texts that go out as UTF-16 are valid UTF-8 without NUL, GUIDs have eight bytes of \<^verbatim>\<open>Data4\<close>, and lengths fit
  32 bits.
\<close>

theorem parser_any_chunking:
  assumes "list_all (\<lambda>p. prop_ok p \<and> \<not> isMultivalue (wire_type p)) ps"
    "list_all2 (\<lambda>p enc. encodeProp p = Inr enc) ps encs"
    "concat chunks = concat (map (\<lambda>(h, b). h @ b) encs)"
  shows "\<exists>st. receive_all newParser chunks = Inr (map (\<lambda>p. Prop (as_read p)) ps, st) \<and> unread_bytes st = []"
proof -
  let ?es = "zip (map (\<lambda>p. Prop (as_read p)) ps) (map (\<lambda>(h, b). h @ b) encs)"
  have "exact_stream ?es"
    unfolding exact_stream_def
  proof (clarsimp simp: set_zip)
    fix i assume i: "i < length ps" "i < length encs"
    obtain h b where e: "encs ! i = (h, b)" by (cases "encs ! i")
    have "encodeProp (ps ! i) = Inr (h, b)" using list_all2_nthD [OF assms(2) i(1)] e by simp
    moreover have "prop_ok (ps ! i)" "\<not> isMultivalue (wire_type (ps ! i))"
      using assms(1) i by (simp_all add: list_all_length)
    ultimately show "exact decodeElement (case encs ! i of (h, b) \<Rightarrow> h @ b) (Prop (as_read (ps ! i)))"
      using element_roundtrip(2) e by auto
  qed
  from receive_all_exact [OF this, of newParser chunks] assms(3) list_all2_lengthD [OF assms(2)] show ?thesis
    by (simp add: newParser_def unread_bytes_def)
qed

lemmas demo_simps = prop_ok_def as_read_def wire_type_def val_ok_def text_ok_def isMarker_def markerSet_def
  fxWireType_def isMultivalue_def TagID_def TagType_def MakeTag_def encodeProp_def fxValueWriters_def appendTearable_def
  encodeUTF16_def mvWriters_def appendMV_def appendMVElems_def decode_rune.simps valid_utf8_def utf8_encode_def encode_rune_def scalar_def replicate_numeral_Cons byte_eval

definition demo_props :: "stream_prop list" where
  "demo_props =
     [\<lparr>STag = 0x00170003, SName = None, SValue = VLong 1\<rparr>, \<lparr>STag = 0x0037001F, SName = None, SValue = VString [0x68, 0x69]\<rparr>]"

definition demo_encs :: "(bytes \<times> bytes) list" where
  "demo_encs =
     [([3, 0, 0x17, 0, 1, 0, 0, 0], []), ([0x1F, 0, 0x37, 0, 6, 0, 0, 0], [0x68, 0, 0x69, 0, 0, 0])]"

theorem parser_any_chunking_witness:
  "\<exists>st. receive_all newParser [[3, 0, 0x17], [0, 1, 0, 0, 0, 0x1F], [0, 0x37, 0, 6, 0, 0, 0, 0x68], [0, 0x69, 0, 0, 0]]
     = Inr (map (\<lambda>p. Prop (as_read p)) demo_props, st) \<and> unread_bytes st = []"
proof (rule parser_any_chunking)
  show "list_all (\<lambda>p. prop_ok p \<and> \<not> isMultivalue (wire_type p)) demo_props" by (simp add: demo_props_def demo_simps)
  show "list_all2 (\<lambda>p enc. encodeProp p = Inr enc) demo_props demo_encs" by (simp add: demo_props_def demo_encs_def demo_simps)
  show "concat [[3, 0, 0x17], [0, 1, 0, 0, 0, 0x1F], [0, 0x37, 0, 6, 0, 0, 0, 0x68], [0, 0x69, 0, 0, 0]]
    = concat (map (\<lambda>(h, b). h @ b) demo_encs)" by code_simp
qed

text \<open>
  C17. The transfer is complete: whatever well-formed items were written to a fresh producer, markers and properties of
  any supported type, arrive on the other side in order when they are served in enough buffers of
  any positive sizes and fed to a parser buffer by buffer. Multivalues are never cut, the other
  variable-length values may be; server-id properties are left out by the writer. Well formed (\<open>item_ok\<close>) means that a
  marker is one of the protocol's, that the tag of a property as written is neither a marker nor the four-byte given-set tag, that a
  name holds only what its kind uses, that texts that go out as UTF-16 are valid UTF-8 without NUL, that GUIDs have eight bytes of
  \<^verbatim>\<open>Data4\<close>, that lengths fit 32 bits and that a multivalue has at most 1048576 elements, the parser's limit.
\<close>

theorem transfer_complete:
  assumes "list_all item_ok xs" "write_all newProducer xs = Inr pr" "\<forall>m\<in>set ms. 0 < m"
    "PendingLen pr \<le> length ms" "serve pr ms = (chunks, pr')"
  shows "\<exists>st. receive_all newParser chunks = Inr (expected xs, st) \<and> unread_bytes st = [] \<and> \<not> Pending pr'"
proof -
  obtain es where es: "queue_ok (rest pr) es" "map fst es = expected xs" "head pr = 0" "\<forall>e\<in>set (queue pr). fresh e"
    using write_all_queue [OF assms(2,1), of "[]"] by (auto simp: newProducer_def queue_ok_def)
  have "sent_head (rest pr) = []" using es(3,4) by (cases "queue pr") (auto simp: sent_head_def sent_def fresh_def)
  then obtain es1 es2 st where t: "es = es1 @ es2" "receive_all newParser chunks = Inr (map fst es1, st)"
    "queue_ok (rest pr') es2" "unread_bytes st = sent_head (rest pr')"
    using transfer_prefix [OF es(1) assms(5), of newParser] by (auto simp: newParser_def unread_bytes_def)
  have r: "rest pr' = []" by (rule serve_progress [OF es(1) assms(5,3,4)])
  then have "es2 = []" using t(3) by (simp add: queue_ok_def)
  then show ?thesis using t es(2) r by (auto simp: sent_head_def Pending_def)
qed

definition demo_items :: "item list" where
  "demo_items = [Marker 0x40030003, Prop \<lparr>STag = 0x0037001F, SName = None, SValue = VString [0x68, 0x69]\<rparr>,
     Prop \<lparr>STag = 0x0FFF00FB, SName = None, SValue = VOther\<rparr>, Prop \<lparr>STag = 0x3FF01003, SName = None, SValue = VMvLong [7]\<rparr>]"

definition demo_producer :: producer where
  "demo_producer = (case write_all newProducer demo_items of Inr pr \<Rightarrow> pr | Inl _ \<Rightarrow> newProducer)"

lemma demo_written: "write_all newProducer demo_items = Inr \<lparr>queue =
    [\<lparr>header = [3, 0, 3, 0x40], body = [], headerDone = False, bodyPos = 0\<rparr>,
     \<lparr>header = [0x1F, 0, 0x37, 0, 6, 0, 0, 0], body = [0x68, 0, 0x69, 0, 0, 0], headerDone = False, bodyPos = 0\<rparr>,
     \<lparr>header = [3, 0x10, 0xF0, 0x3F, 1, 0, 0, 0, 7, 0, 0, 0], body = [], headerDone = False, bodyPos = 0\<rparr>], head = 0\<rparr>"
  "demo_producer = \<lparr>queue =
    [\<lparr>header = [3, 0, 3, 0x40], body = [], headerDone = False, bodyPos = 0\<rparr>,
     \<lparr>header = [0x1F, 0, 0x37, 0, 6, 0, 0, 0], body = [0x68, 0, 0x69, 0, 0, 0], headerDone = False, bodyPos = 0\<rparr>,
     \<lparr>header = [3, 0x10, 0xF0, 0x3F, 1, 0, 0, 0, 7, 0, 0, 0], body = [], headerDone = False, bodyPos = 0\<rparr>], head = 0\<rparr>"
  by (simp_all add: demo_items_def demo_producer_def newProducer_def WriteProp_def WriteMarker_def demo_simps)

theorem transfer_complete_witness:
  "\<exists>st. receive_all newParser (fst (serve demo_producer (replicate 30 5))) = Inr (expected demo_items, st)
     \<and> unread_bytes st = [] \<and> \<not> Pending (snd (serve demo_producer (replicate 30 5)))"
proof (rule transfer_complete)
  show "list_all item_ok demo_items" by (simp add: demo_items_def demo_simps)
  show "write_all newProducer demo_items = Inr demo_producer" by (simp add: demo_written)
  show "\<forall>m\<in>set (replicate 30 (5 :: nat)). 0 < m" by simp
  show "PendingLen demo_producer \<le> length (replicate 30 (5 :: nat))" by (simp add: demo_written PendingLen_def)
  show "serve demo_producer (replicate 30 5) = (fst (serve demo_producer (replicate 30 5)), snd (serve demo_producer (replicate 30 5)))"
    by simp
qed

section \<open>Two flaws of the element reader\<close>

definition mv_count :: "fx_value \<Rightarrow> nat" where
  "mv_count v = (case v of VMvShort xs \<Rightarrow> length xs | VMvLong xs \<Rightarrow> length xs | VMvInt64 xs \<Rightarrow> length xs | VMvTime xs \<Rightarrow> length xs
     | VMvFloat xs \<Rightarrow> length xs | VMvDouble xs \<Rightarrow> length xs | VMvGuid xs \<Rightarrow> length xs | VMvString xs \<Rightarrow> length xs
     | VMvBytes xs \<Rightarrow> length xs | _ \<Rightarrow> 0)"

lemma appendMVElems_parts:
  assumes "\<And>x. 2 \<le> length (w x)"
  shows "\<exists>elems. appendMVElems w xs = le_bytes 4 (of_nat (length xs) :: u32) @ elems \<and> length xs * 2 \<le> length elems"
  using elems_length [of xs w] assms by (auto simp: appendMVElems_def)

lemma mv_cut:
  assumes "mvWriters t = Some wr" "wr v = Some bs" "val_ok t v"
  shows "mv_count v \<le> 0x100000 \<and> (\<exists>elems. bs = le_bytes 4 (of_nat (mv_count v) :: u32) @ elems \<and> 2 * mv_count v \<le> length elems)
    \<and> (\<exists>rd. mvReaders t = Some rd \<and> (\<forall>c b. length b < 2 * unat c \<longrightarrow> rd c b = Bad (CountExceeds c (length b))))"
  by (rule mv_written [OF assms(1,2)])
    (use assms(3) lenPrefixed_long in \<open>auto simp: mv_count_def val_ok_def mvReaders_types decodeMVElems_def mult.commute Flat_def intro!: appendMVElems_parts\<close>)

lemma drain_bad: "decodeElement b = Bad e \<Longrightarrow> b \<noteq> [] \<Longrightarrow> receive newParser b = Inl e"
  by (cases "length b") (auto simp: receive_def Feed_def newParser_def Next_def Let_def)

text \<open>
  C38. The parser refuses a multivalue that is cut by a chunk boundary. For every well-formed unnamed property of a
  multivalue type whose encoding has the count \<open>n\<close>, feeding any part of the encoding that has the tag, the count and fewer
  than \<open>2 * n\<close> of the bytes behind them is answered with the error that the count exceeds the buffer, not with a request
  for more bytes, although the rest of the encoding would complete it.
\<close>

theorem torn_multivalue_rejected:
  assumes "prop_ok p" "isMultivalue (wire_type p)" "TagID (STag p) < 0x8000" "encodeProp p = Inr (h, bd)"
    "8 \<le> i" "i < 8 + 2 * mv_count (SValue p)"
  shows "receive newParser (take i h) = Inl (CountExceeds (of_nat (mv_count (SValue p))) (i - 8)) \<and> i < length h"
proof -
  let ?t = "wire_type p" and ?v = "SValue p" and ?g = "MakeTag (TagID (STag p)) (wire_type p)"
  let ?c = "of_nat (mv_count ?v) :: u32"
  have "fxValueWriters ?t = None" using writer_types(1) [of ?t] assms(2) by (cases "fxValueWriters ?t") auto
  then have "encodeProp p = bindr (appendMV (le_bytes 4 ?g) ?t ?v) (\<lambda>h. Inr (h, []))"
    using assms(2,3) by (simp add: encodeProp_def Let_def not_le [symmetric] flip: wire_type_def)
  then obtain wr bs where w: "mvWriters ?t = Some wr" "wr ?v = Some bs" "h = le_bytes 4 ?g @ bs"
    using assms(4) by (auto simp: appendMV_def bindr_eq_Inr_iff split: option.splits)
  obtain elems rd where m: "mv_count ?v \<le> 0x100000" "bs = le_bytes 4 ?c @ elems" "2 * mv_count ?v \<le> length elems"
      "mvReaders ?t = Some rd" "\<And>c b. length b < 2 * unat c \<Longrightarrow> rd c b = Bad (CountExceeds c (length b))"
    using mv_cut [OF w(1,2)] assms(1) by (auto simp: prop_ok_def)
  let ?b = "take (i - 8) elems"
  have n: "unat ?c = mv_count ?v" using m(1) by (intro unat_of_nat_less) simp
  have b: "length ?b = i - 8" "length ?b < 2 * unat ?c" "\<not> ?c > maxMVCount" using assms(5,6) m(1,3) n by (auto simp: word_less_nat_alt)
  have "fxValueReaders ?t = None" using w(1) mv_types [of ?t] by (auto simp: mvWriters_def split: if_splits)
  then have v: "decodeValue ?t (le_bytes 4 ?c @ ?b) = Bad (CountExceeds ?c (i - 8))"
    using assms(2) m(4) m(5) [OF b(2)] b(1,3) by (simp add: decodeValue_def decodeMV_def fxbind_def fx_u32_def)
  have g: "\<not> isMarker ?g" "?g \<noteq> metaTagIdsetGiven" "\<not> TagID ?g \<ge> 0x8000" "TagType ?g = ?t" "?t AND fxCodepageFlag = 0"
    using assms(1,3) writer_types(2) [OF w(1)] by (simp_all add: prop_ok_def as_read_def)
  then have "decodeElement (le_bytes 4 ?g @ le_bytes 4 ?c @ ?b) = Bad (CountExceeds ?c (i - 8))"
    using v by (simp add: decodeElement_def decode_prop_def fxbind_def fx_u32_def fxmap_def fxret_def Let_def)
  moreover have "take i h = le_bytes 4 ?g @ le_bytes 4 ?c @ ?b" "i < length h" using assms(5,6) m(3) w(3) m(2) by simp_all
  ultimately show ?thesis using drain_bad by simp
qed

theorem torn_multivalue_rejected_witness:
  "encodeProp \<lparr>STag = 0x3FF01003, SName = None, SValue = VMvLong [7]\<rparr> = Inr ([3, 0x10, 0xF0, 0x3F, 1, 0, 0, 0, 7, 0, 0, 0], [])
   \<and> receive newParser [3, 0x10, 0xF0, 0x3F, 1, 0, 0, 0] = Inl (CountExceeds 1 0)"
proof -
  let ?p = "\<lparr>STag = 0x3FF01003, SName = None, SValue = VMvLong [7]\<rparr>"
  have "encodeProp ?p = Inr ([3, 0x10, 0xF0, 0x3F, 1, 0, 0, 0, 7, 0, 0, 0], [])" "prop_ok ?p" "isMultivalue (wire_type ?p)"
    "TagID (STag ?p) < 0x8000" by (simp_all add: demo_simps)
  then show ?thesis using torn_multivalue_rejected [of ?p _ _ 8] by (simp add: mv_count_def)
qed

text \<open>A named property of an invalid kind is never rejected: whatever follows, the parser keeps asking for more.\<close>

lemma invalid_kind_stalls:
  assumes "TagID word \<ge> 0x8000" "\<not> isMarker word" "length g = 16" "kind \<notin> {MnidID, MnidString, KindNone}"
  shows "Next (Feed newParser (le_bytes 4 word @ g @ kind # bs)) = Inr None"
proof -
  have "decodeElement (le_bytes 4 word @ g @ kind # bs) = Short"
    using assms by (simp add: decodeElement_def fxbind_def fx_u32_def fx_u8_def fx_bytes_def fxmap_def decode_prop_def decodeName_def Let_def)
  then show ?thesis by (simp add: Next_def Feed_def newParser_def)
qed

end
