(* ===== verification/Lzxpress.thy ===== *)
theory Lzxpress
  imports Hx_Prelude "HOL-Library.Code_Target_Nat"
begin

text \<open>
  \<^verbatim>\<open>internal/lzxpress\<close>: the Plain LZ77 compression of MS-XCA carried by compressed ROP buffers. The
  decoder and the encoder are records of their cursors; the encoder writes into a buffer
  allocated in advance, where the indicator words and the shared length nibbles are patched
  after the fact. Lengths and metadata keep their 32-bit arithmetic; the hash table, a fixed
  array indexed by a masked 16-bit value, is a function of its index.
\<close>

unbundle bit_operations_syntax

datatype lz_error = ErrCorrupt

section \<open>Decompress\<close>

record lzDecoder =
  lz_in :: bytes
  inIdx :: nat
  indicator :: u32
  d_indBit :: nat
  d_nibbleIdx :: nat

definition have_bytes :: "lzDecoder \<Rightarrow> nat \<Rightarrow> bool" where
  "have_bytes d n \<longleftrightarrow> inIdx d + n \<le> length (lz_in d)"

definition bytes_at :: "bytes \<Rightarrow> nat \<Rightarrow> nat \<Rightarrow> bytes" where
  "bytes_at bs i n = take n (drop i bs)"

definition nextBit :: "lzDecoder \<Rightarrow> lz_error + (u32 \<times> bool \<times> lzDecoder)" where
  "nextBit d =
     bindr
       (if d_indBit d = 0 then
          (if \<not> have_bytes d 4 then Inl ErrCorrupt
           else
             (let d = d\<lparr>indicator := le_word (bytes_at (lz_in d) (inIdx d) 4), inIdx := inIdx d + 4\<rparr>
              in if inIdx d = length (lz_in d) then Inr (True, d) else Inr (False, d\<lparr>d_indBit := 32\<rparr>)))
        else Inr (False, d))
       (\<lambda>(fin, d).
          if fin then Inr (0, True, d)
          else
            (let d = d\<lparr>d_indBit := d_indBit d - 1\<rparr>
             in Inr (drop_bit (d_indBit d) (indicator d) AND 1, False, d)))"

definition d_literal :: "lzDecoder \<Rightarrow> bytes \<Rightarrow> nat \<Rightarrow> lz_error + (bytes \<times> lzDecoder)" where
  "d_literal d out outSize =
     (if \<not> have_bytes d 1 \<or> length out \<ge> outSize then Inl ErrCorrupt
      else Inr (out @ [lz_in d ! inIdx d], d\<lparr>inIdx := inIdx d + 1\<rparr>))"

definition lengthNibble :: "lzDecoder \<Rightarrow> lz_error + (u32 \<times> lzDecoder)" where
  "lengthNibble d =
     (if d_nibbleIdx d \<noteq> 0
      then Inr (ucast (drop_bit 4 (lz_in d ! d_nibbleIdx d)), d\<lparr>d_nibbleIdx := 0\<rparr>)
      else if \<not> have_bytes d 1 then Inl ErrCorrupt
      else Inr (ucast (lz_in d ! inIdx d AND 0x0F), d\<lparr>d_nibbleIdx := inIdx d, inIdx := inIdx d + 1\<rparr>))"

definition longLength :: "lzDecoder \<Rightarrow> lz_error + (u32 \<times> lzDecoder)" where
  "longLength d =
     (if \<not> have_bytes d 2 then Inl ErrCorrupt
      else
        (let len = le_word (bytes_at (lz_in d) (inIdx d) 2) :: u32;
             d = d\<lparr>inIdx := inIdx d + 2\<rparr>
         in bindr
              (if len = 0 then
                 (if \<not> have_bytes d 4 then Inl ErrCorrupt
                  else Inr (le_word (bytes_at (lz_in d) (inIdx d) 4), d\<lparr>inIdx := inIdx d + 4\<rparr>))
               else Inr (len, d))
              (\<lambda>(len, d). if len < 15 + 7 then Inl ErrCorrupt else Inr (len - (15 + 7), d))))"

definition extendedLength :: "lzDecoder \<Rightarrow> lz_error + (u32 \<times> lzDecoder)" where
  "extendedLength d =
     bindr (lengthNibble d) (\<lambda>(len, d).
       if len \<noteq> 15 then Inr (len, d)
       else if \<not> have_bytes d 1 then Inl ErrCorrupt
       else
         (let len = ucast (lz_in d ! inIdx d) :: u32;
              d = d\<lparr>inIdx := inIdx d + 1\<rparr>
          in bindr (if len = 255 then longLength d else Inr (len, d)) (\<lambda>(len, d). Inr (len + 15, d))))"

text \<open>The copy loop of \<^verbatim>\<open>backReference\<close>, \<open>n\<close> rounds to go.\<close>

fun copy_match :: "nat \<Rightarrow> nat \<Rightarrow> bytes \<Rightarrow> nat \<Rightarrow> lz_error + bytes" where
  "copy_match 0 off out outSize = Inr out"
| "copy_match (Suc n) off out outSize =
     (if off > length out \<or> length out \<ge> outSize then Inl ErrCorrupt
      else copy_match n off (out @ [out ! (length out - off)]) outSize)"

definition backReference :: "lzDecoder \<Rightarrow> bytes \<Rightarrow> nat \<Rightarrow> lz_error + (bytes \<times> lzDecoder)" where
  "backReference d out outSize =
     (if \<not> have_bytes d 2 then Inl ErrCorrupt
      else
        (let meta = le_word (bytes_at (lz_in d) (inIdx d) 2) :: u32;
             d = d\<lparr>inIdx := inIdx d + 2\<rparr>;
             off = unat (drop_bit 3 meta) + 1;
             len = meta AND 7
         in bindr (if len = 7 then bindr (extendedLength d) (\<lambda>(x, d). Inr (x + 7, d)) else Inr (len, d))
              (\<lambda>(len, d). bindr (copy_match (unat (len + 3)) off out outSize) (\<lambda>out. Inr (out, d)))))"

text \<open>Every round of the loop consumes input, which is why it ends.\<close>

lemma nextBit_input: "nextBit d = Inr (b, fin, d') \<Longrightarrow> lz_in d' = lz_in d \<and> inIdx d \<le> inIdx d'"
  by (auto simp: nextBit_def Let_def split: if_splits)

lemma lengthNibble_input: "lengthNibble d = Inr (x, d') \<Longrightarrow> lz_in d' = lz_in d \<and> inIdx d \<le> inIdx d'"
  by (auto simp: lengthNibble_def split: if_splits)

lemma longLength_input: "longLength d = Inr (x, d') \<Longrightarrow> lz_in d' = lz_in d \<and> inIdx d \<le> inIdx d'"
  by (auto simp: longLength_def Let_def split: if_splits)

lemma extendedLength_input: "extendedLength d = Inr (x, d') \<Longrightarrow> lz_in d' = lz_in d \<and> inIdx d \<le> inIdx d'"
  by (auto simp: extendedLength_def Let_def split: if_splits dest!: lengthNibble_input longLength_input)

lemma d_literal_input: "d_literal d out n = Inr (out', d') \<Longrightarrow> lz_in d' = lz_in d \<and> inIdx d < inIdx d'"
  by (auto simp: d_literal_def split: if_splits)

lemma backReference_input: "backReference d out n = Inr (out', d') \<Longrightarrow> lz_in d' = lz_in d \<and> inIdx d < inIdx d'"
  by (auto simp: backReference_def Let_def split: if_splits dest!: extendedLength_input)

function decompress_loop :: "lzDecoder \<Rightarrow> bytes \<Rightarrow> nat \<Rightarrow> lz_error + bytes" where
  "decompress_loop d out outSize =
     (case nextBit d of
        Inl e \<Rightarrow> Inl e
      | Inr (b, fin, d) \<Rightarrow>
          if fin then Inr out
          else
            (case (if b = 0 then d_literal d out outSize else backReference d out outSize) of
               Inl e \<Rightarrow> Inl e
             | Inr (out, d) \<Rightarrow>
                 if length out \<ge> outSize \<or> inIdx d \<ge> length (lz_in d) then Inr out
                 else decompress_loop d out outSize))"
  by pat_completeness auto
termination
  by (relation "measure (\<lambda>(d, out, n). length (lz_in d) - inIdx d)")
    (auto split: if_splits dest!: nextBit_input d_literal_input backReference_input)

declare decompress_loop.simps [simp del]

definition Decompress :: "bytes \<Rightarrow> nat \<Rightarrow> lz_error + bytes" where
  "Decompress input outSize =
     (if input = [] then Inr []
      else decompress_loop \<lparr>lz_in = input, inIdx = 0, indicator = 0, d_indBit = 0, d_nibbleIdx = 0\<rparr> [] outSize)"

section \<open>Compress\<close>

record lzEncoder =
  e_out :: bytes
  pos :: nat
  indic :: u32
  e_indBit :: nat
  indPos :: nat
  e_nibbleIdx :: nat

text \<open>Stores of consecutive bytes into the buffer (\<^verbatim>\<open>PutUint16\<close>, \<^verbatim>\<open>PutUint32\<close>, an indexed assignment).\<close>

fun put_bytes :: "bytes \<Rightarrow> nat \<Rightarrow> bytes \<Rightarrow> bytes" where
  "put_bytes out i [] = out"
| "put_bytes out i (b # bs) = put_bytes (out[i := b]) (Suc i) bs"

definition e_put :: "lzEncoder \<Rightarrow> bytes \<Rightarrow> lzEncoder" where
  "e_put e bs = e\<lparr>e_out := put_bytes (e_out e) (pos e) bs, pos := pos e + length bs\<rparr>"

definition reserveIndicator :: "lzEncoder \<Rightarrow> lzEncoder" where
  "reserveIndicator e = e_put e (le_bytes 4 (0 :: u32))"

definition pushBit :: "lzEncoder \<Rightarrow> u32 \<Rightarrow> lzEncoder" where
  "pushBit e b =
     (let e = e\<lparr>indic := push_bit 1 (indic e) OR b, e_indBit := e_indBit e + 1\<rparr>
      in if e_indBit e = 32
         then e\<lparr>e_out := put_bytes (e_out e) (indPos e) (le_bytes 4 (indic e)),
                e_indBit := 0, indPos := pos e, pos := pos e + 4\<rparr>
         else e)"

definition e_literal :: "lzEncoder \<Rightarrow> u8 \<Rightarrow> lzEncoder" where
  "e_literal e b = pushBit (e_put e [b]) 0"

definition writeNibble :: "lzEncoder \<Rightarrow> u8 \<Rightarrow> lzEncoder" where
  "writeNibble e v =
     (if e_nibbleIdx e = 0 then (e_put e [v])\<lparr>e_nibbleIdx := pos e\<rparr>
      else e\<lparr>e_out := (e_out e)[e_nibbleIdx e := (e_out e ! e_nibbleIdx e) OR push_bit 4 v], e_nibbleIdx := 0\<rparr>)"

definition writeLongLength :: "lzEncoder \<Rightarrow> u32 \<Rightarrow> lzEncoder" where
  "writeLongLength e v =
     (if v < 0x10000 then e_put e (le_bytes 2 v)
      else e_put (e_put e (le_bytes 2 (0 :: u32))) (le_bytes 4 v))"

definition writeLengthEscape :: "lzEncoder \<Rightarrow> u32 \<Rightarrow> lzEncoder" where
  "writeLengthEscape e matchLen =
     (let e = writeNibble e (ucast (min matchLen 15)) in
      if matchLen < 15 then e
      else
        (let matchLen = matchLen - 15;
             e = e_put e [ucast (min matchLen 255)]
         in if matchLen < 255 then e else writeLongLength e (matchLen + 7 + 15)))"

definition e_match :: "lzEncoder \<Rightarrow> u32 \<Rightarrow> u32 \<Rightarrow> lzEncoder" where
  "e_match e matchLen off =
     (let e = e_put e (le_bytes 2 (push_bit 3 off OR min matchLen 7));
          e = (if matchLen \<ge> 7 then writeLengthEscape e (matchLen - 7) else e)
      in pushBit e 1)"

definition flush :: "lzEncoder \<Rightarrow> bytes" where
  "flush e =
     (let w = (if e_indBit e \<noteq> 0 then push_bit (32 - e_indBit e) (indic e) else indic e);
          w = w OR drop_bit (e_indBit e) 0xFFFFFFFF
      in take (pos e) (put_bytes (e_out e) (indPos e) (le_bytes 4 w)))"

subsection \<open>The match search\<close>

type_synonym lz_hash = "u16 \<Rightarrow> u32"

abbreviation (input) hashMask :: u16 where "hashMask \<equiv> 0xFFF"
abbreviation (input) hashSearch :: nat where "hashSearch \<equiv> 5"
abbreviation (input) window :: u32 where "window \<equiv> 8192"

definition threeByteHash :: "bytes \<Rightarrow> u16" where
  "threeByteHash b =
     (let a = ucast (b ! 0);
          bb = ucast (b ! 1) XOR 0x2E;
          c = ucast (b ! 2) XOR 0x55;
          ca = c - a
      in (push_bit 8 (a + bb) XOR push_bit 5 ca XOR (c + bb) XOR (0x0CAB + a)) AND hashMask)"

text \<open>The two probing loops of \<^verbatim>\<open>storeMatch\<close>, from probe \<open>i\<close> with \<open>n\<close> probes to go.\<close>

fun store_probe :: "lz_hash \<Rightarrow> u16 \<Rightarrow> u32 \<Rightarrow> nat \<Rightarrow> nat \<Rightarrow> u16 option" where
  "store_probe hash h offset i 0 = None"
| "store_probe hash h offset i (Suc n) =
     (let h2 = (h + of_nat i) AND hashMask
      in if hash h2 \<ge> offset then Some h2 else store_probe hash h offset (Suc i) n)"

fun worst_probe :: "lz_hash \<Rightarrow> u16 \<Rightarrow> u32 \<Rightarrow> nat \<Rightarrow> nat \<Rightarrow> u16 \<Rightarrow> u32 \<Rightarrow> u16" where
  "worst_probe hash h offset i 0 worstH worstScore = worstH"
| "worst_probe hash h offset i (Suc n) worstH worstScore =
     (let h2 = (h + of_nat i) AND hashMask; score = offset - hash h2
      in if score > worstScore then worst_probe hash h offset (Suc i) n h2 score
         else worst_probe hash h offset (Suc i) n worstH worstScore)"

definition storeMatch :: "lz_hash \<Rightarrow> u16 \<Rightarrow> u32 \<Rightarrow> lz_hash" where
  "storeMatch hash h offset =
     (if hash h \<ge> offset then hash(h := offset)
      else (case store_probe hash h offset 1 (hashSearch - 1) of
              Some h2 \<Rightarrow> hash(h2 := offset)
            | None \<Rightarrow> hash(worst_probe hash h offset 1 (hashSearch - 1) h (offset - hash h) := offset)))"

function match_length :: "bytes \<Rightarrow> nat \<Rightarrow> nat \<Rightarrow> nat \<Rightarrow> nat \<Rightarrow> nat" where
  "match_length data here there maxLen l =
     (if l < maxLen \<and> data ! (here + l) = data ! (there + l) then match_length data here there maxLen (l + 1) else l)"
  by pat_completeness auto
termination by (relation "measure (\<lambda>(_, _, _, maxLen, l). maxLen - l)") auto

declare match_length.simps [simp del]

fun lookup_probe :: "lz_hash \<Rightarrow> u16 \<Rightarrow> bytes \<Rightarrow> u32 \<Rightarrow> nat \<Rightarrow> nat \<Rightarrow> nat \<Rightarrow> int \<Rightarrow> nat \<Rightarrow> int \<times> nat" where
  "lookup_probe hash h data offset maxLen i 0 best bestLen = (best, bestLen)"
| "lookup_probe hash h data offset maxLen i (Suc n) best bestLen =
     (let o' = hash ((h + of_nat i) AND hashMask); there = unat o' in
      if o' \<ge> offset then (best, bestLen)
      else if offset - o' > window then lookup_probe hash h data offset maxLen (Suc i) n best bestLen
      else if bestLen > 1000 \<and> data ! (there + bestLen - 1) \<noteq> data ! (nat best + bestLen - 1)
      then lookup_probe hash h data offset maxLen (Suc i) n best bestLen
      else
        (let l = match_length data (unat offset) there maxLen 0 in
         if l > 2 \<and> l > bestLen
         then lookup_probe hash h data offset maxLen (Suc i) n (int there) l
         else lookup_probe hash h data offset maxLen (Suc i) n best bestLen))"

definition lookupMatch :: "lz_hash \<Rightarrow> u16 \<Rightarrow> bytes \<Rightarrow> u32 \<Rightarrow> nat \<Rightarrow> int \<times> nat" where
  "lookupMatch hash h data offset maxLen = lookup_probe hash h data offset maxLen 0 hashSearch (-1) 0"

definition findMatch :: "lz_hash \<Rightarrow> bytes \<Rightarrow> nat \<Rightarrow> lz_hash \<times> int \<times> nat" where
  "findMatch hash data uPos =
     (let maxLen = min (length data - uPos) (0xFFFF + 3) in
      if maxLen < 3 then (hash, -1, 0)
      else
        (let h = threeByteHash (drop uPos data);
             offset = of_nat uPos
         in (storeMatch hash h offset, lookupMatch hash h data offset maxLen)))"

lemma lookup_probe_long:
  "lookup_probe hash h data offset maxLen i n best bestLen = (there, len) \<Longrightarrow>
     (best \<ge> 0 \<longrightarrow> bestLen \<ge> 3) \<Longrightarrow> there \<ge> 0 \<longrightarrow> len \<ge> 3"
  by (induction n arbitrary: i best bestLen) (auto simp: Let_def split: if_splits)

lemma findMatch_long: "findMatch hash data uPos = (hash', there, len) \<Longrightarrow> \<not> there < 0 \<Longrightarrow> len \<ge> 3"
  using lookup_probe_long [of hash "threeByteHash (drop uPos data)" data "of_nat uPos" _ 0 hashSearch "-1" 0 there len]
  by (auto simp: findMatch_def lookupMatch_def Let_def split: if_splits)

function compress_loop :: "lzEncoder \<Rightarrow> lz_hash \<Rightarrow> bytes \<Rightarrow> nat \<Rightarrow> lzEncoder" where
  "compress_loop e hash data uPos =
     (if uPos < length data then
        (case findMatch hash data uPos of (hash, there, mlen) \<Rightarrow>
           if there < 0 then compress_loop (e_literal e (data ! uPos)) hash data (uPos + 1)
           else compress_loop (e_match e (of_nat (mlen - 3)) (of_nat (uPos - nat there - 1))) hash data (uPos + mlen))
      else e)"
  by pat_completeness auto
termination
  by (relation "measure (\<lambda>(e, hash, data, uPos). length data - uPos)") (auto dest: findMatch_long [OF sym])

declare compress_loop.simps [simp del]

definition Compress :: "bytes \<Rightarrow> bytes" where
  "Compress data =
     (if data = [] then []
      else
        (let e = reserveIndicator
               \<lparr>e_out = replicate (length data * 2 + 64) 0, pos = 0, indic = 0, e_indBit = 0, indPos = 0, e_nibbleIdx = 0\<rparr>
         in flush (compress_loop e (\<lambda>_. 0xFFFFFFFF) data 0)))"

section \<open>The encoder's buffer\<close>

lemma length_put_bytes [simp]: "length (put_bytes out i bs) = length out"
  by (induction bs arbitrary: out i) simp_all

lemma put_bytes_nth:
  "i + length bs \<le> length out \<Longrightarrow>
     put_bytes out i bs ! j = (if i \<le> j \<and> j < i + length bs then bs ! (j - i) else out ! j)"
  by (induction bs arbitrary: out i) (auto simp: nth_list_update nth_Cons')

lemma bytes_at_put:
  assumes "i + length bs \<le> length out"
  shows "bytes_at (put_bytes out i bs) i (length bs) = bs"
  using assms by (intro nth_equalityI) (auto simp: bytes_at_def put_bytes_nth)

lemma bytes_at_eq:
  "i + n \<le> length F \<Longrightarrow> (\<And>j. j < n \<Longrightarrow> F ! (i + j) = bs ! j) \<Longrightarrow> length bs = n \<Longrightarrow> bytes_at F i n = bs"
  by (intro nth_equalityI) (auto simp: bytes_at_def)

lemma nibble_mask: "(0x0F :: u8) = mask 4"
  by (simp add: mask_eq_exp_minus_1)

lemma nibble_and: "unat (b :: u8) < 16 \<Longrightarrow> b AND 0x0F = b"
proof -
  assume "unat b < 16"
  then have "take_bit 4 b = b" by (simp add: word_unat_eq_iff unsigned_take_bit_eq take_bit_nat_eq_self)
  then show ?thesis by (simp add: take_bit_eq_mask mask_eq_exp_minus_1)
qed

text \<open>
  The buffer of an encoder state is well formed: the current indicator word lies below the
  cursor, the half-used nibble is a written byte outside it, and there is room for one more token
  (at most ten bytes) and an indicator word.
\<close>

definition lz_wf :: "lzEncoder \<Rightarrow> bool" where
  "lz_wf e \<longleftrightarrow> indPos e + 4 \<le> pos e \<and> e_indBit e < 32 \<and> pos e \<le> length (e_out e)
     \<and> (e_nibbleIdx e \<noteq> 0 \<longrightarrow> e_nibbleIdx e < pos e \<and> \<not> (indPos e \<le> e_nibbleIdx e \<and> e_nibbleIdx e < indPos e + 4)
          \<and> unat (e_out e ! e_nibbleIdx e) < 16)"

text \<open>
  What the finished stream \<open>F\<close> keeps of an encoder state: every byte below the cursor except the
  current indicator word and the high half of an open nibble; and in the indicator word, from the
  top, the bits pushed so far.
\<close>

definition ind_word :: "bytes \<Rightarrow> nat \<Rightarrow> u32" where
  "ind_word F i = le_word (bytes_at F i 4)"

definition kept_bytes :: "lzEncoder \<Rightarrow> bytes \<Rightarrow> bool" where
  "kept_bytes e F \<longleftrightarrow> pos e \<le> length F
     \<and> (\<forall>i<pos e. \<not> (indPos e \<le> i \<and> i < indPos e + 4) \<and> (e_nibbleIdx e = 0 \<or> i \<noteq> e_nibbleIdx e) \<longrightarrow> F ! i = e_out e ! i)
     \<and> (e_nibbleIdx e \<noteq> 0 \<longrightarrow> F ! e_nibbleIdx e AND 0x0F = e_out e ! e_nibbleIdx e)"

definition kept_bits :: "lzEncoder \<Rightarrow> bytes \<Rightarrow> bool" where
  "kept_bits e F \<longleftrightarrow> (\<forall>j<e_indBit e. bit (ind_word F (indPos e)) (31 - j) = bit (indic e) (e_indBit e - 1 - j))"

definition kept :: "lzEncoder \<Rightarrow> bytes \<Rightarrow> bool" where
  "kept e F \<longleftrightarrow> kept_bytes e F \<and> kept_bits e F"

lemma kept_nth:
  "kept e F \<Longrightarrow> i < pos e \<Longrightarrow> \<not> (indPos e \<le> i \<and> i < indPos e + 4) \<Longrightarrow> e_nibbleIdx e = 0 \<or> i \<noteq> e_nibbleIdx e \<Longrightarrow>
     F ! i = e_out e ! i"
  unfolding kept_def kept_bytes_def by blast

lemma kept_flush:
  assumes "lz_wf e"
  shows "kept e (flush e)"
proof -
  define w where "w = (if e_indBit e \<noteq> 0 then push_bit (32 - e_indBit e) (indic e) else indic e)
    OR drop_bit (e_indBit e) 0xFFFFFFFF"
  define F where "F = take (pos e) (put_bytes (e_out e) (indPos e) (le_bytes 4 w))"
  have b: "indPos e + 4 \<le> pos e" "pos e \<le> length (e_out e)" "e_indBit e < 32" using assms by (simp_all add: lz_wf_def)
  have len: "length F = pos e" using b by (simp add: F_def)
  have nth: "F ! i = (if indPos e \<le> i \<and> i < indPos e + 4 then le_bytes 4 w ! (i - indPos e) else e_out e ! i)"
    if "i < pos e" for i using that b by (simp add: F_def put_bytes_nth)
  have word: "ind_word F (indPos e) = w"
  proof -
    have "bytes_at F (indPos e) 4 = le_bytes 4 w" using b nth len by (intro bytes_at_eq) auto
    then show ?thesis by (simp add: ind_word_def)
  qed
  have ones: "(0xFFFFFFFF :: u32) = NOT 0" by simp
  have bits: "bit w (31 - j) = bit (indic e) (e_indBit e - 1 - j)" if "j < e_indBit e" for j
    using that b(3) unfolding w_def ones
    by (auto simp: bit_or_iff bit_push_bit_iff bit_drop_bit_eq bit_mask_iff not_le)
  have "flush e = F" by (simp add: flush_def F_def w_def Let_def)
  moreover have "F ! e_nibbleIdx e AND 0x0F = e_out e ! e_nibbleIdx e" if "e_nibbleIdx e \<noteq> 0"
  proof -
    have u: "unat (e_out e ! e_nibbleIdx e) < 16" "e_nibbleIdx e < pos e"
      "\<not> (indPos e \<le> e_nibbleIdx e \<and> e_nibbleIdx e < indPos e + 4)" using assms that by (auto simp: lz_wf_def)
    have "(e_out e ! e_nibbleIdx e) AND 0x0F = e_out e ! e_nibbleIdx e" using u(1) by (rule nibble_and)
    then show ?thesis using nth [OF u(2)] u(3) by simp
  qed
  ultimately show ?thesis using nth len word bits by (auto simp: kept_def kept_bytes_def kept_bits_def)
qed

lemma wf_put: "lz_wf e \<Longrightarrow> pos e + length bs \<le> length (e_out e) \<Longrightarrow> lz_wf (e_put e bs)"
  by (auto simp: lz_wf_def e_put_def put_bytes_nth)

lemma kept_put:
  assumes "lz_wf e" "pos e + length bs \<le> length (e_out e)" "kept (e_put e bs) F"
  shows "kept e F" "bytes_at F (pos e) (length bs) = bs" "pos e + length bs \<le> length F"
proof -
  have w: "indPos e + 4 \<le> pos e" "e_nibbleIdx e \<noteq> 0 \<Longrightarrow> e_nibbleIdx e < pos e" using assms(1) by (auto simp: lz_wf_def)
  show l: "pos e + length bs \<le> length F" using assms(3) by (simp add: kept_def kept_bytes_def e_put_def)
  show "kept e F" using assms(2,3) w unfolding kept_def kept_bytes_def kept_bits_def e_put_def
    by (auto simp: put_bytes_nth)
  have "F ! (pos e + j) = bs ! j" if "j < length bs" for j
  proof -
    have "e_nibbleIdx e = 0 \<or> pos e + j \<noteq> e_nibbleIdx e" using w(2) by (cases "e_nibbleIdx e = 0") auto
    then show ?thesis
      using kept_nth [OF assms(3), of "pos e + j"] assms(2) w(1) that by (auto simp: e_put_def put_bytes_nth)
  qed
  then show "bytes_at F (pos e) (length bs) = bs" using l by (intro bytes_at_eq) auto
qed

lemma bit_shift_in:
  assumes "b = 0 \<or> b = 1"
  shows "bit (push_bit 1 x OR b :: u32) k \<longleftrightarrow> k < 32 \<and> (if k = 0 then b = 1 else bit x (k - 1))"
  using assms unfolding bit_or_iff bit_push_bit_iff by (cases k) (auto simp: bit_1_iff)

lemma wf_pushBit: "lz_wf e \<Longrightarrow> pos e + 4 \<le> length (e_out e) \<Longrightarrow> lz_wf (pushBit e b)"
  by (auto simp: lz_wf_def pushBit_def Let_def put_bytes_nth)

lemma kept_pushBit:
  assumes wf: "lz_wf e" "pos e + 4 \<le> length (e_out e)" and b: "b = 0 \<or> b = 1" and k: "kept (pushBit e b) F"
  shows "kept e F \<and> bit (ind_word F (indPos e)) (31 - e_indBit e) = (b = 1)"
proof (cases "e_indBit e = 31")
  case False
  let ?w = "push_bit 1 (indic e) OR b"
  have e': "pushBit e b = e\<lparr>indic := ?w, e_indBit := e_indBit e + 1\<rparr>"
    using False by (simp add: pushBit_def Let_def)
  have kb: "kept_bytes e F" and ki: "kept_bits (pushBit e b) F"
    using k by (simp_all add: kept_def kept_bytes_def e')
  have bits: "bit (ind_word F (indPos e)) (31 - j) =
      (if e_indBit e = j then b = 1 else bit (indic e) (e_indBit e - 1 - j))" if "j \<le> e_indBit e" for j
  proof -
    have "bit (ind_word F (indPos e)) (31 - j) = bit ?w (e_indBit e - j)"
      using ki that unfolding kept_bits_def e' by simp
    then show ?thesis unfolding bit_shift_in [OF b] using that wf(1) by (auto simp: lz_wf_def)
  qed
  then have "kept_bits e F" by (simp add: kept_bits_def)
  then show ?thesis using kb bits [of "e_indBit e"] by (simp add: kept_def)
next
  case True
  let ?w = "push_bit 1 (indic e) OR b"
  have e': "pushBit e b = e\<lparr>indic := ?w, e_out := put_bytes (e_out e) (indPos e) (le_bytes 4 ?w),
      e_indBit := 0, indPos := pos e, pos := pos e + 4\<rparr>" using True by (simp add: pushBit_def Let_def)
  have w: "indPos e + 4 \<le> pos e" "e_nibbleIdx e \<noteq> 0 \<Longrightarrow> \<not> (indPos e \<le> e_nibbleIdx e \<and> e_nibbleIdx e < indPos e + 4)"
    using wf by (auto simp: lz_wf_def)
  have l: "pos e + 4 \<le> length F" using k by (simp add: kept_def kept_bytes_def e')
  have F: "F ! i = put_bytes (e_out e) (indPos e) (le_bytes 4 ?w) ! i"
    if "i < pos e" "e_nibbleIdx e = 0 \<or> i \<noteq> e_nibbleIdx e" for i using kept_nth [OF k, of i] that by (simp add: e')
  have "F ! (indPos e + j) = le_bytes 4 ?w ! j" if "j < 4" for j
  proof -
    have "e_nibbleIdx e = 0 \<or> indPos e + j \<noteq> e_nibbleIdx e" using w(2) that by (cases "e_nibbleIdx e = 0") auto
    then show ?thesis using F [of "indPos e + j"] w(1) wf(2) that by (simp add: put_bytes_nth)
  qed
  then have "bytes_at F (indPos e) 4 = le_bytes 4 ?w" using w(1) l by (intro bytes_at_eq) auto
  then have word: "ind_word F (indPos e) = ?w" by (simp add: ind_word_def)
  have "kept_bits e F"
    unfolding kept_bits_def word bit_shift_in [OF b] using True by auto
  moreover have "bit ?w 0 = (b = 1)" unfolding bit_shift_in [OF b] by simp
  moreover have "kept_bytes e F"
    using k w F l wf(2) by (auto simp: kept_def kept_bytes_def e' put_bytes_nth)
  ultimately show ?thesis using True word by (simp add: kept_def)
qed

lemma wf_nibble:
  "lz_wf e \<Longrightarrow> pos e + 1 \<le> length (e_out e) \<Longrightarrow> unat v < 16 \<Longrightarrow> lz_wf (writeNibble e v)"
  by (auto simp: lz_wf_def writeNibble_def e_put_def)

lemma nibble_or:
  assumes "unat (a :: u8) < 16" "unat v < 16"
  shows "(a OR push_bit 4 v) AND 0x0F = a" "drop_bit 4 (a OR push_bit 4 v) = v"
proof -
  have na: "\<not> bit a n" "\<not> bit v n" if "4 \<le> n" for n
    using nibble_and [OF assms(1)] nibble_and [OF assms(2)] that
    by (metis bit_and_iff bit_mask_iff mask_eq_exp_minus_1 not_less nibble_mask)+
  have lt: "bit a n \<Longrightarrow> n < 4" "bit v n \<Longrightarrow> n < 4" for n
    using na [of n] by (cases "n < 4", simp_all)+
  then show "(a OR push_bit 4 v) AND 0x0F = a"
    using na by (intro bit_eqI) (auto simp: nibble_mask bit_simps)
  show "drop_bit 4 (a OR push_bit 4 v) = v"
    using na lt by (intro bit_eqI) (auto simp: bit_simps)
qed

lemma kept_nibble:
  assumes "lz_wf e" "pos e + 1 \<le> length (e_out e)" "unat v < 16" "kept (writeNibble e v) F"
  shows "kept e F"
    and "e_nibbleIdx e = 0 \<Longrightarrow> pos e < length F \<and> F ! pos e AND 0x0F = v"
    and "e_nibbleIdx e \<noteq> 0 \<Longrightarrow> drop_bit 4 (F ! e_nibbleIdx e) = v"
proof -
  have w: "indPos e + 4 \<le> pos e" "e_nibbleIdx e \<noteq> 0 \<Longrightarrow> e_nibbleIdx e < pos e \<and>
      \<not> (indPos e \<le> e_nibbleIdx e \<and> e_nibbleIdx e < indPos e + 4) \<and> unat (e_out e ! e_nibbleIdx e) < 16"
    using assms(1) by (auto simp: lz_wf_def)
  show fresh: "pos e < length F \<and> F ! pos e AND 0x0F = v" if "e_nibbleIdx e = 0"
    using assms(2,4) that w(1) by (simp add: kept_def kept_bytes_def writeNibble_def e_put_def)
  have used: "F ! e_nibbleIdx e = (e_out e ! e_nibbleIdx e) OR push_bit 4 v" if "e_nibbleIdx e \<noteq> 0"
    using kept_nth [OF assms(4), of "e_nibbleIdx e"] assms(2) that w(2) [OF that] by (simp add: writeNibble_def)
  show "drop_bit 4 (F ! e_nibbleIdx e) = v" if "e_nibbleIdx e \<noteq> 0"
    unfolding used [OF that] using w(2) [OF that] assms(3) nibble_or(2) by blast
  show "kept e F"
  proof (cases "e_nibbleIdx e = 0")
    case True
    then show ?thesis using assms(2,4) w(1)
      by (auto simp: kept_def kept_bytes_def kept_bits_def writeNibble_def e_put_def nth_list_update)
  next
    case False
    have "F ! e_nibbleIdx e AND 0x0F = e_out e ! e_nibbleIdx e"
      unfolding used [OF False] using w(2) [OF False] assms(3) nibble_or(1) by blast
    then show ?thesis using False assms(2,4) w
      by (auto simp: kept_def kept_bytes_def kept_bits_def writeNibble_def)
  qed
qed

section \<open>The decoder follows the encoder\<close>

text \<open>
  The decoder in the middle of a token, before which the encoder was in state \<open>e\<close> XX, and
  between tokens (\<open>between\<close>): it loads an indicator word only when it needs a bit of it, the encoder
  reserves it as soon as the previous one is full.
\<close>

definition mid :: "bytes \<Rightarrow> lzEncoder \<Rightarrow> lzDecoder \<Rightarrow> bool" where
  "mid F e d \<longleftrightarrow> lz_in d = F \<and> inIdx d = pos e \<and> d_nibbleIdx d = e_nibbleIdx e
     \<and> d_indBit d = 31 - e_indBit e \<and> indicator d = ind_word F (indPos e)"

definition between :: "bytes \<Rightarrow> lzEncoder \<Rightarrow> lzDecoder \<Rightarrow> bool" where
  "between F e d \<longleftrightarrow> lz_in d = F \<and> d_nibbleIdx d = e_nibbleIdx e
     \<and> (if e_indBit e = 0 then d_indBit d = 0 \<and> inIdx d = indPos e \<and> pos e = indPos e + 4
        else d_indBit d = 32 - e_indBit e \<and> inIdx d = pos e \<and> indicator d = ind_word F (indPos e))"

lemma between_nextBit:
  assumes "lz_wf e" "between F e d" "pos e < length F"
  shows "\<exists>d'. nextBit d = Inr (drop_bit (31 - e_indBit e) (ind_word F (indPos e)) AND 1, False, d') \<and> mid F e d'"
  using assms
  by (auto simp: lz_wf_def between_def nextBit_def have_bytes_def mid_def ind_word_def Let_def split: if_splits)

lemma mid_pushBit:
  "lz_wf e \<Longrightarrow> mid F e d \<Longrightarrow> between F (pushBit e b) d"
  by (auto simp: lz_wf_def between_def mid_def pushBit_def Let_def)

lemma mid_put:
  "lz_wf e \<Longrightarrow> mid F e d \<Longrightarrow> mid F (e_put e bs) (d\<lparr>inIdx := inIdx d + length bs\<rparr>)"
  by (simp add: mid_def e_put_def)

lemma low_bit: "bit (w :: u32) k = (b = 1) \<Longrightarrow> b = 0 \<or> b = 1 \<Longrightarrow> drop_bit k w AND 1 = b"
  by (auto simp: and_one_eq mod_2_eq_odd simp flip: bit_iff_odd_drop_bit)

subsection \<open>Length escapes\<close>

lemma bytes_at_Suc0: "i < length F \<Longrightarrow> bytes_at F i (Suc 0) = [F ! i]"
  by (simp add: bytes_at_def take_Suc_conv_app_nth)

lemma nibble_cap: "length (e_out (writeNibble e v)) = length (e_out e) \<and> pos (writeNibble e v) \<le> pos e + 1"
  by (simp add: writeNibble_def e_put_def)

lemma longLength_cap:
  "length (e_out (writeLongLength e v)) = length (e_out e) \<and> pos (writeLongLength e v) \<le> pos e + (if v < 0x10000 then 2 else 6)"
  by (simp add: writeLongLength_def e_put_def)

lemma put_cap: "length (e_out (e_put e bs)) = length (e_out e) \<and> pos (e_put e bs) = pos e + length bs"
  by (simp add: e_put_def)

lemma mid_nibble:
  assumes "lz_wf e" "pos e + 1 \<le> length (e_out e)" "unat v < 16" "kept (writeNibble e v) F" "mid F e d"
  shows "\<exists>d'. lengthNibble d = Inr (ucast v, d') \<and> mid F (writeNibble e v) d'"
  using kept_nibble(2,3) [OF assms(1-4)] assms(1,5)
  by (cases "e_nibbleIdx e = 0")
    (auto simp: lengthNibble_def mid_def writeNibble_def e_put_def have_bytes_def lz_wf_def)

lemma le_word_small: "(v :: u32) < 0x10000 \<Longrightarrow> le_word (le_bytes 2 v) = v"
proof -
  assume "v < 0x10000"
  then have "unat v < 65536" by (simp add: word_less_nat_alt)
  then have "take_bit 16 v = v" by (simp add: word_unat_eq_iff unsigned_take_bit_eq take_bit_nat_eq_self)
  then show ?thesis by (simp add: le_word_le_bytes_take)
qed

text \<open>Room for the six bytes of the longest form.\<close>

lemma kept_longLength:
  assumes "lz_wf e" "pos e + 6 \<le> length (e_out e)" "kept (writeLongLength e v) F"
  shows "kept e F"
proof (cases "v < 0x10000")
  case True
  then show ?thesis using assms kept_put(1) [of e "le_bytes 2 v"] by (simp add: writeLongLength_def)
next
  case False
  let ?e = "e_put e (le_bytes 2 (0 :: u32))"
  have wf: "lz_wf ?e" using assms(1,2) by (intro wf_put) auto
  have "kept ?e F" using assms(2,3) False kept_put(1) [OF wf, of "le_bytes 4 v"]
    by (simp add: writeLongLength_def put_cap)
  then show ?thesis using assms(1,2) kept_put(1) [of e "le_bytes 2 (0 :: u32)"] by simp
qed

lemma mid_longLength:
  assumes "lz_wf e" "pos e + 6 \<le> length (e_out e)" "22 \<le> v" "kept (writeLongLength e v) F" "mid F e d"
  shows "kept e F \<and> (\<exists>d'. longLength d = Inr (v - 22, d') \<and> mid F (writeLongLength e v) d')"
proof (cases "v < 0x10000")
  case True
  have k: "kept (e_put e (le_bytes 2 v)) F" using assms(4) True by (simp add: writeLongLength_def)
  have r: "bytes_at F (pos e) 2 = le_bytes 2 v" "pos e + 2 \<le> length F" "kept e F"
    using kept_put [OF assms(1) _ k] assms(2) by auto
  have "v \<noteq> 0" using assms(3) by auto
  then have "longLength d = Inr (v - 22, d\<lparr>inIdx := inIdx d + length (le_bytes 2 v)\<rparr>)"
    using assms(3,5) r True by (simp add: longLength_def mid_def have_bytes_def le_word_small not_less)
  then show ?thesis using mid_put [OF assms(1,5), of "le_bytes 2 v"] r(3) True by (simp add: writeLongLength_def)
next
  case False
  let ?e = "e_put e (le_bytes 2 (0 :: u32))"
  have k: "kept (e_put ?e (le_bytes 4 v)) F" using assms(4) False by (simp add: writeLongLength_def)
  have wf: "lz_wf ?e" using assms(1,2) by (intro wf_put) auto
  have p: "pos ?e = pos e + 2" "length (e_out ?e) = length (e_out e)" by (simp_all add: e_put_def)
  have r2: "bytes_at F (pos e + 2) 4 = le_bytes 4 v" "pos e + 6 \<le> length F" "kept ?e F"
    using kept_put [OF wf _ k] assms(2) p by auto
  have r1: "bytes_at F (pos e) 2 = replicate 2 0" "kept e F"
    using kept_put [OF assms(1) _ r2(3)] assms(2) by auto
  have "longLength d = Inr (v - 22, d\<lparr>inIdx := inIdx d + 6\<rparr>)"
    using assms(3,5) r1 r2 by (simp add: longLength_def mid_def have_bytes_def not_less)
  moreover have "mid F (e_put ?e (le_bytes 4 v)) (d\<lparr>inIdx := inIdx d + 6\<rparr>)"
    using mid_put [OF wf mid_put [OF assms(1,5), of "le_bytes 2 (0 :: u32)"], of "le_bytes 4 v"]
    by (simp add: add.commute)
  ultimately show ?thesis using r1(2) False by (simp add: writeLongLength_def)
qed

lemma wf_longLength: "lz_wf e \<Longrightarrow> pos e + 6 \<le> length (e_out e) \<Longrightarrow> lz_wf (writeLongLength e v)"
  by (auto simp: writeLongLength_def intro!: wf_put) (simp add: e_put_def)

lemma ucast_min:
  assumes "k \<le> 255"
  shows "ucast (ucast (min (m :: u32) k) :: u8) = min m k" "unat (ucast (min m k) :: u8) = unat (min m k)"
proof -
  have "unat (min m k) < 256" using assms unfolding word_le_nat_alt by (simp add: min_def word_le_nat_alt)
  then show u: "unat (ucast (min m k) :: u8) = unat (min m k)"
    by (simp add: unsigned_ucast_eq unsigned_take_bit_eq take_bit_nat_eq_self)
  show "ucast (ucast (min m k) :: u8) = min m k"
  proof (rule iffD2 [OF word_unat_eq_iff])
    have "take_bit 8 (min m k) = min m k"
      using \<open>unat (min m k) < 256\<close> by (simp add: word_unat_eq_iff unsigned_take_bit_eq take_bit_nat_eq_self)
    then show "unat (ucast (ucast (min m k) :: u8) :: u32) = unat (min m k)"
      by (simp add: unsigned_ucast_eq)
  qed
qed

lemma escape_nibble: "unat (ucast (min (m :: u32) 15) :: u8) < 16" "ucast (ucast (min m 15) :: u8) = min m 15"
  using ucast_min [of 15 m] by (simp_all add: min_def word_le_nat_alt word_less_nat_alt)

text \<open>The states the escape goes through: after the nibble, and after the byte that follows a full nibble.\<close>

abbreviation (input) after_nibble :: "lzEncoder \<Rightarrow> u32 \<Rightarrow> lzEncoder" where
  "after_nibble e m \<equiv> writeNibble e (ucast (min m 15))"

abbreviation (input) after_byte :: "lzEncoder \<Rightarrow> u32 \<Rightarrow> lzEncoder" where
  "after_byte e m \<equiv> e_put (after_nibble e m) [ucast (min (m - 15) 255)]"

lemma writeLengthEscape_cases:
  "writeLengthEscape e m = (if m < 15 then after_nibble e m else if m - 15 < 255 then after_byte e m
     else writeLongLength (after_byte e m) (m - 15 + 7 + 15))"
  by (simp add: writeLengthEscape_def Let_def)

lemma escape_room:
  assumes "lz_wf e" "pos e + 8 \<le> length (e_out e)"
  shows "lz_wf (after_nibble e m)" "pos (after_nibble e m) + 7 \<le> length (e_out (after_nibble e m))"
    "lz_wf (after_byte e m)" "pos (after_byte e m) + 6 \<le> length (e_out (after_byte e m))"
proof -
  show n: "lz_wf (after_nibble e m)" using assms escape_nibble by (intro wf_nibble) auto
  show r: "pos (after_nibble e m) + 7 \<le> length (e_out (after_nibble e m))"
    using nibble_cap [of e "ucast (min m 15)"] assms(2) by simp
  show "lz_wf (after_byte e m)" using n r by (intro wf_put) auto
  show "pos (after_byte e m) + 6 \<le> length (e_out (after_byte e m))"
    using put_cap [of "after_nibble e m" "[ucast (min (m - 15) 255)]"] r by simp
qed

lemma kept_after_byte:
  assumes "lz_wf e" "pos e + 8 \<le> length (e_out e)" "kept (after_byte e m) F"
  shows "kept (after_nibble e m) F" "pos (after_nibble e m) < length F"
    "F ! pos (after_nibble e m) = ucast (min (m - 15) 255)"
  using kept_put [OF escape_room(1) [OF assms(1,2)] _ assms(3)] escape_room(2) [OF assms(1,2), of m]
  by (auto simp: bytes_at_Suc0)

lemma kept_lengthEscape:
  assumes wf: "lz_wf e" "pos e + 8 \<le> length (e_out e)" and k: "kept (writeLengthEscape e m) F"
  shows "kept (after_nibble e m) F \<and> (\<not> m < 15 \<longrightarrow> kept (after_byte e m) F) \<and> kept e F"
proof -
  have "kept (after_byte e m) F" if "\<not> m < 15"
    using k that kept_longLength [OF escape_room(3,4) [OF wf, of m]]
    by (auto simp: writeLengthEscape_cases split: if_splits)
  moreover from this have "kept (after_nibble e m) F"
    using k kept_after_byte(1) [OF wf, of m F] by (cases "m < 15") (auto simp: writeLengthEscape_cases)
  ultimately show ?thesis using kept_nibble(1) [OF wf(1) _ escape_nibble(1), of m F] wf(2) by auto
qed

lemma mid_lengthByte:
  assumes wf: "lz_wf e" "pos e + 8 \<le> length (e_out e)" and k: "kept (after_byte e m) F"
    and d: "mid F e d" and m: "\<not> m < 15"
  shows "\<exists>d'. mid F (after_byte e m) d' \<and> extendedLength d =
    bindr (if min (m - 15) 255 = 255 then longLength d' else Inr (min (m - 15) 255, d')) (\<lambda>(len, d). Inr (len + 15, d))"
proof -
  have m15: "min m 15 = 15" using m by (intro min_absorb2) simp
  from mid_nibble [OF wf(1) _ escape_nibble(1) kept_after_byte(1) [OF wf k] d] wf(2) escape_nibble(2) [of m]
  obtain d1 where d1: "lengthNibble d = Inr (15, d1)" "mid F (after_nibble e m) d1" unfolding m15 by auto
  let ?d = "d1\<lparr>inIdx := inIdx d1 + 1\<rparr>"
  have "extendedLength d = bindr (if min (m - 15) 255 = 255 then longLength ?d else Inr (min (m - 15) 255, ?d))
      (\<lambda>(len, d). Inr (len + 15, d))"
    using d1 kept_after_byte(2,3) [OF wf k] ucast_min(1) [of 255 "m - 15"]
    by (simp add: extendedLength_def mid_def have_bytes_def Let_def)
  moreover have "mid F (after_byte e m) ?d"
    using mid_put [OF escape_room(1) [OF wf] d1(2), of "[ucast (min (m - 15) 255)]"] by simp
  ultimately show ?thesis by blast
qed

lemma mid_lengthEscape:
  assumes wf: "lz_wf e" "pos e + 8 \<le> length (e_out e)" and m: "m < 0xFFFFFF00"
    and k: "kept (writeLengthEscape e m) F" and d: "mid F e d"
  shows "\<exists>d'. extendedLength d = Inr (m, d') \<and> mid F (writeLengthEscape e m) d'"
proof (cases "m < 15")
  case True
  then have "min m 15 = m" by (intro min_absorb1) simp
  then show ?thesis
    using mid_nibble [OF wf(1) _ escape_nibble(1), of m F d] kept_lengthEscape [OF wf k] wf(2) d True
      escape_nibble(2) [of m]
    by (auto simp: extendedLength_def writeLengthEscape_cases)
next
  case False
  have kb: "kept (after_byte e m) F" using kept_lengthEscape [OF wf k] False by simp
  note dec = mid_lengthByte [OF wf kb d False]
  show ?thesis
  proof (cases "m - 15 < 255")
    case True
    then have "min (m - 15) 255 = m - 15" "m - 15 \<noteq> 255" by (auto intro!: min_absorb1)
    then show ?thesis using dec True False by (auto simp: writeLengthEscape_cases)
  next
    case long: False
    then have m255: "min (m - 15) 255 = 255" by (intro min_absorb2) simp
    have v22: "22 \<le> m - 15 + 7 + 15" using m long False unfolding word_le_nat_alt word_less_nat_alt
      by (simp add: unat_sub word_le_nat_alt unat_word_ariths)
    have k3: "kept (writeLongLength (after_byte e m) (m - 15 + 7 + 15)) F"
      using k long False by (simp add: writeLengthEscape_cases)
    from dec obtain d2 where d2: "mid F (after_byte e m) d2"
      "extendedLength d = bindr (longLength d2) (\<lambda>(len, d). Inr (len + 15, d))" unfolding m255 by auto
    have "m - 15 + 7 + 15 - 22 + 15 = m" by simp
    then show ?thesis using mid_longLength [OF escape_room(3,4) [OF wf] v22 k3 d2(1)] d2(2) long False
      by (auto simp: writeLengthEscape_cases)
  qed
qed

subsection \<open>Tokens\<close>

lemma lengthEscape_room:
  assumes "lz_wf e" "pos e + 8 \<le> length (e_out e)"
  shows "lz_wf (writeLengthEscape e m)"
    "length (e_out (writeLengthEscape e m)) = length (e_out e)"
    "pos (writeLengthEscape e m) \<le> pos e + (if m < 15 then 1 else if m - 15 < 255 then 2 else 8)"
  using escape_room [OF assms, of m] nibble_cap [of e "ucast (min m 15)"]
    put_cap [of "after_nibble e m" "[ucast (min (m - 15) 255)]"]
    longLength_cap [of "after_byte e m" "m - 15 + 7 + 15"] wf_longLength [of "after_byte e m" "m - 15 + 7 + 15"]
  by (auto simp: writeLengthEscape_cases split: if_splits)

lemma same_word:
  "indPos (e_put e bs) = indPos e" "e_indBit (e_put e bs) = e_indBit e"
  "indPos (writeNibble e v) = indPos e" "e_indBit (writeNibble e v) = e_indBit e"
  "indPos (writeLongLength e w) = indPos e" "e_indBit (writeLongLength e w) = e_indBit e"
  by (simp_all add: e_put_def writeNibble_def writeLongLength_def)

lemma lengthEscape_same_word [simp]:
  "indPos (writeLengthEscape e m) = indPos e" "e_indBit (writeLengthEscape e m) = e_indBit e"
  by (simp_all add: writeLengthEscape_cases same_word)

definition after_meta :: "lzEncoder \<Rightarrow> u32 \<Rightarrow> u32 \<Rightarrow> lzEncoder" where
  "after_meta e ml off = e_put e (le_bytes 2 (push_bit 3 off OR min ml 7))"

definition after_length :: "lzEncoder \<Rightarrow> u32 \<Rightarrow> u32 \<Rightarrow> lzEncoder" where
  "after_length e ml off = (if ml \<ge> 7 then writeLengthEscape (after_meta e ml off) (ml - 7) else after_meta e ml off)"

lemma e_match_steps: "e_match e ml off = pushBit (after_length e ml off) 1"
  by (simp add: e_match_def after_length_def after_meta_def Let_def)

lemma after_length_same_word [simp]:
  "indPos (after_length e ml off) = indPos e" "e_indBit (after_length e ml off) = e_indBit e"
  by (simp_all add: after_length_def after_meta_def same_word)

lemma match_room:
  assumes "lz_wf e" "pos e + 14 \<le> length (e_out e)"
  shows "lz_wf (after_meta e ml off)" "pos (after_meta e ml off) + 12 \<le> length (e_out (after_meta e ml off))"
    "lz_wf (after_length e ml off)" "pos (after_length e ml off) + 4 \<le> length (e_out (after_length e ml off))"
    "length (e_out (after_length e ml off)) = length (e_out e)"
proof -
  let ?m = "after_meta e ml off"
  show m: "lz_wf ?m" unfolding after_meta_def using assms by (intro wf_put) auto
  show r: "pos ?m + 12 \<le> length (e_out ?m)" using assms by (simp add: after_meta_def put_cap)
  note esc = lengthEscape_room [OF m, of "ml - 7"]
  show "lz_wf (after_length e ml off)" using m esc(1) r by (simp add: after_length_def)
  show "pos (after_length e ml off) + 4 \<le> length (e_out (after_length e ml off))"
    using r esc(2,3) by (auto simp: after_length_def split: if_splits)
  show "length (e_out (after_length e ml off)) = length (e_out e)"
    using esc(2) r by (simp add: after_length_def) (simp add: after_meta_def put_cap)
qed

lemma kept_match:
  assumes wf: "lz_wf e" "pos e + 14 \<le> length (e_out e)" and k: "kept (e_match e ml off) F"
  shows "kept e F \<and> kept (after_meta e ml off) F \<and> kept (after_length e ml off) F
    \<and> bit (ind_word F (indPos e)) (31 - e_indBit e)"
proof -
  note room = match_room [OF wf, of ml off]
  have b: "kept (after_length e ml off) F" "bit (ind_word F (indPos e)) (31 - e_indBit e)"
    using kept_pushBit [OF room(3,4) _ k [unfolded e_match_steps]] by auto
  have m: "kept (after_meta e ml off) F"
    using b(1) kept_lengthEscape [OF room(1), of "ml - 7" F] room(2)
    by (cases "ml \<ge> 7") (simp_all add: after_length_def)
  then show ?thesis using b kept_put(1) [OF wf(1) _ m [unfolded after_meta_def]] wf(2) by simp
qed

lemma match_more:
  assumes "lz_wf e" "pos e + 14 \<le> length (e_out e)" "kept (e_match e ml off) F"
  shows "pos e < length F"
proof -
  have "kept (e_put e (le_bytes 2 (push_bit 3 off OR min ml 7))) F"
    using kept_match [OF assms] by (simp add: after_meta_def)
  from kept_put(3) [OF assms(1) _ this] assms(2) show ?thesis by simp
qed

lemma small_bit: "unat (x :: 'a::len word) < 2 ^ k \<Longrightarrow> bit x n \<Longrightarrow> n < k"
proof -
  assume a: "unat x < 2 ^ k" "bit x n"
  then have "take_bit k x = x" by (simp add: word_unat_eq_iff unsigned_take_bit_eq take_bit_nat_eq_self)
  then show ?thesis using a(2) by (metis bit_take_bit_iff)
qed

lemma meta_word:
  assumes "unat (off :: u32) < 8192" "unat (k :: u32) < 8"
  shows "le_word (le_bytes 2 (push_bit 3 off OR k)) = push_bit 3 off OR k"
    "drop_bit 3 (push_bit 3 off OR k) = off" "(push_bit 3 off OR k) AND 7 = k"
proof -
  have k: "bit k n \<Longrightarrow> n < 3" for n using small_bit [of k 3 n] assms by simp
  have o: "bit off n \<Longrightarrow> n < 13" for n using small_bit [of off 13 n] assms by simp
  have seven: "(7 :: u32) = mask 3" by (simp add: mask_eq_exp_minus_1)
  have "take_bit 16 (push_bit 3 off OR k) = push_bit 3 off OR k"
    by (intro bit_eqI) (auto simp: bit_take_bit_iff bit_or_iff bit_push_bit_iff dest: k o)
  then show "le_word (le_bytes 2 (push_bit 3 off OR k)) = push_bit 3 off OR k"
    by (simp add: le_word_le_bytes_take)
  show "drop_bit 3 (push_bit 3 off OR k) = off"
    by (intro bit_eqI) (auto simp: bit_drop_bit_eq bit_or_iff bit_push_bit_iff dest: k o)
  show "(push_bit 3 off OR k) AND 7 = k"
    unfolding seven by (intro bit_eqI) (auto simp: bit_and_iff bit_or_iff bit_push_bit_iff bit_mask_iff dest: k o)
qed

lemma mid_match:
  assumes wf: "lz_wf e" "pos e + 14 \<le> length (e_out e)" and k: "kept (e_match e ml off) F"
    and d: "mid F e d" and b: "unat off < 8192" "unat ml < 65536"
  shows "\<exists>d'. backReference d out n = bindr (copy_match (unat ml + 3) (unat off + 1) out n) (\<lambda>out. Inr (out, d'))
    \<and> between F (e_match e ml off) d'"
proof -
  note room = match_room [OF wf, of ml off] and kept = kept_match [OF wf k]
  let ?w = "push_bit 3 off OR min ml 7"
  have "unat (min ml 7) < 8" by (simp add: min_def word_le_nat_alt)
  note w = meta_word [OF b(1) this]
  have r: "bytes_at F (pos e) 2 = le_bytes 2 ?w" "pos e + 2 \<le> length F"
    using kept_put(2,3) [OF wf(1), of "le_bytes 2 ?w" F] kept wf(2) by (auto simp: after_meta_def)
  let ?d = "d\<lparr>inIdx := inIdx d + 2\<rparr>"
  have m: "mid F (after_meta e ml off) ?d" using mid_put [OF wf(1) d, of "le_bytes 2 ?w"] by (simp add: after_meta_def)
  have "\<exists>d'. (if min ml 7 = 7 then bindr (extendedLength ?d) (\<lambda>(x, d). Inr (x + 7, d)) else Inr (min ml 7, ?d)) = Inr (ml, d')
      \<and> mid F (after_length e ml off) d'"
  proof (cases "ml \<ge> 7")
    case True
    have lt: "ml - 7 < 0xFFFFFF00" using b(2) True by (simp add: word_less_nat_alt unat_sub)
    have "kept (writeLengthEscape (after_meta e ml off) (ml - 7)) F" using kept True by (simp add: after_length_def)
    from mid_lengthEscape [OF room(1) _ lt this m] room(2) True show ?thesis
      by (auto simp: after_length_def min_absorb2)
  next
    case False
    then have "min ml 7 = ml" by (intro min_absorb1) simp
    then show ?thesis using m False by (auto simp: after_length_def)
  qed
  then obtain d' where d': "(if min ml 7 = 7 then bindr (extendedLength ?d) (\<lambda>(x, d). Inr (x + 7, d)) else Inr (min ml 7, ?d)) = Inr (ml, d')"
    "mid F (after_length e ml off) d'" by blast
  have h: "have_bytes d 2" and meta: "le_word (bytes_at (lz_in d) (inIdx d) 2) = ?w"
    using d r w(1) by (simp_all add: have_bytes_def mid_def)
  have len: "unat (ml + 3) = unat ml + 3" using b(2) by (simp add: unat_word_ariths)
  have "backReference d out n = bindr (copy_match (unat ml + 3) (unat off + 1) out n) (\<lambda>out. Inr (out, d'))"
    unfolding backReference_def Let_def meta w(2,3) d'(1) by (simp add: h len)
  moreover have "between F (e_match e ml off) d'"
    unfolding e_match_steps by (rule mid_pushBit [OF room(3) d'(2)])
  ultimately show ?thesis by blast
qed

lemma kept_literal:
  assumes "lz_wf e" "pos e + 5 \<le> length (e_out e)" "kept (e_literal e b) F"
  shows "kept (e_put e [b]) F \<and> kept e F \<and> \<not> bit (ind_word F (indPos e)) (31 - e_indBit e)
    \<and> pos e < length F \<and> F ! pos e = b"
proof -
  have wf: "lz_wf (e_put e [b])" using assms by (intro wf_put) auto
  have p: "kept (e_put e [b]) F \<and> \<not> bit (ind_word F (indPos e)) (31 - e_indBit e)"
    using kept_pushBit [OF wf, of 0 F] assms(2,3) by (auto simp: e_literal_def put_cap same_word)
  then show ?thesis using kept_put [OF assms(1), of "[b]" F] assms(2) by (auto simp: bytes_at_Suc0)
qed

lemma mid_literal:
  assumes "lz_wf e" "pos e + 5 \<le> length (e_out e)" "kept (e_literal e b) F" "mid F e d" "length out < n"
  shows "\<exists>d'. d_literal d out n = Inr (out @ [b], d') \<and> between F (e_literal e b) d'"
proof -
  have wf: "lz_wf (e_put e [b])" using assms by (intro wf_put) auto
  have "between F (e_literal e b) (d\<lparr>inIdx := inIdx d + 1\<rparr>)"
    unfolding e_literal_def using mid_put [OF assms(1,4), of "[b]"] by (intro mid_pushBit [OF wf]) simp
  then show ?thesis using kept_literal [OF assms(1-3)] assms(4,5)
    by (auto simp: d_literal_def have_bytes_def mid_def)
qed

section \<open>The match search is sound\<close>

lemma match_length_sound:
  assumes "l \<le> maxLen"
  shows "match_length data here there maxLen l \<le> maxLen \<and>
    (\<forall>i. l \<le> i \<and> i < match_length data here there maxLen l \<longrightarrow> data ! (here + i) = data ! (there + i))"
  using assms
proof (induction data here there maxLen l rule: match_length.induct)
  case (1 data here there maxLen l)
  show ?case
  proof (cases "l < maxLen \<and> data ! (here + l) = data ! (there + l)")
    case True
    then have "match_length data here there maxLen l = match_length data here there maxLen (l + 1)"
      by (subst match_length.simps) simp
    moreover have "data ! (here + i) = data ! (there + i)"
      if "l \<le> i" "i < match_length data here there maxLen (l + 1)" for i
      using "1.IH" [OF True] True that by (cases "i = l") auto
    ultimately show ?thesis using "1.IH" [OF True] True by auto
  next
    case False
    then show ?thesis using "1.prems" by (subst (1 2) match_length.simps) auto
  qed
qed

text \<open>A usable back-reference at position \<open>u\<close>: earlier, inside the window, and equal byte for byte.\<close>

definition usable :: "bytes \<Rightarrow> nat \<Rightarrow> nat \<Rightarrow> int \<Rightarrow> nat \<Rightarrow> bool" where
  "usable data u maxLen there len \<longleftrightarrow> nat there < u \<and> u - nat there \<le> 8192 \<and> 3 \<le> len \<and> len \<le> maxLen
     \<and> (\<forall>i<len. data ! (u + i) = data ! (nat there + i))"

lemma lookup_probe_sound:
  assumes "lookup_probe hash h data offset maxLen i n best bestLen = (there, len)"
    "best < 0 \<or> usable data (unat offset) maxLen best bestLen"
  shows "there < 0 \<or> usable data (unat offset) maxLen there len"
  using assms
proof (induction n arbitrary: i best bestLen)
  case (Suc n)
  let ?o = "hash ((h + of_nat i) AND hashMask)"
  let ?l = "match_length data (unat offset) (unat ?o) maxLen 0"
  have "usable data (unat offset) maxLen (int (unat ?o)) ?l"
    if "\<not> ?o \<ge> offset" "\<not> offset - ?o > window" "?l > 2"
    using that match_length_sound [of 0 maxLen data "unat offset" "unat ?o"]
    by (auto simp: usable_def word_le_nat_alt word_less_nat_alt unat_sub)
  then show ?case using Suc by (auto simp: Let_def split: if_splits)
qed simp

lemma findMatch_sound:
  assumes "findMatch hash data u = (hash', there, len)" "\<not> there < 0" "length data < 2 ^ 32" "u \<le> length data"
  shows "usable data u (min (length data - u) 65538) there len"
proof -
  have u: "unat (of_nat u :: u32) = u" using assms(3,4) by simp
  have "lookup_probe hash (threeByteHash (drop u data)) data (of_nat u) (min (length data - u) 65538) 0 hashSearch (-1) 0 = (there, len)"
    using assms(1,2) by (auto simp: findMatch_def lookupMatch_def Let_def split: if_splits)
  from lookup_probe_sound [OF this] show ?thesis using assms(2) u by simp
qed

lemma copy_match_sound:
  assumes "off \<le> u" "0 < off" "u + k \<le> length data" "\<forall>i<k. data ! (u + i) = data ! (u - off + i)"
  shows "copy_match k off (take u data) (length data) = Inr (take (u + k) data)"
  using assms
proof (induction k arbitrary: u)
  case (Suc k)
  have "take u data ! (u - off) = data ! u" using Suc.prems(1-3) Suc.prems(4) [rule_format, of 0] by simp
  then have "take u data @ [take u data ! (length (take u data) - off)] = take (Suc u) data"
    using Suc.prems(3) by (simp add: take_Suc_conv_app_nth)
  moreover have "\<forall>i<k. data ! (Suc u + i) = data ! (Suc u - off + i)"
    using Suc.prems(1) Suc.prems(4) [rule_format, of "Suc _"] by (auto simp: Suc_diff_le)
  ultimately show ?case using Suc.IH [of "Suc u"] Suc.prems(1-3) by (simp add: min_absorb2)
qed simp

section \<open>The loops\<close>

text \<open>
  The encoder after \<open>u\<close> bytes of input of length \<open>n\<close>. A token never takes more bytes than it
  stands for, and every 32 tokens cost an indicator word of 4 bytes: eight output bytes for nine of input
  at worst, counted by \<open>8 * pos + e_indBit\<close>.
\<close>

definition lz_inv :: "nat \<Rightarrow> nat \<Rightarrow> lzEncoder \<Rightarrow> bool" where
  "lz_inv n u e \<longleftrightarrow> lz_wf e \<and> length (e_out e) = 2 * n + 64 \<and> 8 * pos e + e_indBit e \<le> 9 * u + 32"

lemma pushBit_cost:
  "e_indBit e < 32 \<Longrightarrow> 8 * pos (pushBit e b) + e_indBit (pushBit e b) \<le> 8 * pos e + e_indBit e + 1"
  "length (e_out (pushBit e b)) = length (e_out e)" "pos e \<le> pos (pushBit e b)"
  by (auto simp: pushBit_def Let_def)

lemma lz_inv_room: "lz_inv n u e \<Longrightarrow> u < n \<Longrightarrow> lz_wf e \<and> pos e + 14 \<le> length (e_out e)"
  by (simp add: lz_inv_def)

lemma lz_inv_literal: "lz_inv n u e \<Longrightarrow> u < n \<Longrightarrow> lz_inv n (u + 1) (e_literal e b)"
proof -
  assume i: "lz_inv n u e" "u < n"
  have wf: "lz_wf (e_put e [b])" using lz_inv_room [OF i] by (intro wf_put) auto
  then have "lz_wf (e_literal e b)" unfolding e_literal_def
    using lz_inv_room [OF i] by (intro wf_pushBit) (simp_all add: put_cap)
  then show ?thesis using i pushBit_cost [of "e_put e [b]" 0] wf
    by (simp add: lz_inv_def e_literal_def put_cap same_word lz_wf_def)
qed

lemma match_growth:
  assumes "lz_wf e" "pos e + 14 \<le> length (e_out e)" "unat ml < 65536"
  shows "pos (after_length e ml off) \<le> pos e + (unat ml + 3)"
proof (cases "ml \<ge> 7")
  case True
  have u: "unat (ml - 7) = unat ml - 7" using True by (simp add: unat_sub)
  have "pos (after_length e ml off) \<le> pos e + 2 + (if ml - 7 < 15 then 1 else if ml - 7 - 15 < 255 then 2 else 8)"
  proof -
    have "pos (after_meta e ml off) = pos e + 2" by (simp add: after_meta_def put_cap)
    then show ?thesis
      using lengthEscape_room(3) [OF match_room(1) [OF assms(1,2)], of ml off "ml - 7"]
        match_room(2) [OF assms(1,2), of ml off] True by (simp add: after_length_def)
  qed
  moreover have "unat ml \<ge> 7" using True by (simp add: word_le_nat_alt)
  moreover have "unat ml \<ge> 22" if "\<not> ml - 7 < 15" using that u by (simp add: word_less_nat_alt)
  ultimately show ?thesis by (auto split: if_splits)
next
  case False
  then show ?thesis by (simp add: after_length_def after_meta_def put_cap)
qed

lemma lz_inv_match:
  assumes i: "lz_inv n u e" "u < n" and ml: "unat ml < 65536"
  shows "lz_inv n (u + (unat ml + 3)) (e_match e ml off)"
proof -
  note room = match_room [OF conjunct1 [OF lz_inv_room [OF i]] conjunct2 [OF lz_inv_room [OF i]], of ml off]
  have "lz_wf (e_match e ml off)" unfolding e_match_steps by (rule wf_pushBit [OF room(3,4)])
  moreover have "pos (after_length e ml off) \<le> pos e + (unat ml + 3)"
    using lz_inv_room [OF i] ml by (intro match_growth) auto
  moreover have "e_indBit (after_length e ml off) < 32" using room(3) by (simp add: lz_wf_def)
  ultimately show ?thesis using i pushBit_cost [of "after_length e ml off" 1] room(5)
    by (simp add: lz_inv_def e_match_steps)
qed

text \<open>What one round of the compressor emits, and where it leaves the input cursor.\<close>

lemma compress_round:
  assumes "u < length data" "length data < 2 ^ 32"
  obtains (lit) hash' where "compress_loop e hash data u = compress_loop (e_literal e (data ! u)) hash' data (u + 1)"
  | (ref) hash' there ml off where
      "compress_loop e hash data u = compress_loop (e_match e ml off) hash' data (u + (unat ml + 3))"
      "unat ml < 65536" "unat off < 8192" "usable data u (length data - u) there (unat ml + 3)"
      "unat off + 1 = u - nat there"
proof -
  obtain hash' there len where f: "findMatch hash data u = (hash', there, len)" by (cases "findMatch hash data u")
  show thesis
  proof (cases "there < 0")
    case True
    then show ?thesis using lit f assms(1) by (subst (asm) compress_loop.simps) simp
  next
    case False
    note us = findMatch_sound [OF f False assms(2)]
    let ?ml = "of_nat (len - 3) :: u32" and ?off = "of_nat (u - nat there - 1) :: u32"
    have b: "3 \<le> len" "len \<le> 65538" "u - nat there \<le> 8192" "nat there < u"
      using us assms(1) by (auto simp: usable_def)
    have ml: "unat ?ml = len - 3" using b by (intro unat_of_nat_less) simp
    have off: "unat ?off = u - nat there - 1" using b by (intro unat_of_nat_less) simp
    have "compress_loop e hash data u = compress_loop (e_match e ?ml ?off) hash' data (u + len)"
      using f False assms(1) by (subst compress_loop.simps) simp
    moreover have "usable data u (length data - u) there (unat ?ml + 3)"
      using us assms(1) b(1) unfolding ml by (simp add: usable_def)
    ultimately show ?thesis using ref [of ?ml ?off hash' there] b unfolding ml off by simp
  qed
qed

lemma compress_done: "compress_loop e hash data (length data) = e"
  by (subst compress_loop.simps) simp

lemma compress_loop_inv:
  assumes "lz_inv (length data) u e" "u \<le> length data" "length data < 2 ^ 32"
  shows "lz_inv (length data) (length data) (compress_loop e hash data u)"
  using assms
proof (induction "length data - u" arbitrary: u e hash rule: less_induct)
  case less
  show ?case
  proof (cases "u = length data")
    case True
    then show ?thesis using less.prems by (simp add: compress_done)
  next
    case False
    then have u: "u < length data" using less.prems by simp
    show ?thesis
    proof (cases rule: compress_round [OF u less.prems(3), of e hash])
      case (1 hash')
      then show ?thesis using less.hyps [of "u + 1"] less.prems lz_inv_literal u by simp
    next
      case (2 hash' there ml off)
      have "u + (unat ml + 3) \<le> length data" using 2(4) u by (auto simp: usable_def)
      then show ?thesis
        using less.hyps [of "u + (unat ml + 3)"] less.prems lz_inv_match [OF less.prems(1) u 2(2)] u unfolding 2(1) by simp
    qed
  qed
qed

lemma compress_loop_kept:
  assumes "lz_inv (length data) u e" "u \<le> length data" "length data < 2 ^ 32"
    "kept (compress_loop e hash data u) F"
  shows "kept e F"
  using assms
proof (induction "length data - u" arbitrary: u e hash rule: less_induct)
  case less
  show ?case
  proof (cases "u = length data")
    case True
    then show ?thesis using less.prems by (simp add: compress_done)
  next
    case False
    then have u: "u < length data" using less.prems by simp
    note room = lz_inv_room [OF less.prems(1) u]
    show ?thesis
    proof (cases rule: compress_round [OF u less.prems(3), of e hash])
      case (1 hash')
      have "kept (e_literal e (data ! u)) F"
        using less.hyps [of "u + 1"] less.prems lz_inv_literal u unfolding 1 by simp
      then show ?thesis using kept_literal [of e "data ! u" F] room by simp
    next
      case (2 hash' there ml off)
      have "u + (unat ml + 3) \<le> length data" using 2(4) u by (auto simp: usable_def)
      then have "kept (e_match e ml off) F"
        using less.hyps [of "u + (unat ml + 3)"] less.prems lz_inv_match [OF less.prems(1) u 2(2)] u unfolding 2(1) by simp
      then show ?thesis using kept_match [of e ml off F] room by simp
    qed
  qed
qed

text \<open>One round of the decoder, from the state between two tokens.\<close>

lemma decompress_round_literal:
  assumes "lz_wf e" "pos e + 14 \<le> length (e_out e)" "kept (e_literal e b) F" "between F e d" "length out < n"
  shows "\<exists>d'. between F (e_literal e b) d' \<and> decompress_loop d out n =
    (if length (out @ [b]) \<ge> n \<or> inIdx d' \<ge> length F then Inr (out @ [b]) else decompress_loop d' (out @ [b]) n)"
proof -
  have c: "pos e + 5 \<le> length (e_out e)" using assms(2) by simp
  note k = kept_literal [OF assms(1) c assms(3)]
  obtain d1 where d1: "nextBit d = Inr (drop_bit (31 - e_indBit e) (ind_word F (indPos e)) AND 1, False, d1)" "mid F e d1"
    using between_nextBit [OF assms(1,4)] k by blast
  obtain d2 where d2: "d_literal d1 out n = Inr (out @ [b], d2)" "between F (e_literal e b) d2"
    using mid_literal [OF assms(1) c assms(3) d1(2) assms(5)] by blast
  have "drop_bit (31 - e_indBit e) (ind_word F (indPos e)) AND 1 = 0" using k by (intro low_bit) auto
  moreover have "lz_in d2 = F" using d2(2) by (simp add: between_def)
  ultimately show ?thesis using d1(1) d2 by (subst decompress_loop.simps) auto
qed

lemma decompress_round_match:
  assumes "lz_wf e" "pos e + 14 \<le> length (e_out e)" "kept (e_match e ml off) F" "between F e d"
    "unat off < 8192" "unat ml < 65536" "copy_match (unat ml + 3) (unat off + 1) out n = Inr out'"
  shows "\<exists>d'. between F (e_match e ml off) d' \<and> decompress_loop d out n =
    (if length out' \<ge> n \<or> inIdx d' \<ge> length F then Inr out' else decompress_loop d' out' n)"
proof -
  note k = kept_match [OF assms(1,2,3)]
  obtain d1 where d1: "nextBit d = Inr (drop_bit (31 - e_indBit e) (ind_word F (indPos e)) AND 1, False, d1)" "mid F e d1"
    using between_nextBit [OF assms(1,4) match_more [OF assms(1,2,3)]] by blast
  obtain d2 where d2: "backReference d1 out n = Inr (out', d2)" "between F (e_match e ml off) d2"
    using mid_match [OF assms(1,2,3) d1(2) assms(5,6), of out n] unfolding assms(7) by auto
  have "drop_bit (31 - e_indBit e) (ind_word F (indPos e)) AND 1 = 1" using k by (intro low_bit) auto
  moreover have "lz_in d2 = F" using d2(2) by (simp add: between_def)
  ultimately show ?thesis using d1(1) d2 by (subst decompress_loop.simps) auto
qed

text \<open>Between two tokens there is more input whenever there is more to emit.\<close>

lemma between_more:
  assumes "lz_wf e" "between F e d" "pos e < length F"
  shows "inIdx d < length F"
  using assms by (auto simp: between_def lz_wf_def split: if_splits)

lemma compress_more:
  assumes "lz_inv (length data) u e" "u < length data" "length data < 2 ^ 32" "kept (compress_loop e hash data u) F"
  shows "pos e < length F"
proof (cases rule: compress_round [OF assms(2,3), of e hash])
  case (1 hash')
  have "kept (e_literal e (data ! u)) F"
    using compress_loop_kept [of data "u + 1"] lz_inv_literal [OF assms(1,2)] assms unfolding 1 by simp
  then show ?thesis using kept_literal [of e "data ! u" F] lz_inv_room [OF assms(1,2)] by simp
next
  case (2 hash' there ml off)
  have "u + (unat ml + 3) \<le> length data" using 2(4) assms(2) by (auto simp: usable_def)
  then have "kept (e_match e ml off) F"
    using compress_loop_kept [of data "u + (unat ml + 3)"] lz_inv_match [OF assms(1,2) 2(2)] assms unfolding 2(1) by simp
  then show ?thesis using match_more [of e ml off F] lz_inv_room [OF assms(1,2)] by simp
qed

lemma decompress_follows:
  assumes "lz_inv (length data) u e" "u < length data" "length data < 2 ^ 32" "between F e d"
    "kept (compress_loop e hash data u) F"
  shows "decompress_loop d (take u data) (length data) = Inr data"
  using assms
proof (induction "length data - u" arbitrary: u e d hash rule: less_induct)
  case less
  let ?n = "length data"
  note room = conjunct1 [OF lz_inv_room [OF less.prems(1,2)]] conjunct2 [OF lz_inv_room [OF less.prems(1,2)]]
  have next_round: "(if length (take v data) \<ge> ?n \<or> inIdx d' \<ge> length F then Inr (take v data) else decompress_loop d' (take v data) ?n) = Inr data"
    if "lz_inv ?n v e'" "u < v" "v \<le> ?n" "between F e' d'" "kept (compress_loop e' hash' data v) F" for v e' d' hash'
  proof (cases "v = ?n")
    case False
    then have v: "v < ?n" using that(3) by simp
    have "inIdx d' < length F"
      using between_more [of e' F d'] that(1,4) compress_more [OF that(1) v less.prems(3) that(5)] by (simp add: lz_inv_def)
    then show ?thesis using less.hyps [of v e' d' hash'] that v less.prems(2,3) by simp
  qed simp
  show ?case
  proof (cases rule: compress_round [OF less.prems(2,3), of e hash])
    case (1 hash')
    have inv: "lz_inv ?n (u + 1) (e_literal e (data ! u))" by (rule lz_inv_literal [OF less.prems(1,2)])
    have k: "kept (compress_loop (e_literal e (data ! u)) hash' data (u + 1)) F" using less.prems(5) 1 by simp
    have "take u data @ [data ! u] = take (u + 1) data" using less.prems(2) by (simp add: take_Suc_conv_app_nth)
    then show ?thesis
      using decompress_round_literal [OF room compress_loop_kept [OF inv _ less.prems(3) k] less.prems(4), of "take u data" ?n]
        next_round [OF inv _ _ _ k] less.prems(2) by fastforce
  next
    case (2 hash' there ml off)
    have inv: "lz_inv ?n (u + (unat ml + 3)) (e_match e ml off)" by (rule lz_inv_match [OF less.prems(1,2) 2(2)])
    have le: "u + (unat ml + 3) \<le> ?n" using 2(4) less.prems(2) by (auto simp: usable_def)
    have k: "kept (compress_loop (e_match e ml off) hash' data (u + (unat ml + 3))) F" using less.prems(5) 2(1) by simp
    have "\<forall>i<unat ml + 3. data ! (u + i) = data ! (u - (unat off + 1) + i)" "unat off + 1 \<le> u"
      using 2(4,5) by (auto simp: usable_def)
    then have "copy_match (unat ml + 3) (unat off + 1) (take u data) ?n = Inr (take (u + (unat ml + 3)) data)"
      using le by (intro copy_match_sound) auto
    from decompress_round_match [OF room compress_loop_kept [OF inv le less.prems(3) k] less.prems(4) 2(3,2) this]
    show ?thesis using next_round [OF inv _ le _ k] by fastforce
  qed
qed

section \<open>Any input\<close>

lemma copy_match_length: "copy_match k off out n = Inr out' \<Longrightarrow> length out \<le> n \<Longrightarrow> length out' \<le> n"
  by (induction k arbitrary: out) (auto split: if_splits)

lemma decompress_loop_length: "decompress_loop d out n = Inr out' \<Longrightarrow> length out \<le> n \<Longrightarrow> length out' \<le> n"
proof (induction d out n rule: decompress_loop.induct)
  case (1 d out n)
  show ?case
  proof (cases "nextBit d")
    case (Inr r)
    obtain b fin d1 where r: "r = (b, fin, d1)" by (cases r)
    define step where "step = (if b = 0 then d_literal d1 out n else backReference d1 out n)"
    have len: "length o' \<le> n" if "step = Inr (o', d2)" for o' d2
      using that "1.prems"(2)
      by (auto simp: step_def d_literal_def backReference_def Let_def split: if_splits dest!: copy_match_length)
    have loop: "decompress_loop d out n = (if fin then Inr out else (case step of Inl e \<Rightarrow> Inl e
        | Inr (out, d) \<Rightarrow> if length out \<ge> n \<or> inIdx d \<ge> length (lz_in d) then Inr out else decompress_loop d out n))"
      using Inr r by (subst decompress_loop.simps) (simp add: step_def)
    show ?thesis
    proof (cases "fin \<or> (\<exists>e. step = Inl e)")
      case True
      then show ?thesis using "1.prems" loop by (auto split: if_splits)
    next
      case False
      then obtain o' d2 where st: "step = Inr (o', d2)" by (cases step) auto
      then show ?thesis
        using "1.prems" "1.IH" [OF Inr r [symmetric] refl _ st [unfolded step_def] refl] len [OF st] loop False by (auto split: if_splits)
    qed
  qed (use "1.prems" in \<open>subst (asm) decompress_loop.simps, simp\<close>)
qed

section \<open>Properties\<close>

lemma initial_encoder:
  assumes "0 < n"
  defines "e \<equiv> reserveIndicator \<lparr>e_out = replicate (n * 2 + 64) 0, pos = 0, indic = 0, e_indBit = 0, indPos = 0, e_nibbleIdx = 0\<rparr>"
  shows "lz_inv n 0 e" "between F e \<lparr>lz_in = F, inIdx = 0, indicator = 0, d_indBit = 0, d_nibbleIdx = 0\<rparr>"
  by (simp_all add: e_def reserveIndicator_def e_put_def lz_inv_def lz_wf_def between_def)

lemma decompress_compress:
  assumes "length data < 2 ^ 32"
  shows "Decompress (Compress data) (length data) = Inr data"
proof (cases "data = []")
  case False
  let ?e = "reserveIndicator \<lparr>e_out = replicate (length data * 2 + 64) 0, pos = 0, indic = 0, e_indBit = 0, indPos = 0, e_nibbleIdx = 0\<rparr>"
  let ?c = "compress_loop ?e (\<lambda>_. 0xFFFFFFFF) data 0"
  have inv: "lz_inv (length data) 0 ?e" using initial_encoder False by simp
  have "lz_wf ?c" using compress_loop_inv [OF inv _ assms] by (simp add: lz_inv_def)
  then have k: "kept ?c (flush ?c)" by (rule kept_flush)
  have "Compress data = flush ?c" using False by (simp add: Compress_def)
  moreover have "flush ?c \<noteq> []" using compress_more [OF inv _ assms k] False by auto
  ultimately show ?thesis
    using decompress_follows [OF inv _ assms initial_encoder(2) k] False by (simp add: Decompress_def)
qed (simp add: Compress_def Decompress_def)

text \<open>
  C33. Decompression undoes compression: for every input whose length fits 32 bits, expanding the
  output of \<^verbatim>\<open>Compress\<close> with the input's length as the declared size returns the input, whatever
  matches the hash search happened to find.
\<close>

theorem compress_roundtrip:
  assumes "length data < 2 ^ 32"
  shows "Decompress (Compress data) (length data) = Inr data"
  using decompress_compress [OF assms] .

theorem compress_roundtrip_witness:
  "Compress [1, 2, 3, 1, 2, 3, 1, 2, 3, 1, 2, 3, 1, 2, 3] = [0xFF, 0xFF, 0xFF, 0x1F, 1, 2, 3, 0x17, 0, 2]
    \<and> Decompress [0xFF, 0xFF, 0xFF, 0x1F, 1, 2, 3, 0x17, 0, 2] 15 = Inr [1, 2, 3, 1, 2, 3, 1, 2, 3, 1, 2, 3, 1, 2, 3]"
proof -
  have c: "Compress [1, 2, 3, 1, 2, 3, 1, 2, 3, 1, 2, 3, 1, 2, 3] = [0xFF, 0xFF, 0xFF, 0x1F, 1, 2, 3, 0x17, 0, 2]"
    by code_simp
  have l: "length [1 :: u8, 2, 3, 1, 2, 3, 1, 2, 3, 1, 2, 3, 1, 2, 3] = 15" by simp
  have "(15 :: nat) < 2 ^ 32" by simp
  from compress_roundtrip [of "[1, 2, 3, 1, 2, 3, 1, 2, 3, 1, 2, 3, 1, 2, 3]", unfolded l c, OF this] c
  show ?thesis by blast
qed

text \<open>
  Compressing never needs more than nine output bytes for eight input bytes and one indicator
  word, well below the buffer of twice the input and 64 bytes that is allocated in advance.
\<close>

lemma compress_expansion_bounded:
  assumes "length data < 2 ^ 32"
  shows "8 * length (Compress data) \<le> 9 * length data + 32"
proof (cases "data = []")
  case False
  let ?e = "reserveIndicator \<lparr>e_out = replicate (length data * 2 + 64) 0, pos = 0, indic = 0, e_indBit = 0, indPos = 0, e_nibbleIdx = 0\<rparr>"
  let ?c = "compress_loop ?e (\<lambda>_. 0xFFFFFFFF) data 0"
  have "lz_inv (length data) 0 ?e" using initial_encoder False by simp
  then have "8 * pos ?c \<le> 9 * length data + 32"
    using compress_loop_inv [of data 0 ?e "\<lambda>_. 0xFFFFFFFF"] assms by (simp add: lz_inv_def)
  moreover have "length (flush ?c) \<le> pos ?c" by (simp add: flush_def Let_def)
  ultimately show ?thesis using False by (simp add: Compress_def)
qed (simp add: Compress_def)

text \<open>
  On any input the decoder returns an error or at most the declared number of bytes.
\<close>

lemma decompress_output_bounded:
  assumes "Decompress input n = Inr out"
  shows "length out \<le> n"
  using assms decompress_loop_length [of _ "[]" n out] by (auto simp: Decompress_def split: if_splits)

text \<open>
  Two malformed streams the decoder accepts. A 32-bit length of \<^verbatim>\<open>0xFFFFFFFF\<close> wraps around when
  its biases are added back, so that a match declared longer than 4 GiB copies two bytes; and a
  stream that ends early yields fewer bytes than the declared size without an error.
\<close>

lemma decompress_accepts_malformed:
  "Decompress [0, 0, 0, 0x40, 0x61, 7, 0, 0x0F, 0xFF, 0, 0, 0xFF, 0xFF, 0xFF, 0xFF] 3 = Inr [0x61, 0x61, 0x61]
    \<and> Decompress [0, 0, 0, 0] 8 = Inr [] \<and> Decompress [0, 0, 0, 0, 0x61] 8 = Inr [0x61]"
  by code_simp

end
