(* ===== verification/Ropbuf.thy ===== *)
theory Ropbuf
  imports Lzxpress
begin

text \<open>
  The Execute buffer of MAPI over HTTP and RPC (\<^verbatim>\<open>internal/oxmapihttp/ropbuf.go\<close>): the extended RPC
  header, its obfuscation and compression flags, and the split of the payload into the ROP commands and
  the handle table.
\<close>

unbundle bit_operations_syntax

datatype ropbuf_error = ErrMalformed

abbreviation (input) rheFlagCompressed :: u16 where "rheFlagCompressed \<equiv> 0x0001"
abbreviation (input) rheFlagXorMagic :: u16 where "rheFlagXorMagic \<equiv> 0x0002"
abbreviation (input) rheFlagLast :: u16 where "rheFlagLast \<equiv> 0x0004"
abbreviation (input) xorMagic :: u8 where "xorMagic \<equiv> 0xA5"
abbreviation (input) maxROPBuffer :: nat where "maxROPBuffer \<equiv> 0x8000"

definition rop_header :: "bytes \<Rightarrow> ropbuf_error + (u16 \<times> bytes \<times> nat)" where
  "rop_header inp =
     (if length inp < 8 then Inl ErrMalformed
      else
        (let flags = le_word (take 2 (drop 2 inp)) :: u16;
             size = unat (le_word (take 2 (drop 4 inp)) :: u16);
             sizeActual = unat (le_word (take 2 (drop 6 inp)) :: u16)
         in
           if flags AND rheFlagLast = 0 then Inl ErrMalformed
           else if size = 0 \<or> 8 + size > length inp then Inl ErrMalformed
           else if sizeActual = 0 \<or> sizeActual > maxROPBuffer then Inl ErrMalformed
           else Inr (flags, take size (drop 8 inp), sizeActual)))"

definition deobfuscate :: "bytes \<Rightarrow> u16 \<Rightarrow> bytes" where
  "deobfuscate payload flags =
     (if flags AND rheFlagXorMagic = 0 then payload else map (\<lambda>b. b XOR xorMagic) payload)"

definition ropBuffer :: "bytes \<Rightarrow> ropbuf_error + bytes" where
  "ropBuffer inp =
     bindr (rop_header inp) (\<lambda>(flags, payload, sizeActual).
       let payload = deobfuscate payload flags in
       if flags AND rheFlagCompressed \<noteq> 0 then
         (case Decompress payload sizeActual of
            Inl _ \<Rightarrow> Inl ErrMalformed
          | Inr dec \<Rightarrow> if length dec < sizeActual then Inl ErrMalformed else Inr (take sizeActual dec))
       else if sizeActual > length payload then Inl ErrMalformed
       else Inr (take sizeActual payload))"

definition splitROPBuffer :: "bytes \<Rightarrow> ropbuf_error + (bytes \<times> u32 list)" where
  "splitROPBuffer rb =
     (if length rb < 2 then Inl ErrMalformed
      else
        (let ropSize = unat (le_word (take 2 rb) :: u16) in
         if ropSize < 2 \<or> ropSize > length rb then Inl ErrMalformed
         else
           (let rops = drop 2 (take ropSize rb);
                tail = drop ropSize rb
            in
              if length tail mod 4 \<noteq> 0 then Inl ErrMalformed
              else Inr (rops, map (\<lambda>i. le_word (take 4 (drop (i * 4) tail))) [0..<length tail div 4]))))"

definition DecodeExecute :: "bytes \<Rightarrow> ropbuf_error + (bytes \<times> u32 list)" where
  "DecodeExecute inp = bindr (ropBuffer inp) splitROPBuffer"

definition EncodeExecute :: "bytes \<Rightarrow> u32 list \<Rightarrow> bytes" where
  "EncodeExecute rops handles =
     (let rb = le_bytes 2 (of_nat (length rops + 2) :: u16) @ rops @ concat (map (le_bytes 4) handles);
          sizeActual = of_nat (length rb) :: u16
      in le_bytes 2 (0 :: u16) @ le_bytes 2 rheFlagLast @ le_bytes 2 sizeActual @ le_bytes 2 sizeActual @ rb)"

section \<open>The two regions\<close>

definition rop_region :: "bytes \<Rightarrow> u32 list \<Rightarrow> bytes" where
  "rop_region rops handles = le_bytes 2 (of_nat (length rops + 2) :: u16) @ rops @ concat (map (le_bytes 4) handles)"

lemma length_handles [simp]: "length (concat (map (le_bytes 4) hs)) = 4 * length hs"
  by (induction hs) simp_all

lemma handles_read:
  "map (\<lambda>i. le_word (take 4 (drop (i * 4) (concat (map (le_bytes 4) hs))))) [0..<length hs] = (hs :: u32 list)"
proof (induction hs)
  case (Cons h hs)
  have "map (\<lambda>i. le_word (take 4 (drop (i * 4) (concat (map (le_bytes 4) (h # hs)))))) [0..<length (h # hs)]
      = h # map (\<lambda>i. le_word (take 4 (drop (i * 4) (concat (map (le_bytes 4) hs))))) [0..<length hs]"
    by (simp add: upt_conv_Cons map_Suc_upt [symmetric] del: upt_Suc)
  then show ?case using Cons by simp
qed simp

lemma split_region:
  assumes "length rops + 2 \<le> 0xFFFF"
  shows "splitROPBuffer (rop_region rops handles) = Inr (rops, handles)"
proof -
  have "unat (of_nat (length rops + 2) :: u16) = length rops + 2" using assms by (intro unat_of_nat_less) simp
  then show ?thesis by (simp add: splitROPBuffer_def rop_region_def Let_def handles_read)
qed

section \<open>Requests\<close>

text \<open>A request as a client frames it: the ROP region compressed and obfuscated as the flags say.\<close>

definition client_payload :: "u16 \<Rightarrow> bytes \<Rightarrow> bytes" where
  "client_payload flags rb =
     (let p = (if flags AND rheFlagCompressed \<noteq> 0 then Compress rb else rb) in
      if flags AND rheFlagXorMagic \<noteq> 0 then map (\<lambda>b. b XOR xorMagic) p else p)"

definition client_buffer :: "u16 \<Rightarrow> u16 \<Rightarrow> bytes \<Rightarrow> u32 list \<Rightarrow> bytes" where
  "client_buffer ver flags rops handles =
     (let rb = rop_region rops handles; p = client_payload flags rb in
      le_bytes 2 ver @ le_bytes 2 flags @ le_bytes 2 (of_nat (length p) :: u16) @ le_bytes 2 (of_nat (length rb) :: u16) @ p)"

lemma payload_length:
  assumes "length rb \<le> maxROPBuffer" "rb \<noteq> []"
  shows "length (client_payload flags rb) \<le> 0xFFFF" "client_payload flags rb \<noteq> []"
proof -
  have c: "8 * length (Compress rb) \<le> 9 * length rb + 32" by (rule compress_expansion_bounded) (use assms(1) in simp)
  then show "length (client_payload flags rb) \<le> 0xFFFF" using assms(1) by (auto simp: client_payload_def Let_def)
  have "Compress rb \<noteq> []"
  proof
    assume "Compress rb = []"
    then have "Decompress [] (length rb) = Inr rb" using decompress_compress [of rb] assms(1) by simp
    then show False using assms(2) by (simp add: Decompress_def)
  qed
  then show "client_payload flags rb \<noteq> []" using assms(2) by (auto simp: client_payload_def Let_def)
qed

lemma client_buffer_decodes:
  assumes "flags AND rheFlagLast \<noteq> 0" "length (rop_region rops handles) \<le> maxROPBuffer"
  shows "DecodeExecute (client_buffer ver flags rops handles) = Inr (rops, handles)"
proof -
  let ?rb = "rop_region rops handles"
  let ?p = "client_payload flags ?rb"
  have rb: "2 + length rops + 4 * length handles = length ?rb" by (simp add: rop_region_def)
  then have ne: "?rb \<noteq> []" by auto
  note p = payload_length [OF assms(2) ne, of flags]
  have u: "unat (of_nat (length ?p) :: u16) = length ?p" "unat (of_nat (length ?rb) :: u16) = length ?rb"
    using p(1) assms(2) by (simp_all add: unat_of_nat_less)
  have "rop_header (client_buffer ver flags rops handles) = Inr (flags, ?p, length ?rb)"
    using assms p ne u by (simp add: rop_header_def client_buffer_def Let_def)
  moreover have "deobfuscate ?p flags = (if flags AND rheFlagCompressed \<noteq> 0 then Compress ?rb else ?rb)"
    by (simp add: deobfuscate_def client_payload_def Let_def xor.assoc o_def)
  ultimately have "ropBuffer (client_buffer ver flags rops handles) = Inr ?rb"
    using assms(2) decompress_compress [of ?rb] by (simp add: ropBuffer_def Let_def)
  then show ?thesis using split_region [of rops handles] rb assms(2) by (simp add: DecodeExecute_def)
qed

lemma EncodeExecute_client: "EncodeExecute rops handles = client_buffer 0 rheFlagLast rops handles"
  by (simp add: EncodeExecute_def client_buffer_def client_payload_def rop_region_def Let_def)

section \<open>Properties\<close>

text \<open>
  C34. Whatever header version a client sends and whether or not it compresses or obfuscates the payload,
  a final buffer of at most 32 KiB decodes to the ROP commands and the handle table it was built from;
  the server's own response framing decodes to what it was given as well, under the size its callers
  check.
\<close>

theorem execute_buffer_roundtrip:
  assumes "flags AND rheFlagLast \<noteq> 0" "2 + length rops + 4 * length handles \<le> maxROPBuffer"
  shows "DecodeExecute (client_buffer ver flags rops handles) = Inr (rops, handles)
    \<and> DecodeExecute (EncodeExecute rops handles) = Inr (rops, handles)"
  using client_buffer_decodes [of flags rops handles] client_buffer_decodes [of rheFlagLast rops handles 0] assms
  by (simp add: EncodeExecute_client) (simp add: rop_region_def)

theorem execute_buffer_roundtrip_witness:
  "DecodeExecute (client_buffer 0 7 [0xFE, 0, 0] [0xFFFFFFFF]) = Inr ([0xFE, 0, 0], [0xFFFFFFFF])
    \<and> DecodeExecute (EncodeExecute [0xFE, 0, 0] [0xFFFFFFFF]) = Inr ([0xFE, 0, 0], [0xFFFFFFFF])"
  using execute_buffer_roundtrip [of 7 "[0xFE, 0, 0]" "[0xFFFFFFFF]" 0] by simp

text \<open>
  On any request bytes the decoder returns an error or regions that together occupy at most 32 KiB,
  whatever the compressed payload expands to.
\<close>

lemma execute_buffer_bounded:
  assumes "DecodeExecute inp = Inr (rops, handles)"
  shows "2 + length rops + 4 * length handles \<le> maxROPBuffer"
proof -
  obtain rb where rb: "ropBuffer inp = Inr rb" "splitROPBuffer rb = Inr (rops, handles)"
    using assms by (auto simp: DecodeExecute_def)
  then obtain flags payload n where h: "rop_header inp = Inr (flags, payload, n)" "length rb = n"
    by (auto simp: ropBuffer_def Let_def split: if_splits sum.splits)
  then have "n \<le> maxROPBuffer" by (auto simp: rop_header_def Let_def split: if_splits)
  moreover have "2 + length rops + 4 * length handles = length rb"
    using rb(2) by (auto simp: splitROPBuffer_def Let_def split: if_splits)
  ultimately show ?thesis using h(2) by simp
qed

end
