(* ===== verification/Wbxml.thy ===== *)
theory Wbxml
  imports Go_Text
begin

text \<open>
  The WBXML codec of ActiveSync (\<^verbatim>\<open>internal/wbxml\<close>): \<^verbatim>\<open>wbxml.go\<close>, \<^verbatim>\<open>encode.go\<close>, \<^verbatim>\<open>decode.go\<close> and the tag
  layout of \<^verbatim>\<open>tokens.go\<close>. The decoder is recursive descent; its recursion is bounded by fuel that is shown
  to suffice on every document, so the decoder satisfies the recursion equations of the source.
\<close>

unbundle bit_operations_syntax

section \<open>Documents (wbxml.go, tokens.go)\<close>

datatype wbxml_error = ErrUnderflow | ErrFormat | ErrTooDeep | ErrFuel

abbreviation (input) maxNestingDepth :: nat where "maxNestingDepth \<equiv> 64"

abbreviation (input) wbxml_version :: u8 where "wbxml_version \<equiv> 0x03"
abbreviation (input) publicID :: u32 where "publicID \<equiv> 0x01"
abbreviation (input) charsetUTF8 :: u32 where "charsetUTF8 \<equiv> 106"
abbreviation (input) stringTableLen :: u32 where "stringTableLen \<equiv> 0"

abbreviation (input) gSwitchPage :: u8 where "gSwitchPage \<equiv> 0x00"
abbreviation (input) gEnd :: u8 where "gEnd \<equiv> 0x01"
abbreviation (input) gStrI :: u8 where "gStrI \<equiv> 0x03"
abbreviation (input) gOpaque :: u8 where "gOpaque \<equiv> 0xC3"
abbreviation (input) cbContent :: u8 where "cbContent \<equiv> 0x40"
abbreviation (input) cbAttributes :: u8 where "cbAttributes \<equiv> 0x80"
abbreviation (input) tokenMask :: u8 where "tokenMask \<equiv> 0x3F"
abbreviation (input) PageAirSync :: u8 where "PageAirSync \<equiv> 0x00"

type_synonym tag = u16

definition TagPage :: "tag \<Rightarrow> u8" where
  "TagPage t = ucast (drop_bit 8 t)"

definition TagToken :: "tag \<Rightarrow> u8" where
  "TagToken t = ucast t"

text \<open>\<^verbatim>\<open>Opaque\<close> distinguishes \<^verbatim>\<open>nil\<close> from an empty slice, as the encoder does.\<close>

datatype node = Node (NTag: tag) (Children: "node list") (Text: go_string) (OpaqueData: "bytes option")

definition Elem :: "tag \<Rightarrow> node list \<Rightarrow> node" where
  "Elem t children = Node t children [] None"

definition Str :: "tag \<Rightarrow> go_string \<Rightarrow> node" where
  "Str t s = Node t [] s None"

definition Opaque :: "tag \<Rightarrow> bytes \<Rightarrow> node" where
  "Opaque t b = Node t [] [] (Some b)"

definition Empty :: "tag \<Rightarrow> node" where
  "Empty t = Node t [] [] None"

definition Child :: "node \<Rightarrow> tag \<Rightarrow> node option" where
  "Child n t = find (\<lambda>c. NTag c = t) (Children n)"

definition ChildText :: "node \<Rightarrow> tag \<Rightarrow> go_string" where
  "ChildText n t = (case Child n t of Some c \<Rightarrow> Text c | None \<Rightarrow> [])"

section \<open>Encoding (encode.go)\<close>

text \<open>The stack of seven-bit groups, least significant first, all but the first with the continuation bit.\<close>

function mb_stack :: "bytes \<Rightarrow> u32 \<Rightarrow> bytes" where
  "mb_stack stack v =
     (if v > 0 then mb_stack (stack @ [ucast (v AND 0x7F) OR 0x80]) (drop_bit 7 v) else stack)"
  by pat_completeness auto
termination
proof (relation "measure (\<lambda>(stack, v). unat v)", goal_cases)
  case (2 stack v)
  then have "0 < unat v" by (simp add: unat_gt_0 word_gt_0)
  moreover have "unat (drop_bit 7 v) = unat v div 128"
    by (simp only: unat_drop_bit_eq) (simp add: drop_bit_eq_div)
  ultimately show ?case by simp
qed simp

declare mb_stack.simps [simp del]

definition write_mbUint :: "bytes \<Rightarrow> u32 \<Rightarrow> bytes" where
  "write_mbUint buf v = buf @ rev (mb_stack [ucast (v AND 0x7F)] (drop_bit 7 v))"

definition strI :: "bytes \<Rightarrow> go_string \<Rightarrow> bytes" where
  "strI buf s = buf @ [gStrI] @ filter (\<lambda>c. c \<noteq> 0) s @ [0x00]"

text \<open>The writer's buffer and the current code page are threaded through the tree.\<close>

fun write_element :: "node \<Rightarrow> bytes \<Rightarrow> u8 \<Rightarrow> bytes \<times> u8"
  and write_elements :: "node list \<Rightarrow> bytes \<Rightarrow> u8 \<Rightarrow> bytes \<times> u8" where
  "write_element (Node t children text opq) buf page =
     (let p = TagPage t;
          buf = (if p \<noteq> page then buf @ [gSwitchPage, p] else buf);
          page = p;
          tok = TagToken t
      in
        if length children > 0 then
          (let (buf, page) = write_elements children (buf @ [tok OR cbContent]) page in (buf @ [gEnd], page))
        else
          (case opq of
             Some b \<Rightarrow> (write_mbUint (buf @ [tok OR cbContent, gOpaque]) (of_nat (length b)) @ b @ [gEnd], page)
           | None \<Rightarrow>
               if text \<noteq> [] then (strI (buf @ [tok OR cbContent]) text @ [gEnd], page)
               else (buf @ [tok], page)))"
| "write_elements [] buf page = (buf, page)"
| "write_elements (c # cs) buf page = (let (buf, page) = write_element c buf page in write_elements cs buf page)"

definition Marshal :: "node option \<Rightarrow> bytes" where
  "Marshal root =
     (let buf = write_mbUint (write_mbUint (write_mbUint [wbxml_version] publicID) charsetUTF8) stringTableLen in
      case root of None \<Rightarrow> buf | Some n \<Rightarrow> fst (write_element n buf PageAirSync))"

section \<open>Decoding (decode.go)\<close>

text \<open>A reader is the bytes from its cursor on.\<close>

type_synonym 'a wb_reader = "bytes \<Rightarrow> wbxml_error + 'a \<times> bytes"

definition wb_need :: "bytes \<Rightarrow> nat \<Rightarrow> wbxml_error + unit" where
  "wb_need r n = (if n > length r then Inl ErrUnderflow else Inr ())"

definition readByte :: "u8 wb_reader" where
  "readByte r = bindr (wb_need r 1) (\<lambda>_. Inr (hd r, tl r))"

definition peek :: "bytes \<Rightarrow> wbxml_error + u8" where
  "peek r = bindr (wb_need r 1) (\<lambda>_. Inr (hd r))"

fun mb_loop :: "nat \<Rightarrow> u32 \<Rightarrow> u32 wb_reader" where
  "mb_loop 0 v r = Inl ErrFormat"
| "mb_loop (Suc k) v r =
     bindr (readByte r) (\<lambda>(b, r).
       let v = push_bit 7 v OR ucast (b AND 0x7F) in
       if b AND 0x80 = 0 then Inr (v, r) else mb_loop k v r)"

definition read_mbUint :: "u32 wb_reader" where
  "read_mbUint r = mb_loop 5 0 r"

fun cstr :: "go_string wb_reader" where
  "cstr [] = Inl ErrUnderflow"
| "cstr (b # r) = (if b = 0 then Inr ([], r) else bindr (cstr r) (\<lambda>(s, r). Inr (b # s, r)))"

definition wb_take :: "nat \<Rightarrow> bytes wb_reader" where
  "wb_take n r = bindr (wb_need r n) (\<lambda>_. Inr (take n r, drop n r))"

fun skipSwitchPages :: "u8 \<Rightarrow> u8 wb_reader" where
  "skipSwitchPages page [] = Inl ErrUnderflow"
| "skipSwitchPages page (b # r) =
     (if b \<noteq> gSwitchPage then Inr (page, b # r)
      else (case r of [] \<Rightarrow> Inl ErrUnderflow | p # r' \<Rightarrow> skipSwitchPages p r'))"

definition startTag :: "u8 \<Rightarrow> (node \<times> bool) wb_reader" where
  "startTag page r =
     bindr (readByte r) (\<lambda>(tok, r).
       if tok AND cbAttributes \<noteq> 0 then Inl ErrFormat
       else if tok = gEnd \<or> tok = gStrI \<or> tok = gOpaque then Inl ErrFormat
       else Inr ((Node (push_bit 8 (ucast page) OR ucast (tok AND tokenMask)) [] [] None, tok AND cbContent \<noteq> 0), r))"

definition readString :: "node \<Rightarrow> node wb_reader" where
  "readString n r = bindr (cstr r) (\<lambda>(s, r). Inr (Node (NTag n) (Children n) (Text n @ s) (OpaqueData n), r))"

text \<open>Appending to a \<^verbatim>\<open>nil\<close> slice gives \<^verbatim>\<open>nil\<close> again when nothing is appended.\<close>

definition append_opaque :: "bytes option \<Rightarrow> bytes \<Rightarrow> bytes option" where
  "append_opaque opq d = (case opq of Some b \<Rightarrow> Some (b @ d) | None \<Rightarrow> if d = [] then None else Some d)"

definition readOpaque :: "node \<Rightarrow> node wb_reader" where
  "readOpaque n r =
     bindr (read_mbUint r) (\<lambda>(l, r).
     bindr (wb_take (unat l) r) (\<lambda>(data, r).
     Inr (Node (NTag n) (Children n) (Text n) (append_opaque (OpaqueData n) data), r)))"

definition add_child :: "node \<Rightarrow> node \<Rightarrow> node" where
  "add_child n c = Node (NTag n) (Children n @ [c]) (Text n) (OpaqueData n)"

text \<open>The code page is a pointer the whole descent shares: it is returned with the node.\<close>

fun element :: "nat \<Rightarrow> u8 \<Rightarrow> nat \<Rightarrow> (node \<times> u8) wb_reader"
  and readContent :: "nat \<Rightarrow> node \<Rightarrow> u8 \<Rightarrow> nat \<Rightarrow> (node \<times> u8) wb_reader" where
  "element 0 page depth r = Inl ErrFuel"
| "element (Suc k) page depth r =
     (if depth > maxNestingDepth then Inl ErrTooDeep
      else
        bindr (skipSwitchPages page r) (\<lambda>(page, r).
        bindr (startTag page r) (\<lambda>((n, hasContent), r).
          if \<not> hasContent then Inr ((n, page), r) else readContent k n page depth r)))"
| "readContent 0 n page depth r = Inl ErrFuel"
| "readContent (Suc k) n page depth r =
     bindr (peek r) (\<lambda>b.
       if b = gEnd then Inr ((n, page), tl r)
       else if b = gStrI then bindr (readString n (tl r)) (\<lambda>(n, r). readContent k n page depth r)
       else if b = gOpaque then bindr (readOpaque n (tl r)) (\<lambda>(n, r). readContent k n page depth r)
       else bindr (element k page (depth + 1) r) (\<lambda>((child, page), r). readContent k (add_child n child) page depth r))"

definition Element :: "u8 \<Rightarrow> nat \<Rightarrow> (node \<times> u8) wb_reader" where
  "Element page depth r = element (2 * length r + 1) page depth r"

definition ReadContent :: "node \<Rightarrow> u8 \<Rightarrow> nat \<Rightarrow> (node \<times> u8) wb_reader" where
  "ReadContent n page depth r = readContent (2 * length r + 2) n page depth r"

fun header_fields :: "u32 list \<Rightarrow> unit wb_reader" where
  "header_fields [] r = Inr ((), r)"
| "header_fields (want # ws) r =
     bindr (read_mbUint r) (\<lambda>(got, r). if got \<noteq> want then Inl ErrFormat else header_fields ws r)"

definition Unmarshal :: "bytes \<Rightarrow> wbxml_error + node" where
  "Unmarshal b =
     bindr (readByte b) (\<lambda>(v, r).
       if v \<noteq> wbxml_version then Inl ErrFormat
       else
         bindr (header_fields [publicID, charsetUTF8, stringTableLen] r) (\<lambda>(_, r).
         bindr (Element PageAirSync 0 r) (\<lambda>((n, page), r). Inr n)))"

section \<open>Every read moves the cursor forward\<close>

lemma reads_simps [simp]:
  "readByte [] = Inl ErrUnderflow" "readByte (b # r) = Inr (b, r)"
  "peek [] = Inl ErrUnderflow" "peek (b # r) = Inr b"
  by (simp_all add: readByte_def peek_def wb_need_def)

lemma mb_loop_shrinks: "mb_loop k v r = Inr (w, r') \<Longrightarrow> length r' < length r"
proof (induction k arbitrary: v r)
  case (Suc k)
  then show ?case by (cases r) (fastforce simp: Let_def split: if_splits)+
qed simp

lemma cstr_shrinks: "cstr r = Inr (s, r') \<Longrightarrow> length r' < length r"
  by (induction r arbitrary: s) (fastforce split: if_splits)+

lemma skipSwitchPages_shrinks: "skipSwitchPages page r = Inr (p, r') \<Longrightarrow> length r' \<le> length r"
  by (induction page r rule: skipSwitchPages.induct) (fastforce split: if_splits list.splits)+

lemma startTag_shrinks: "startTag page r = Inr (x, r') \<Longrightarrow> length r' < length r"
  by (cases r) (auto simp: startTag_def split: if_splits)

lemma readString_shrinks: "readString n r = Inr (m, r') \<Longrightarrow> length r' < length r"
  by (auto simp: readString_def dest: cstr_shrinks)

lemma readOpaque_shrinks: "readOpaque n r = Inr (m, r') \<Longrightarrow> length r' < length r"
  by (auto simp: readOpaque_def read_mbUint_def wb_take_def wb_need_def dest!: mb_loop_shrinks split: if_splits)

lemmas shrinks = readString_shrinks readOpaque_shrinks startTag_shrinks skipSwitchPages_shrinks

lemma descent_shrinks:
  "element k page depth r = Inr (x, r') \<Longrightarrow> length r' < length r"
  "readContent k n page depth r = Inr (x, r') \<Longrightarrow> length r' < length r"
proof (induction k arbitrary: page depth n r x r' and page depth n r x r')
  case (Suc k)
  { case 1
    then show ?case
      by (fastforce split: if_splits dest!: shrinks(3,4) Suc.IH(2))
  next
    case 2
    then obtain b r1 where r: "r = b # r1" by (cases r) auto
    show ?case using 2 unfolding r
      by (fastforce split: if_splits dest!: shrinks(1,2) Suc.IH)
  }
qed simp_all

section \<open>The recursion bound is enough\<close>

lemma no_fuel_mb: "mb_loop k v r \<noteq> Inl ErrFuel"
proof (induction k arbitrary: v r)
  case (Suc k)
  then show ?case by (cases r) (auto simp: Let_def)
qed simp

lemma no_fuel_cstr: "cstr r \<noteq> Inl ErrFuel"
  by (induction r) (auto simp: bindr_eq_Inl_iff)

lemma no_fuel_skip: "skipSwitchPages page r \<noteq> Inl ErrFuel"
  by (induction page r rule: skipSwitchPages.induct) (auto split: list.splits)

lemma no_fuel_step:
  "startTag page r \<noteq> Inl ErrFuel" "readString n r \<noteq> Inl ErrFuel" "readOpaque n r \<noteq> Inl ErrFuel" "peek r \<noteq> Inl ErrFuel"
  by (cases r; auto simp: startTag_def readString_def readOpaque_def read_mbUint_def wb_take_def wb_need_def
      bindr_eq_Inl_iff no_fuel_mb no_fuel_cstr split: if_splits)+

text \<open>One more unit of fuel changes nothing once there is enough.\<close>

lemma descent_fuel:
  "2 * length r + 1 \<le> k \<Longrightarrow> element k page depth r \<noteq> Inl ErrFuel \<and> element (Suc k) page depth r = element k page depth r"
  "2 * length r + 2 \<le> k \<Longrightarrow> readContent k n page depth r \<noteq> Inl ErrFuel \<and> readContent (Suc k) n page depth r = readContent k n page depth r"
proof (induction k arbitrary: page depth n r and page depth n r)
  case (Suc k)
  { case 1
    have ih: "readContent k n p depth r2 \<noteq> Inl ErrFuel \<and> readContent (Suc k) n p depth r2 = readContent k n p depth r2"
      if "skipSwitchPages page r = Inr (p, r1)" "startTag p r1 = Inr (x, r2)" for p r1 x r2 n
    proof (rule Suc.IH(2))
      have "length r2 < length r" using shrinks(3) [OF that(2)] shrinks(4) [OF that(1)] by simp
      then show "2 * length r2 + 2 \<le> k" using 1 by linarith
    qed
    show ?case
      by (auto simp: bindr_eq_Inl_iff no_fuel_skip no_fuel_step simp del: readContent.simps(2) intro!: bindr_cong dest: ih)
  next
    case 2
    show ?case
    proof (cases r)
      case (Cons b r1)
      have lp: "readContent k m p depth r2 \<noteq> Inl ErrFuel \<and> readContent (Suc k) m p depth r2 = readContent k m p depth r2"
        if "length r2 < length r" for m p r2
        by (rule Suc.IH(2)) (use that 2 in linarith)
      have el: "element k page (Suc depth) r \<noteq> Inl ErrFuel \<and> element (Suc k) page (Suc depth) r = element k page (Suc depth) r"
        by (rule Suc.IH(1)) (use 2 in linarith)
      have st: "readString n r1 = Inr (m, r2) \<Longrightarrow> length r2 < length r" "readOpaque n r1 = Inr (m, r2) \<Longrightarrow> length r2 < length r"
        "element k page (Suc depth) r = Inr (x, r2) \<Longrightarrow> length r2 < length r" for m r2 x
        using shrinks(1,2) [of n r1 m r2] descent_shrinks(1) [of k page "Suc depth" r x r2] by (auto simp: Cons)
      have "readContent (Suc k) n page depth r \<noteq> Inl ErrFuel"
        using el lp st by (auto simp: Cons bindr_eq_Inl_iff no_fuel_step)
      moreover have "readContent (Suc (Suc k)) n page depth r = readContent (Suc k) n page depth r"
        unfolding readContent.simps(2) [of "Suc k" n] readContent.simps(2) [of k n]
        by (intro bindr_cong if_cong refl)
          (use el lp st in \<open>auto simp: Cons simp del: element.simps readContent.simps intro!: bindr_cong\<close>)
      ultimately show ?thesis ..
    qed simp
  }
qed simp_all

lemma enough_fuel:
  "2 * length r + 1 \<le> k \<Longrightarrow> element k page depth r = Element page depth r"
  "2 * length r + 2 \<le> k \<Longrightarrow> readContent k n page depth r = ReadContent n page depth r"
proof -
  show "element k page depth r = Element page depth r" if "2 * length r + 1 \<le> k"
    using that by (induction k rule: dec_induct) (simp_all add: Element_def descent_fuel(1) del: element.simps)
  show "readContent k n page depth r = ReadContent n page depth r" if "2 * length r + 2 \<le> k"
    using that by (induction k rule: dec_induct) (simp_all add: ReadContent_def descent_fuel(2) del: readContent.simps)
qed

text \<open>The recursion equations of \<^verbatim>\<open>element\<close> and \<^verbatim>\<open>readContent\<close> as the source has them.\<close>

lemma Element_eq:
  "Element page depth r =
     (if depth > maxNestingDepth then Inl ErrTooDeep
      else
        bindr (skipSwitchPages page r) (\<lambda>(page, r).
        bindr (startTag page r) (\<lambda>((n, hasContent), r).
          if \<not> hasContent then Inr ((n, page), r) else ReadContent n page depth r)))"
proof -
  have "readContent (2 * length r) n p depth r2 = ReadContent n p depth r2"
    if "skipSwitchPages page r = Inr (p, r1)" "startTag p r1 = Inr (x, r2)" for p r1 x r2 n
    by (rule enough_fuel(2)) (use shrinks(3) [OF that(2)] shrinks(4) [OF that(1)] in simp)
  then show ?thesis
    by (auto simp: Element_def intro!: bindr_cong)
qed

lemma ReadContent_eq:
  "ReadContent n page depth r =
     bindr (peek r) (\<lambda>b.
       if b = gEnd then Inr ((n, page), tl r)
       else if b = gStrI then bindr (readString n (tl r)) (\<lambda>(n, r). ReadContent n page depth r)
       else if b = gOpaque then bindr (readOpaque n (tl r)) (\<lambda>(n, r). ReadContent n page depth r)
       else bindr (Element page (depth + 1) r) (\<lambda>((child, page), r). ReadContent (add_child n child) page depth r))"
proof (cases r)
  case (Cons b r1)
  let ?k = "2 * length r + 1"
  have lp: "readContent ?k m p depth r2 = ReadContent m p depth r2" if "length r2 < length r" for m p r2
    by (rule enough_fuel(2)) (use that in linarith)
  have el: "element ?k page (Suc depth) r = Element page (Suc depth) r"
    by (rule enough_fuel(1)) simp
  have st: "readString n r1 = Inr (m, r2) \<Longrightarrow> length r2 < length r" "readOpaque n r1 = Inr (m, r2) \<Longrightarrow> length r2 < length r"
    "Element page (Suc depth) r = Inr (x, r2) \<Longrightarrow> length r2 < length r" for m r2 x
    using shrinks(1,2) [of n r1 m r2] descent_shrinks(1) [of ?k page "Suc depth" r x r2] el by (auto simp: Cons)
  have "ReadContent n page depth r = readContent (Suc ?k) n page depth r" by (simp add: ReadContent_def del: readContent.simps)
  then show ?thesis unfolding readContent.simps(2) [of ?k n]
    using lp el st by (auto simp: Cons simp del: element.simps readContent.simps intro!: bindr_cong)
qed (simp add: ReadContent_def)

lemma no_fuel_descent: "Element page depth r \<noteq> Inl ErrFuel" "ReadContent n page depth r \<noteq> Inl ErrFuel"
  using descent_fuel(1) [of r "2 * length r + 1" page depth] descent_fuel(2) [of r "2 * length r + 2" n page depth]
  by (simp_all add: Element_def ReadContent_def del: element.simps readContent.simps)

section \<open>Multi-byte integers\<close>

lemma mb_shift: "unat (drop_bit 7 v) = unat (v :: u32) div 128"
  by (simp only: unat_drop_bit_eq) (simp add: drop_bit_eq_div)

lemma mb_stack_append: "mb_stack st v = st @ mb_stack [] v"
proof (induction "unat v" arbitrary: st v rule: less_induct)
  case less
  show ?case
  proof (cases "v > 0")
    case True
    then have "unat (drop_bit 7 v) < unat v" by (simp only: mb_shift) (simp add: unat_gt_0 word_gt_0)
    from less [OF this] have "mb_stack (xs @ [ucast (v AND 0x7F) OR 0x80]) (drop_bit 7 v)
        = xs @ [ucast (v AND 0x7F) OR 0x80] @ mb_stack [] (drop_bit 7 v)" for xs
      by (metis append_assoc)
    from this [of st] this [of "[]"] show ?thesis using True by (simp add: mb_stack.simps [of st v] mb_stack.simps [of "[]" v])
  qed (simp add: mb_stack.simps)
qed

lemma mb_stack_length: "unat v < 128 ^ m \<Longrightarrow> length (mb_stack [] v) \<le> m"
proof (induction m arbitrary: v)
  case (Suc m)
  have "unat (drop_bit 7 v) < 128 ^ m"
    using Suc.prems by (simp only: unat_drop_bit_eq) (simp add: drop_bit_eq_div less_mult_imp_div_less mult.commute)
  from Suc.IH [OF this] show ?case
    by (simp add: mb_stack.simps [of "[]" v] mb_stack_append [of "[_]"])
next
  case 0
  then have "v = 0" by (simp add: unat_eq_0)
  then show ?case by (simp add: mb_stack.simps)
qed

lemma mb_bits:
  "push_bit 7 (drop_bit 7 v) OR ucast ((ucast (v AND 0x7F) OR 0x80 :: u8) AND 0x7F) = (v :: u32)"
  "push_bit 7 (drop_bit 7 v) OR ucast ((ucast (v AND 0x7F) :: u8) AND 0x7F) = (v :: u32)"
  "(ucast (v AND 0x7F) OR 0x80 :: u8) AND 0x80 \<noteq> 0" "(ucast (v AND 0x7F) :: u8) AND 0x80 = 0"
proof -
  let ?b = "ucast (v AND 0x7F) :: u8"
  have m: "(0x7F :: u32) = mask 7" "(0x7F :: u8) = mask 7" by (simp_all add: mask_eq_exp_minus_1)
  have c: "?b AND 0x7F = ?b" "?b AND 0x80 = 0"
  proof -
    show 7: "?b AND 0x7F = ?b" unfolding m by (rule bit_word_eqI) (auto simp: bit_simps)
    have "?b AND 0x80 = (?b AND 0x7F) AND 0x80" by (simp only: 7)
    also have "\<dots> = ?b AND (0x7F AND 0x80)" by (simp only: and.assoc)
    finally show "?b AND 0x80 = 0" by simp
  qed
  show 2: "push_bit 7 (drop_bit 7 v) OR ucast (?b AND 0x7F) = v" unfolding c(1) unfolding m
  proof (rule bit_word_eqI)
    fix n assume "n < LENGTH(32)"
    then show "bit (push_bit 7 (drop_bit 7 v) OR ucast (ucast (v AND mask 7) :: u8)) n = bit v n"
      by (cases "n < 7") (auto simp: bit_simps)
  qed
  have "(?b OR 0x80) AND 0x7F = ?b AND 0x7F" by (simp add: bit.conj_disj_distrib2)
  then show "push_bit 7 (drop_bit 7 v) OR ucast ((?b OR 0x80) AND 0x7F) = v" using 2 by simp
  have "(?b OR 0x80) AND 0x80 = 0x80" using c(2) by (simp add: bit.conj_disj_distrib2)
  then show "(?b OR 0x80) AND 0x80 \<noteq> 0" by simp
  show "?b AND 0x80 = 0" by (rule c)
qed

lemma mb_loop_stack:
  "length (mb_stack [] v) \<le> k \<Longrightarrow> mb_loop k 0 (rev (mb_stack [] v) @ r) = mb_loop (k - length (mb_stack [] v)) v r"
proof (induction "unat v" arbitrary: v r rule: less_induct)
  case less
  show ?case
  proof (cases "v > 0")
    case True
    let ?c = "ucast (v AND 0x7F) OR 0x80 :: u8"
    have st: "mb_stack [] v = ?c # mb_stack [] (drop_bit 7 v)"
      using True by (simp add: mb_stack.simps [of "[]" v] mb_stack_append [of "[_]"])
    have "unat (drop_bit 7 v) < unat v" using True by (simp only: mb_shift) (simp add: unat_gt_0 word_gt_0)
    from less.hyps [OF this, of "?c # r"] less.prems
    have "mb_loop k 0 (rev (mb_stack [] v) @ r) = mb_loop (k - length (mb_stack [] (drop_bit 7 v))) (drop_bit 7 v) (?c # r)"
      by (simp add: st)
    moreover obtain j where j: "k - length (mb_stack [] (drop_bit 7 v)) = Suc j" "k - length (mb_stack [] v) = j"
      using less.prems by (cases "k - length (mb_stack [] (drop_bit 7 v))") (auto simp: st)
    ultimately show ?thesis unfolding j using mb_bits [of v] by (simp add: Let_def)
  next
    case False
    then have "mb_stack [] v = []" "v = 0" by (simp_all add: mb_stack.simps word_gt_0)
    then show ?thesis by simp
  qed
qed

lemma mbUint_roundtrip: "read_mbUint (write_mbUint [] v @ r) = Inr (v, r)"
proof -
  have "unat v < 2 ^ 32" using unsigned_less [of v] by simp
  then have "unat (drop_bit 7 v) < 128 ^ 4" by (simp only: mb_shift) simp
  then have l: "length (mb_stack [] (drop_bit 7 v)) \<le> 4" by (rule mb_stack_length)
  then obtain j where j: "5 - length (mb_stack [] (drop_bit 7 v)) = Suc j" by (cases "5 - length (mb_stack [] (drop_bit 7 v))") auto
  show ?thesis unfolding read_mbUint_def write_mbUint_def mb_stack_append [of "[_]"]
    using mb_loop_stack [of "drop_bit 7 v" 5 "ucast (v AND 0x7F) # r"] l j mb_bits [of v] by (simp add: Let_def)
qed

section \<open>Round trip\<close>

text \<open>Trees the wire can carry: tag tokens between 5 and 63, opaque items within the length field, bounded nesting.\<close>

fun wb_ok :: "nat \<Rightarrow> node \<Rightarrow> bool" where
  "wb_ok d (Node t cs text opq) \<longleftrightarrow>
     d \<le> maxNestingDepth \<and> 5 \<le> TagToken t \<and> TagToken t < cbContent \<and> list_all (wb_ok (Suc d)) cs
     \<and> (case opq of Some b \<Rightarrow> length b < 2 ^ 32 | None \<Rightarrow> True)"

text \<open>What the encoder keeps of a node: children before opaque data before text, and text without its NULs.\<close>

fun canon :: "node \<Rightarrow> node" where
  "canon (Node t cs text opq) =
     (if cs \<noteq> [] then Node t (map canon cs) [] None
      else (case opq of
        Some b \<Rightarrow> Node t [] [] (append_opaque None b)
      | None \<Rightarrow> Node t [] (filter (\<lambda>c. c \<noteq> 0) text) None))"

lemma token_bits:
  assumes "5 \<le> tok" "tok < (0x40 :: u8)"
  shows "tok AND 0x3F = tok" "tok AND 0x80 = 0" "tok AND 0x40 = 0"
    "(tok OR 0x40) AND 0x3F = tok" "(tok OR 0x40) AND 0x80 = 0" "(tok OR 0x40) AND 0x40 = 0x40"
    "tok \<notin> {0, 1, 3, 0xC3}" "tok OR 0x40 \<notin> {0, 1, 3, 0xC3}"
proof -
  have "tok AND mask 6 = tok" using assms(2) by (simp add: less_mask_eq)
  then show 1: "tok AND 0x3F = tok" by (simp add: mask_eq_exp_minus_1)
  have a: "tok AND m = tok AND (0x3F AND m)" for m
  proof -
    have "tok AND m = (tok AND 0x3F) AND m" by (simp only: 1)
    then show ?thesis by (simp only: and.assoc)
  qed
  show 2: "tok AND 0x80 = 0" "tok AND 0x40 = 0" by (subst a, simp)+
  show 3: "(tok OR 0x40) AND 0x3F = tok" "(tok OR 0x40) AND 0x80 = 0" "(tok OR 0x40) AND 0x40 = 0x40"
    using 1 2 by (simp_all add: bit.conj_disj_distrib2)
  have 4: "tok \<noteq> 0" "tok \<noteq> 1" "tok \<noteq> 3" "tok \<noteq> 0xC3" using assms by (auto simp: word_le_nat_alt word_less_nat_alt)
  then show "tok \<notin> {0, 1, 3, 0xC3}" by simp
  have 5: "tok OR 0x40 \<noteq> c" if "c AND 0x40 \<noteq> 0x40 \<or> c AND 0x80 \<noteq> 0" for c :: u8 using 3(2,3) that by blast
  have "tok OR 0x40 \<noteq> 0" "tok OR 0x40 \<noteq> 1" "tok OR 0x40 \<noteq> 3" "tok OR 0x40 \<noteq> 0xC3" by (rule 5, simp)+
  then show "tok OR 0x40 \<notin> {0, 1, 3, 0xC3}" by blast
qed

lemma tag_compose: "push_bit 8 (ucast (TagPage t)) OR ucast (TagToken t) = t"
proof (rule bit_word_eqI)
  fix n assume "n < LENGTH(16)"
  then show "bit (push_bit 8 (ucast (TagPage t)) OR ucast (TagToken t) :: tag) n = bit t n"
    by (cases "n < 8") (auto simp: bit_simps TagPage_def TagToken_def)
qed

definition page_switch :: "u8 \<Rightarrow> tag \<Rightarrow> bytes" where
  "page_switch page t = (if TagPage t \<noteq> page then [gSwitchPage, TagPage t] else [])"

lemma open_tag:
  assumes "5 \<le> TagToken t" "TagToken t < cbContent" "d \<le> maxNestingDepth"
  shows "Element page d (page_switch page t @ TagToken t # r) = Inr ((Node t [] [] None, TagPage t), r)"
    "Element page d (page_switch page t @ (TagToken t OR cbContent) # r) = ReadContent (Node t [] [] None) (TagPage t) d r"
  using token_bits [OF assms(1,2)] assms(3) tag_compose [of t]
  by (auto simp: Element_eq page_switch_def startTag_def)

lemma write_elements_append:
  assumes "\<And>c buf page. c \<in> set cs \<Longrightarrow> write_element c (a @ buf) page = (a @ fst (write_element c buf page), snd (write_element c buf page))"
  shows "write_elements cs (a @ buf) page = (a @ fst (write_elements cs buf page), snd (write_elements cs buf page))"
  using assms by (induction cs arbitrary: buf page) (simp_all add: case_prod_beta)

lemma write_append:
  "write_element n (a @ buf) page = (a @ fst (write_element n buf page), snd (write_element n buf page))"
proof (induction n arbitrary: buf page)
  case (Node t cs s opq)
  note ws = write_elements_append [of cs a, OF Node]
  show ?case
    by (simp add: Let_def case_prod_beta ws [of "_ @ _", unfolded append_assoc] ws [of "_ # _"] strI_def write_mbUint_def split: option.splits)
qed

lemmas write_appends = write_append [of _ buf "[]" for buf, simplified]
  write_elements_append [of _ buf "[]" for buf, OF write_append, simplified]

text \<open>The bytes of a tree and of a child list from a given code page, and the page they leave.\<close>

definition enc :: "node \<Rightarrow> u8 \<Rightarrow> bytes" where
  "enc n page = fst (write_element n [] page)"

definition encs :: "node list \<Rightarrow> u8 \<Rightarrow> bytes" where
  "encs cs page = fst (write_elements cs [] page)"

definition last_page :: "node \<Rightarrow> u8 \<Rightarrow> u8" where
  "last_page n page = snd (write_element n [] page)"

definition last_pages :: "node list \<Rightarrow> u8 \<Rightarrow> u8" where
  "last_pages cs page = snd (write_elements cs [] page)"

lemma enc_Node:
  "enc (Node t cs s opq) page = page_switch page t @
     (if cs \<noteq> [] then (TagToken t OR cbContent) # encs cs (TagPage t) @ [gEnd]
      else (case opq of
        Some b \<Rightarrow> (TagToken t OR cbContent) # gOpaque # write_mbUint [] (of_nat (length b)) @ b @ [gEnd]
      | None \<Rightarrow> if s \<noteq> [] then (TagToken t OR cbContent) # gStrI # filter (\<lambda>c. c \<noteq> 0) s @ [0, gEnd] else [TagToken t]))"
  "last_page (Node t cs s opq) page = (if cs \<noteq> [] then last_pages cs (TagPage t) else TagPage t)"
  by (auto simp: enc_def encs_def last_page_def last_pages_def page_switch_def case_prod_beta Let_def write_mbUint_def strI_def
      write_appends(2) [where buf = "_ # _"] split: option.splits)

lemma encs_simps:
  "encs [] page = []" "encs (c # cs) page = enc c page @ encs cs (last_page c page)"
  "last_pages [] page = page" "last_pages (c # cs) page = last_pages cs (last_page c page)"
  by (simp_all add: enc_def encs_def last_page_def last_pages_def case_prod_beta write_appends(2) [where buf = "fst _"])

lemma cstr_text: "cstr (filter (\<lambda>c. c \<noteq> 0) s @ 0 # r) = Inr (filter (\<lambda>c. c \<noteq> 0) s, r)"
  by (induction s) auto

text \<open>An encoded element does not start with a token that ends or extends the content of its parent.\<close>

lemma enc_head:
  assumes "wb_ok d n"
  shows "enc n page \<noteq> [] \<and> hd (enc n page) \<notin> {gEnd, gStrI, gOpaque}"
proof (cases n)
  case (Node t cs s opq)
  then have "5 \<le> TagToken t" "TagToken t < cbContent" using assms by auto
  then show ?thesis using token_bits(7,8) [of "TagToken t"]
    by (auto simp: Node enc_Node page_switch_def split: option.splits)
qed

lemma tree_children_trip:
  assumes "\<And>c page rest. c \<in> set cs \<Longrightarrow> Element page (Suc d) (enc c page @ rest) = Inr ((canon c, last_page c page), rest)"
    "list_all (wb_ok (Suc d)) cs"
  shows "ReadContent n page d (encs cs page @ gEnd # rest)
    = Inr ((Node (NTag n) (Children n @ map canon cs) (Text n) (OpaqueData n), last_pages cs page), rest)"
  using assms
proof (induction cs arbitrary: n page)
  case Nil
  then show ?case by (simp add: ReadContent_eq [of n] encs_simps)
next
  case (Cons c cs)
  have el: "Element page (Suc d) (enc c page @ encs cs (last_page c page) @ gEnd # rest)
      = Inr ((canon c, last_page c page), encs cs (last_page c page) @ gEnd # rest)"
    using Cons.prems(1) by simp
  obtain b r where b: "enc c page = b # r" "b \<notin> {gEnd, gStrI, gOpaque}" using enc_head [of "Suc d" c page] Cons.prems(2) by (cases "enc c page") auto
  have "ReadContent (add_child n (canon c)) (last_page c page) d (encs cs (last_page c page) @ gEnd # rest)
      = Inr ((Node (NTag n) (Children n @ map canon (c # cs)) (Text n) (OpaqueData n), last_pages (c # cs) page), rest)"
    using Cons.IH [of "add_child n (canon c)" "last_page c page"] Cons.prems by (simp add: add_child_def encs_simps)
  then show ?case using el b by (simp add: ReadContent_eq [of n] encs_simps)
qed

lemma element_trip:
  "wb_ok d n \<Longrightarrow> Element page d (enc n page @ rest) = Inr ((canon n, last_page n page), rest)"
proof (induction n arbitrary: d page rest)
  case (Node t cs s opq)
  have ok: "5 \<le> TagToken t" "TagToken t < cbContent" "d \<le> maxNestingDepth" "list_all (wb_ok (Suc d)) cs" using Node.prems by auto
  note open1 = open_tag [OF ok(1-3)]
  have kids: "ReadContent (Node t [] [] None) (TagPage t) d (encs cs (TagPage t) @ gEnd # rest)
      = Inr ((Node t (map canon cs) [] None, last_pages cs (TagPage t)), rest)"
    using tree_children_trip [of cs d "Node t [] [] None" "TagPage t" rest] Node.IH ok(4) by (simp add: list_all_iff)
  have opq: "ReadContent (Node t [] [] None) (TagPage t) d (gOpaque # write_mbUint [] (of_nat (length b)) @ b @ gEnd # rest)
      = Inr ((Node t [] [] (append_opaque None b), TagPage t), rest)" if "opq = Some b" for b
  proof -
    have u: "unat (of_nat (length b) :: u32) = length b" using Node.prems that by (intro unat_of_nat_less) simp
    show ?thesis using mbUint_roundtrip [of "of_nat (length b)" "b @ gEnd # rest"] u
      by (simp add: ReadContent_eq [of "Node t [] [] None"] ReadContent_eq [of "Node t [] [] (append_opaque _ _)"]
          readOpaque_def wb_take_def wb_need_def)
  qed
  have str: "ReadContent (Node t [] [] None) (TagPage t) d (gStrI # filter (\<lambda>c. c \<noteq> 0) s @ 0 # gEnd # rest)
      = Inr ((Node t [] (filter (\<lambda>c. c \<noteq> 0) s) None, TagPage t), rest)"
    by (simp add: ReadContent_eq [of "Node t [] [] None"] ReadContent_eq [of "Node t [] (filter _ _) None"] readString_def cstr_text)
  show ?case using kids opq str by (auto simp: enc_Node open1 split: option.splits)
qed

text \<open>Trees with one form of content per node, none of it empty, and no NUL in a string.\<close>

fun tidy :: "node \<Rightarrow> bool" where
  "tidy (Node t cs text opq) \<longleftrightarrow>
     (if cs \<noteq> [] then text = [] \<and> opq = None \<and> list_all tidy cs
      else (case opq of Some b \<Rightarrow> text = [] \<and> b \<noteq> [] | None \<Rightarrow> 0 \<notin> set text))"

lemma canon_tidy: "tidy n \<Longrightarrow> canon n = n"
proof (induction n)
  case (Node t cs s opq)
  then show ?case
    by (auto simp: append_opaque_def list_all_iff filter_id_conv split: if_splits option.splits intro!: map_idI)
qed

lemma header_trip:
  "header_fields [publicID, charsetUTF8, stringTableLen]
     (write_mbUint [] publicID @ write_mbUint [] charsetUTF8 @ write_mbUint [] stringTableLen @ r) = Inr ((), r)"
  by (simp add: mbUint_roundtrip)

lemma Marshal_enc:
  "Marshal (Some n) = wbxml_version # write_mbUint [] publicID @ write_mbUint [] charsetUTF8 @ write_mbUint [] stringTableLen @ enc n PageAirSync"
  by (simp add: Marshal_def Let_def write_appends(1) [where buf = "write_mbUint _ _"] enc_def)
    (simp add: write_mbUint_def)

lemma Unmarshal_Marshal: "wb_ok 0 n \<Longrightarrow> Unmarshal (Marshal (Some n) @ rest) = Inr (canon n)"
  using header_trip [of "enc n PageAirSync @ rest"] element_trip [of 0 n PageAirSync rest]
  by (simp add: Unmarshal_def Marshal_enc)

section \<open>Nesting\<close>

fun within :: "nat \<Rightarrow> node \<Rightarrow> bool" where
  "within d (Node t cs text opq) \<longleftrightarrow> d \<le> maxNestingDepth \<and> list_all (within (Suc d)) cs"

lemma within_Node: "within d n \<longleftrightarrow> d \<le> maxNestingDepth \<and> list_all (within (Suc d)) (Children n)"
  by (cases n) simp

lemma descent_within:
  "element k page d r = Inr ((m, p), r') \<Longrightarrow> within d m"
  "readContent k n page d r = Inr ((m, p), r') \<Longrightarrow> within d n \<Longrightarrow> within d m"
proof (induction k arbitrary: page d r m p r' n and page d r m p r' n)
  case (Suc k)
  { case 1
    then show ?case
      by (auto simp: startTag_def split: if_splits dest!: Suc.IH(2))
  next
    case 2
    then obtain b r1 where r: "r = b # r1" by (cases r) auto
    show ?case using 2 unfolding r
      by (fastforce split: if_splits simp: readString_def readOpaque_def add_child_def within_Node dest: Suc.IH)
  }
qed simp_all

section \<open>Properties\<close>

text \<open>
  C6. Every element tree whose tags have proper tokens, whose opaque items fit their length field and
  whose nesting is within the decoder's limit is decoded from its encoding, whatever follows it: the
  decoder returns the tree with the content the encoder prefers (children, then opaque data, then text
  without its NUL characters), and so the tree itself when each node has one form of content.
\<close>

theorem wbxml_roundtrip:
  assumes "wb_ok 0 n"
  shows "Unmarshal (Marshal (Some n) @ rest) = Inr (canon n) \<and> (tidy n \<longrightarrow> canon n = n)"
  using Unmarshal_Marshal [OF assms] canon_tidy by blast

theorem wbxml_roundtrip_witness:
  "Unmarshal (Marshal (Some (Elem 0x0005 [Str 0x000B [0x31], Elem 0x1117 [Opaque 0x1118 [1, 0, 1]], Empty 0x0013])) @ [9])
     = Inr (Elem 0x0005 [Str 0x000B [0x31], Elem 0x1117 [Opaque 0x1118 [1, 0, 1]], Empty 0x0013])"
proof -
  let ?n = "Elem 0x0005 [Str 0x000B [0x31], Elem 0x1117 [Opaque 0x1118 [1, 0, 1]], Empty 0x0013]"
  have "wb_ok 0 ?n" "tidy ?n" by (simp_all add: Elem_def Str_def Opaque_def Empty_def TagToken_def)
  from wbxml_roundtrip [OF this(1), of "[9]"] this(2) show ?thesis by simp
qed

text \<open>
  C7. The decoder ends on every input: the recursion bound is never reached and the two recursive
  functions satisfy the equations of the source; a document it accepts nests at most 64 levels below the
  root, so the stack the decoding needs is bounded.
\<close>

theorem wbxml_decoder_total:
  "Unmarshal b \<noteq> Inl ErrFuel
   \<and> (Unmarshal b = Inr n \<longrightarrow> within 0 n)
   \<and> Element page depth r =
       (if depth > maxNestingDepth then Inl ErrTooDeep
        else
          bindr (skipSwitchPages page r) (\<lambda>(page, r).
          bindr (startTag page r) (\<lambda>((n, hasContent), r).
            if \<not> hasContent then Inr ((n, page), r) else ReadContent n page depth r)))
   \<and> ReadContent m page depth r =
       bindr (peek r) (\<lambda>b.
         if b = gEnd then Inr ((m, page), tl r)
         else if b = gStrI then bindr (readString m (tl r)) (\<lambda>(m, r). ReadContent m page depth r)
         else if b = gOpaque then bindr (readOpaque m (tl r)) (\<lambda>(m, r). ReadContent m page depth r)
         else bindr (Element page (depth + 1) r) (\<lambda>((child, page), r). ReadContent (add_child m child) page depth r))"
proof (intro conjI impI Element_eq ReadContent_eq)
  have "read_mbUint r \<noteq> Inl ErrFuel" for r by (simp add: read_mbUint_def no_fuel_mb)
  then show "Unmarshal b \<noteq> Inl ErrFuel"
    by (cases b) (auto simp: Unmarshal_def bindr_eq_Inl_iff no_fuel_descent(1))
  assume "Unmarshal b = Inr n"
  then show "within 0 n" by (auto simp: Unmarshal_def Element_def split: if_splits dest!: descent_within(1) simp del: element.simps)
qed

theorem wbxml_decoder_total_witness:
  "Unmarshal [3, 1] \<noteq> Inl ErrFuel \<and> within 0 (Elem 5 [Elem 5 [Empty 5]])"
proof -
  let ?n = "Elem 5 [Elem 5 [Empty 5]]"
  have "wb_ok 0 ?n" "tidy ?n" by (simp_all add: Elem_def Empty_def TagToken_def)
  then have "Unmarshal (Marshal (Some ?n)) = Inr ?n" using Unmarshal_Marshal [of ?n "[]"] canon_tidy [of ?n] by simp
  then show ?thesis
    using wbxml_decoder_total [of "Marshal (Some ?n)" ?n] wbxml_decoder_total [of "[3, 1]"] by blast
qed

text \<open>
  A five-byte integer carries 35 bits, of which the upper three are dropped: such a header field is
  accepted although its value is not the one required.
\<close>

lemma mbUint_wraps: "read_mbUint [0x90, 0x80, 0x80, 0x80, 0x6A] = Inr (charsetUTF8, [])"
proof -
  have "read_mbUint r = mb_loop (Suc (Suc (Suc (Suc (Suc 0))))) 0 r" for r by (simp add: read_mbUint_def numeral_eq_Suc)
  then show ?thesis by (simp add: Let_def)
qed

end
