(* ===== verification/Go_Strings.thy ===== *)
theory Go_Strings
  imports Go_Text "HOL-Library.Code_Target_Nat"
begin

text \<open>
  The functions of Go's \<^verbatim>\<open>strings\<close>, \<^verbatim>\<open>strconv\<close> and \<^verbatim>\<open>net\<close> packages the text-level components use,
  on byte strings. Case mapping follows the Unicode table of the runtime, which is a parameter
  (\<open>lower\<close>) wherever it is used.
\<close>

definition lit :: "string \<Rightarrow> go_string" where
  "lit s = map of_char s"

lemma lit_simps [simp]: "lit [] = []" "lit (c # cs) = of_char c # lit cs" "lit (a @ b) = lit a @ lit b"
  by (simp_all add: lit_def)

abbreviation (input) COLON :: u8 where "COLON \<equiv> 0x3A"
abbreviation (input) COMMA :: u8 where "COMMA \<equiv> 0x2C"

section \<open>strings\<close>

fun IndexByte :: "go_string \<Rightarrow> u8 \<Rightarrow> nat option" where
  "IndexByte [] c = None"
| "IndexByte (b # s) c = (if b = c then Some 0 else map_option Suc (IndexByte s c))"

definition LastIndexByte :: "go_string \<Rightarrow> u8 \<Rightarrow> nat option" where
  "LastIndexByte s c = map_option (\<lambda>i. length s - 1 - i) (IndexByte (rev s) c)"

text \<open>\<^verbatim>\<open>strings.Cut(s, sep)\<close> and \<^verbatim>\<open>strings.Split(s, sep)\<close> for a one-byte separator.\<close>

definition Cut :: "go_string \<Rightarrow> u8 \<Rightarrow> go_string \<times> go_string \<times> bool" where
  "Cut s c = (case IndexByte s c of None \<Rightarrow> (s, [], False) | Some i \<Rightarrow> (take i s, drop (Suc i) s, True))"

fun Split :: "go_string \<Rightarrow> u8 \<Rightarrow> go_string list" where
  "Split [] c = [[]]"
| "Split (b # s) c = (if b = c then [] # Split s c
     else (case Split s c of p # ps \<Rightarrow> (b # p) # ps | [] \<Rightarrow> [[b]]))"

definition isSpace :: "rune \<Rightarrow> bool" where
  "isSpace r \<longleftrightarrow> (0x09 \<le> r \<and> r \<le> 0x0D) \<or> r = 0x20 \<or> r = 0x85 \<or> r = 0xA0 \<or> r = 0x1680
     \<or> (0x2000 \<le> r \<and> r \<le> 0x200A) \<or> r = 0x2028 \<or> r = 0x2029 \<or> r = 0x202F \<or> r = 0x205F \<or> r = 0x3000"

fun trim_left :: "nat \<Rightarrow> go_string \<Rightarrow> go_string" where
  "trim_left n [] = []"
| "trim_left 0 s = s"
| "trim_left (Suc n) (b # s) =
     (case decode_rune b s of (r, k) \<Rightarrow> if isSpace r then trim_left n (drop (k - 1) s) else b # s)"

text \<open>
  The last rune of a byte string, when it is a space: every space is encoded in at most three
  bytes, of which only the first can start a rune.
\<close>

definition last_space_len :: "go_string \<Rightarrow> nat" where
  "last_space_len s =
     (let sp = (\<lambda>k. k \<le> length s \<and> (\<exists>r\<in>set (utf8_decode (drop (length s - k) s)). isSpace r)
                  \<and> length (utf8_decode (drop (length s - k) s)) = 1)
      in if sp 1 then 1 else if sp 2 then 2 else if sp 3 then 3 else 0)"

fun trim_right :: "nat \<Rightarrow> go_string \<Rightarrow> go_string" where
  "trim_right 0 s = s"
| "trim_right (Suc n) s =
     (let k = last_space_len s in if k = 0 then s else trim_right n (take (length s - k) s))"

definition TrimSpace :: "go_string \<Rightarrow> go_string" where
  "TrimSpace s = (let t = trim_left (length s) s in trim_right (length t) t)"

definition ToLower :: "(rune \<Rightarrow> rune) \<Rightarrow> go_string \<Rightarrow> go_string" where
  "ToLower lower s = utf8_encode (map lower (utf8_decode s))"

section \<open>strconv\<close>

definition is_digit :: "u8 \<Rightarrow> bool" where
  "is_digit b \<longleftrightarrow> 0x30 \<le> b \<and> b \<le> 0x39"

definition digits_value :: "go_string \<Rightarrow> nat" where
  "digits_value s = foldl (\<lambda>n b. 10 * n + (unat b - 0x30)) 0 s"

text \<open>\<^verbatim>\<open>strconv.ParseUint(s, 10, bits)\<close>: digits only, not empty, in range.\<close>

definition ParseUint :: "go_string \<Rightarrow> nat \<Rightarrow> nat option" where
  "ParseUint s bits =
     (if s = [] \<or> \<not> list_all is_digit s then None
      else if digits_value s < 2 ^ bits then Some (digits_value s) else None)"

text \<open>The decimal notation (\<^verbatim>\<open>strconv.FormatUint(n, 10)\<close>).\<close>

definition digit :: "nat \<Rightarrow> u8" where
  "digit d = of_nat (0x30 + d)"

fun decimal :: "nat \<Rightarrow> go_string" where
  "decimal n = (if n < 10 then [digit n] else decimal (n div 10) @ [digit (n mod 10)])"

declare decimal.simps [simp del]

section \<open>net\<close>

text \<open>\<^verbatim>\<open>net.SplitHostPort\<close>; every address error is \<open>None\<close>.\<close>

definition SplitHostPort :: "go_string \<Rightarrow> (go_string \<times> go_string) option" where
  "SplitHostPort hp =
     (case LastIndexByte hp COLON of
        None \<Rightarrow> None
      | Some i \<Rightarrow>
          (let after = (\<lambda>(host, j, k).
             if IndexByte (drop j hp) 0x5B \<noteq> None then None
             else if IndexByte (drop k hp) 0x5D \<noteq> None then None
             else Some (host, drop (Suc i) hp))
           in if hd hp = 0x5B
              then (case IndexByte hp 0x5D of
                      None \<Rightarrow> None
                    | Some e \<Rightarrow> if e + 1 = length hp then None
                        else if e + 1 = i then after (take (e - 1) (drop 1 hp), 1, e + 1)
                        else None)
              else if IndexByte (take i hp) COLON \<noteq> None then None
              else after (take i hp, 0, 0)))"

section \<open>Laws\<close>

lemma IndexByte_None [simp]: "IndexByte s c = None \<longleftrightarrow> c \<notin> set s"
  by (induction s) auto

lemma IndexByte_append: "c \<notin> set a \<Longrightarrow> IndexByte (a @ c # b) c = Some (length a)"
  by (induction a) auto

lemma IndexByte_Some: "IndexByte s c = Some i \<Longrightarrow> i < length s \<and> s ! i = c \<and> c \<notin> set (take i s)"
  by (induction s arbitrary: i) (auto split: if_splits simp: nth_Cons split: nat.splits)

lemma Cut_append: "c \<notin> set a \<Longrightarrow> Cut (a @ c # b) c = (a, b, True)"
  by (simp add: Cut_def IndexByte_append)

lemma Cut_none: "c \<notin> set a \<Longrightarrow> Cut a c = (a, [], False)"
  using IndexByte_None [of a c] by (simp add: Cut_def del: IndexByte_None)

lemma Split_not_Nil [simp]: "Split s c \<noteq> []"
  by (induction s) (auto split: list.splits)

lemma Split_no_sep: "c \<notin> set a \<Longrightarrow> Split a c = [a]"
  by (induction a) auto

lemma Split_append: "c \<notin> set a \<Longrightarrow> Split (a @ c # b) c = a # Split b c"
  by (induction a) auto

lemma LastIndexByte_append: "c \<notin> set b \<Longrightarrow> LastIndexByte (a @ c # b) c = Some (length a)"
  using IndexByte_append [of c "rev b" "rev a"] by (simp add: LastIndexByte_def)

lemma digit_byte:
  assumes "d < 10"
  shows "is_digit (digit d)" "unat (digit d) = 0x30 + d"
proof -
  show u: "unat (digit d) = 0x30 + d"
    using assms unfolding digit_def by (intro of_nat_u8_unat) simp
  show "is_digit (digit d)" using assms u unfolding is_digit_def word_le_nat_alt by simp
qed

lemma decimal_digits: "list_all is_digit (decimal n)"
proof (induction n rule: decimal.induct)
  case (1 n)
  then show ?case by (subst decimal.simps) (simp add: digit_byte)
qed

lemma decimal_not_Nil [simp]: "decimal n \<noteq> []"
  by (subst decimal.simps) simp

lemma digits_value_snoc: "digits_value (s @ [b]) = 10 * digits_value s + (unat b - 0x30)"
  by (simp add: digits_value_def)

lemma digits_value_decimal: "digits_value (decimal n) = n"
proof (induction n rule: decimal.induct)
  case (1 n)
  show ?case
  proof (cases "n < 10")
    case True
    then show ?thesis using digit_byte(2) [of n] by (subst decimal.simps) (simp add: digits_value_def)
  next
    case False
    then show ?thesis using 1 digit_byte(2) [of "n mod 10"]
      by (subst decimal.simps) (simp add: digits_value_snoc)
  qed
qed

lemma ParseUint_decimal: "n < 2 ^ k \<Longrightarrow> ParseUint (decimal n) k = Some n"
  by (simp add: ParseUint_def decimal_digits digits_value_decimal)

lemma decimal_no: "\<not> is_digit c \<Longrightarrow> c \<notin> set (decimal n)"
  using decimal_digits [of n] by (auto simp: list_all_iff)

text \<open>The ordinary \<open>host:port\<close> form.\<close>

lemma SplitHostPort_plain:
  assumes "COLON \<notin> set host" "0x5B \<notin> set host" "0x5D \<notin> set host"
    "COLON \<notin> set port" "0x5B \<notin> set port" "0x5D \<notin> set port"
  shows "SplitHostPort (host @ COLON # port) = Some (host, port)"
proof -
  have hd: "hd (host @ COLON # port) \<noteq> 0x5B" using assms(2) by (cases host) auto
  show ?thesis
    using assms hd by (simp add: SplitHostPort_def LastIndexByte_append Let_def)
qed

lemma SplitHostPort_bracket:
  assumes "0x5D \<notin> set host" "0x5B \<notin> set host" "COLON \<notin> set port" "0x5B \<notin> set port" "0x5D \<notin> set port"
  shows "SplitHostPort (0x5B # host @ 0x5D # COLON # port) = Some (host, port)"
proof -
  have "LastIndexByte ((0x5B # host @ [0x5D]) @ COLON # port) COLON = Some (length host + 2)"
    using LastIndexByte_append [OF assms(3), of "0x5B # host @ [0x5D]"] by simp
  moreover have "IndexByte (0x5B # host @ 0x5D # COLON # port) 0x5D = Some (length host + 1)"
    using IndexByte_append [of "0x5D" "0x5B # host"] assms(1) by simp
  ultimately show ?thesis using assms by (simp add: SplitHostPort_def Let_def)
qed

end
