(* ===== verification/Go_Time.thy ===== *)
theory Go_Time
  imports Go_Strings
begin

text \<open>
  Go's \<^verbatim>\<open>time.Time\<close> as the calendar code reads it: a wall clock (days since 1601-01-01 in the proleptic
  Gregorian calendar, second of the day, nanosecond) and the offset of its location from UTC. A location
  is a constant offset here, as \<^verbatim>\<open>time.UTC\<close> and \<^verbatim>\<open>time.FixedZone\<close> are; zones with transitions are not
  modelled.
\<close>

record wall =
  WDay :: int
  WSec :: int
  WNsec :: int
  WZone :: int

definition wall_ok :: "wall \<Rightarrow> bool" where
  "wall_ok t \<longleftrightarrow> 0 \<le> WSec t \<and> WSec t < 86400 \<and> 0 \<le> WNsec t \<and> WNsec t < 10 ^ 9"

text \<open>Seconds since 1601-01-01 00:00 UTC.\<close>

definition instant :: "wall \<Rightarrow> int" where
  "instant t = WDay t * 86400 + WSec t - WZone t"

definition zero_time :: wall where
  "zero_time = \<lparr>WDay = - 584388, WSec = 0, WNsec = 0, WZone = 0\<rparr>"

definition IsZero :: "wall \<Rightarrow> bool" where
  "IsZero t \<longleftrightarrow> instant t = instant zero_time \<and> WNsec t = 0"

section \<open>Years\<close>

definition leap :: "int \<Rightarrow> bool" where
  "leap y \<longleftrightarrow> y mod 4 = 0 \<and> (y mod 100 \<noteq> 0 \<or> y mod 400 = 0)"

definition year_len :: "int \<Rightarrow> int" where
  "year_len y = (if leap y then 366 else 365)"

text \<open>Days from 1601-01-01 to the first of January of a year.\<close>

definition year_start :: "int \<Rightarrow> int" where
  "year_start y = (let n = y - 1601 in 365 * n + n div 4 - n div 100 + n div 400)"

text \<open>The year of a day number: four-hundred-, one-hundred-, four- and one-year cycles split off in turn.\<close>

definition year_of :: "int \<Rightarrow> int" where
  "year_of d =
     (let n400 = d div 146097; d = d mod 146097;
          n100 = d div 36524; n100 = n100 - n100 div 4; d = d - 36524 * n100;
          n4 = d div 1461; d = d - 1461 * n4;
          n1 = d div 365; n1 = n1 - n1 div 4
      in 1601 + 400 * n400 + 100 * n100 + 4 * n4 + n1)"

definition yday_of :: "int \<Rightarrow> int" where
  "yday_of d = d - year_start (year_of d)"

lemma div_step: "0 < k \<Longrightarrow> (n + 1) div k = n div k + (if (n + 1) mod k = 0 then 1 else 0)" for n k :: int
proof -
  assume k: "0 < k"
  have n: "n = k * (n div k) + n mod k" by simp
  have r: "0 \<le> n mod k" "n mod k < k" using k by simp_all
  show ?thesis
  proof (cases "n mod k + 1 = k")
    case True
    have "n + 1 = k * (n div k) + (n mod k + 1)" using n by linarith
    then have "n + 1 = k * (n div k + 1)" by (simp only: True distrib_left mult_1_right)
    then show ?thesis using k by (metis mod_mult_self1_is_0 nonzero_mult_div_cancel_left less_irrefl)
  next
    case False
    have h: "n + 1 = k * (n div k) + (n mod k + 1)" "0 \<le> n mod k + 1" "n mod k + 1 < k" using n r False by linarith+
    have "(n + 1) div k = n div k" "(n + 1) mod k = n mod k + 1" by (rule int_div_pos_eq [OF h]) (rule int_mod_pos_eq [OF h])
    then show ?thesis using r by simp
  qed
qed

lemma year_start_Suc: "year_start (y + 1) = year_start y + year_len y"
proof -
  have s: "(y - 1600) div k = (y - 1601) div k + (if y mod k = 0 then 1 else 0)" if "k \<in> {4, 100, 400}" for k
  proof -
    have d: "k dvd 1600" "0 < k" using that by auto
    then have "(y - 1600) mod k = y mod k" by (simp add: mod_eq_dvd_iff)
    then show ?thesis using div_step [OF d(2), of "y - 1601"] by simp
  qed
  have m: "y mod 400 = 0 \<Longrightarrow> y mod 100 = 0" "y mod 100 = 0 \<Longrightarrow> y mod 4 = 0"
    using dvd_trans [of 100 400 y] dvd_trans [of 4 100 y] by (simp_all add: dvd_eq_mod_eq_0)
  have e: "y + 1 - 1601 = y - 1600" by simp
  have k: "(4 :: int) \<in> {4, 100, 400}" "(100 :: int) \<in> {4, 100, 400}" "(400 :: int) \<in> {4, 100, 400}" by simp_all
  have "year_start (y + 1) = year_start y + 365 + (if y mod 4 = 0 then 1 else 0) - (if y mod 100 = 0 then 1 else 0)
      + (if y mod 400 = 0 then 1 else 0)"
    unfolding year_start_def Let_def e s [OF k(1)] s [OF k(2)] s [OF k(3)] by (simp only: algebra_simps)
  then show ?thesis using m unfolding year_len_def leap_def
    by (cases "y mod 4 = 0"; cases "y mod 100 = 0"; cases "y mod 400 = 0") simp_all
qed

lemma year_start_mono: "y \<le> z \<Longrightarrow> year_start y \<le> year_start z"
proof (induction z rule: int_ge_induct)
  case (step z)
  then show ?case by (simp add: year_start_Suc year_len_def)
qed simp

lemma year_start_cycles:
  assumes "0 \<le> b" "b \<le> 3" "0 \<le> c" "c \<le> 24" "0 \<le> e" "e \<le> 3"
  shows "year_start (1601 + 400 * a + 100 * b + 4 * c + e) = 146097 * a + 36524 * b + 1461 * c + 365 * e"
proof -
  let ?n = "400 * a + 100 * b + 4 * c + e"
  have n: "1601 + 400 * a + 100 * b + 4 * c + e - 1601 = ?n" by simp
  have 4: "?n div 4 = 100 * a + 25 * b + c" using assms by (intro int_div_pos_eq [of _ _ _ e]) auto
  have 100: "?n div 100 = 4 * a + b" using assms by (intro int_div_pos_eq [of _ _ _ "4 * c + e"]) auto
  have 400: "?n div 400 = a" using assms by (intro int_div_pos_eq [of _ _ _ "100 * b + 4 * c + e"]) auto
  show ?thesis unfolding year_start_def Let_def n 4 100 400 by simp
qed

text \<open>A remainder split into at most three full cycles: the last cycle may be one day longer.\<close>

lemma split_cycles:
  fixes r k :: int
  defines "b \<equiv> r div k - r div k div 4"
  assumes "0 < k" "0 \<le> r" "r \<le> 4 * k"
  shows "0 \<le> b" "b \<le> 3" "k * b \<le> r" "r \<le> k * b + k" "b < 3 \<Longrightarrow> r < k * b + k"
proof -
  define q where "q = r div k"
  obtain m where r: "r = k * q + m" "0 \<le> m" "m < k"
    using that [of "r mod k"] assms(2) by (simp add: q_def)
  have "0 \<le> q" using assms(2,3) by (simp add: q_def pos_imp_zdiv_nonneg_iff)
  moreover have "q \<le> 4" unfolding q_def using assms(2,4) by (metis mult.commute nonzero_mult_div_cancel_right zdiv_mono1 less_irrefl)
  ultimately have "q \<in> {0, 1, 2, 3, 4}" by auto
  then have "(q \<noteq> 4 \<and> b = q) \<or> (q = 4 \<and> b = 3 \<and> r = 4 * k)"
    using r assms(4) unfolding b_def q_def [symmetric] by auto
  then show "0 \<le> b" "b \<le> 3" "k * b \<le> r" "r \<le> k * b + k" "b < 3 \<Longrightarrow> r < k * b + k"
    using r \<open>0 \<le> q\<close> \<open>q \<le> 4\<close> assms(2) by auto
qed

text \<open>The day lies in its year.\<close>

lemma div_parts: "0 < k \<Longrightarrow> \<exists>m. r = k * (r div k) + m \<and> 0 \<le> m \<and> m < k" for r k :: int
  by (intro exI [of _ "r mod k"]) simp

lemma year_of_bounds: "year_start (year_of d) \<le> d \<and> d < year_start (year_of d + 1)"
proof -
  define a where "a = d div 146097"
  define r where "r = d mod 146097"
  have r: "0 \<le> r" "r \<le> 4 * 36524" by (simp_all add: r_def)
  define b where "b = r div 36524 - r div 36524 div 4"
  define s where "s = r - 36524 * b"
  note bs = split_cycles [of 36524 r, folded b_def, OF _ r, simplified]
  have b: "0 \<le> s" "s \<le> 36524" "b < 3 \<Longrightarrow> s < 36524" using bs unfolding s_def by linarith+
  define c where "c = s div 1461"
  define u where "u = s - 1461 * c"
  obtain m where "s = 1461 * c + m" "0 \<le> m" "m < 1461" using div_parts [of 1461 s] unfolding c_def by auto
  then have c: "0 \<le> c" "c \<le> 24" "0 \<le> u" "u < 1461" using b unfolding u_def by linarith+
  define e where "e = u div 365 - u div 365 div 4"
  have "u \<le> 4 * 365" using c by simp
  note e = split_cycles [of 365 u, folded e_def, OF _ c(3) this, simplified]
  have d: "d = 146097 * a + 36524 * b + 1461 * c + u"
  proof -
    have "d = 146097 * a + r" by (simp add: a_def r_def)
    then show ?thesis unfolding s_def u_def by linarith
  qed
  have y: "year_of d = 1601 + 400 * a + 100 * b + 4 * c + e"
    by (simp only: year_of_def Let_def a_def b_def c_def e_def r_def s_def u_def)
  have ys: "year_start (year_of d) = 146097 * a + 36524 * b + 1461 * c + 365 * e"
    unfolding y by (rule year_start_cycles) (use bs c e in auto)
  have "leap (year_of d)" if "u = 1460" "e = 3"
  proof (cases "c = 24")
    case True
    then have "b = 3" using b bs that unfolding u_def by linarith
    then have "year_of d = 400 * (a + 5)" using True that by (simp add: y)
    then show ?thesis by (simp add: leap_def mod_mult_left_eq [symmetric])
  next
    case False
    have "year_of d = 100 * (4 * a + b + 16) + (4 * c + 4)" "year_of d = 4 * (100 * a + 25 * b + c + 401) + 0"
      unfolding y using that by auto
    from int_mod_pos_eq [OF this(1)] int_mod_pos_eq [OF this(2)] have "year_of d mod 100 = 4 * c + 4" "year_of d mod 4 = 0"
      using c False by auto
    then show ?thesis using c by (simp only: leap_def) simp
  qed
  then have "u < 365 * e + year_len (year_of d)"
    using e c by (cases "e = 3"; cases "u = 1460") (auto simp: year_len_def)
  then have "d < year_start (year_of d) + year_len (year_of d)" using d ys by linarith
  then show ?thesis using d ys e(3) unfolding year_start_Suc by linarith
qed

lemma year_of_unique:
  assumes "year_start y \<le> d" "d < year_start (y + 1)"
  shows "year_of d = y"
proof (rule antisym)
  show "year_of d \<le> y"
    using year_of_bounds [of d] assms(2) year_start_mono [of "y + 1" "year_of d"] by linarith
  show "y \<le> year_of d"
    using year_of_bounds [of d] assms(1) year_start_mono [of "year_of d + 1" y] by linarith
qed

lemma yday_bounds: "0 \<le> yday_of d" "yday_of d < year_len (year_of d)"
  using year_of_bounds [of d] by (simp_all add: yday_of_def year_start_Suc)

section \<open>Months\<close>

text \<open>Days before each month of a common year, then of a leap year.\<close>

definition month_start :: "bool \<Rightarrow> nat \<Rightarrow> int" where
  "month_start lp m = [0, 31, 59, 90, 120, 151, 181, 212, 243, 273, 304, 334, 365] ! m + (if lp \<and> 2 \<le> m then 1 else 0)"

text \<open>The month (counted from 0) that holds a day of the year.\<close>

definition month_of :: "bool \<Rightarrow> int \<Rightarrow> nat" where
  "month_of lp yd = length (filter (\<lambda>m. month_start lp m \<le> yd) [1..<12])"

definition Year :: "wall \<Rightarrow> int" where
  "Year t = year_of (WDay t)"

definition YearDay :: "wall \<Rightarrow> int" where
  "YearDay t = yday_of (WDay t) + 1"

definition Month :: "wall \<Rightarrow> int" where
  "Month t = int (month_of (leap (Year t)) (yday_of (WDay t))) + 1"

definition DayOf :: "wall \<Rightarrow> int" where
  "DayOf t = (let lp = leap (Year t); yd = yday_of (WDay t) in yd - month_start lp (month_of lp yd) + 1)"

definition Hour :: "wall \<Rightarrow> int" where
  "Hour t = WSec t div 3600"

definition Minute :: "wall \<Rightarrow> int" where
  "Minute t = WSec t mod 3600 div 60"

definition Second :: "wall \<Rightarrow> int" where
  "Second t = WSec t mod 60"

text \<open>1601-01-01 was a Monday; Sunday is 0.\<close>

definition Weekday :: "wall \<Rightarrow> int" where
  "Weekday t = (WDay t + 1) mod 7"

text \<open>\<^verbatim>\<open>time.Date\<close> for a month between 1 and 12 and a time of day in range; \<^verbatim>\<open>AddDate(0, 0, n)\<close>.\<close>

definition day_number :: "int \<Rightarrow> int \<Rightarrow> int \<Rightarrow> int" where
  "day_number y m d = year_start y + month_start (leap y) (nat (m - 1)) + d - 1"

definition Date :: "int \<Rightarrow> int \<Rightarrow> int \<Rightarrow> int \<Rightarrow> int \<Rightarrow> int \<Rightarrow> int \<Rightarrow> int \<Rightarrow> wall" where
  "Date y m d h mi s ns zone = \<lparr>WDay = day_number y m d, WSec = h * 3600 + mi * 60 + s, WNsec = ns, WZone = zone\<rparr>"

definition AddDays :: "wall \<Rightarrow> int \<Rightarrow> wall" where
  "AddDays t n = t\<lparr>WDay := WDay t + n\<rparr>"

definition AddSeconds :: "wall \<Rightarrow> int \<Rightarrow> wall" where
  "AddSeconds t n = (let x = WDay t * 86400 + WSec t + n in t\<lparr>WDay := x div 86400, WSec := x mod 86400\<rparr>)"

definition UTC :: "wall \<Rightarrow> wall" where
  "UTC t = \<lparr>WDay = instant t div 86400, WSec = instant t mod 86400, WNsec = WNsec t, WZone = 0\<rparr>"

definition daysIn :: "int \<Rightarrow> int \<Rightarrow> int" where
  "daysIn m y = month_start (leap y) (nat m) - month_start (leap y) (nat (m - 1))"

lemma month_cases:
  assumes "0 \<le> yd" "yd < (if lp then 366 else 365)"
  shows "month_of lp yd \<le> 11 \<and> month_start lp (month_of lp yd) \<le> yd \<and> yd < month_start lp (Suc (month_of lp yd))"
proof -
  have u: "[1..<12] = [1, 2, 3, 4, 5, 6, 7, 8, 9, 10, 11]" by (simp add: upt_rec)
  show ?thesis unfolding month_of_def u
    using assms by (cases lp) (auto simp: month_start_def)
qed

lemma month_start_mono: "i \<le> j \<Longrightarrow> j \<le> 12 \<Longrightarrow> month_start lp i \<le> month_start lp j"
proof (induction j rule: dec_induct)
  case (step n)
  have "list_all (\<lambda>n. month_start lp n \<le> month_start lp (Suc n)) [0..<12]" by (simp add: upt_rec month_start_def)
  then have "month_start lp n \<le> month_start lp (Suc n)" using step.prems by (simp add: list_all_iff)
  then show ?case using step by simp
qed simp

lemma month_of_unique:
  assumes "k \<le> 11" "month_start lp k \<le> yd" "yd < month_start lp (Suc k)" "0 \<le> yd" "yd < (if lp then 366 else 365)"
  shows "month_of lp yd = k"
proof -
  have m: "month_of lp yd \<le> 11" "month_start lp (month_of lp yd) \<le> yd" "yd < month_start lp (Suc (month_of lp yd))"
    using month_cases [OF assms(4,5)] by auto
  have "\<not> Suc k \<le> month_of lp yd" using month_start_mono [of "Suc k" "month_of lp yd" lp] m assms by auto
  moreover have "\<not> Suc (month_of lp yd) \<le> k" using month_start_mono [of "Suc (month_of lp yd)" k lp] m assms by auto
  ultimately show ?thesis by simp
qed

lemma month_day_range: "1 \<le> Month t" "Month t \<le> 12" "1 \<le> DayOf t" "DayOf t \<le> daysIn (Month t) (Year t)"
  using month_cases [of "yday_of (WDay t)" "leap (Year t)"] yday_bounds [of "WDay t"]
  by (auto simp: Month_def DayOf_def daysIn_def Year_def year_len_def Let_def nat_add_distrib)

lemma day_number_fields: "day_number (Year t) (Month t) (DayOf t) = WDay t"
  by (simp add: day_number_def Month_def DayOf_def Let_def yday_of_def Year_def)

lemma Date_fields:
  assumes "1 \<le> m" "m \<le> 12" "1 \<le> d" "d \<le> daysIn m y"
  shows "Year (Date y m d h mi s ns z) = y" "Month (Date y m d h mi s ns z) = m" "DayOf (Date y m d h mi s ns z) = d"
proof -
  let ?lp = "leap y" and ?k = "nat (m - 1)"
  let ?yd = "month_start ?lp ?k + d - 1"
  have k: "?k \<le> 11" "nat m = Suc ?k" using assms(1,2) by auto
  have "0 \<le> month_start ?lp ?k" using month_start_mono [of 0 ?k ?lp] k by (simp add: month_start_def)
  moreover have "?yd < month_start ?lp (Suc ?k)" using assms(4) k by (simp add: daysIn_def)
  moreover have "month_start ?lp (Suc ?k) \<le> year_len y"
    using month_start_mono [of "Suc ?k" 12 ?lp] k(1) by (auto simp: year_len_def month_start_def)
  ultimately have yd: "0 \<le> ?yd" "?yd < year_len y" "month_start ?lp ?k \<le> ?yd" "?yd < month_start ?lp (Suc ?k)"
    using assms(3) by auto
  have w: "WDay (Date y m d h mi s ns z) = year_start y + ?yd" by (simp add: Date_def day_number_def)
  have y: "year_of (year_start y + ?yd) = y" by (rule year_of_unique) (use yd in \<open>simp_all add: year_start_Suc\<close>)
  then have yy: "yday_of (year_start y + ?yd) = ?yd" by (simp add: yday_of_def)
  have mo: "month_of ?lp ?yd = ?k"
    using month_of_unique [OF k(1) yd(3,4,1)] yd(2) by (simp add: year_len_def split: if_splits)
  show "Year (Date y m d h mi s ns z) = y" by (simp add: Year_def w y)
  then show "Month (Date y m d h mi s ns z) = m" "DayOf (Date y m d h mi s ns z) = d"
    using assms(1) by (simp_all add: Month_def DayOf_def w yy mo Let_def)
qed

lemma clock_parts:
  fixes h mi s :: int
  assumes "0 \<le> h" "0 \<le> mi" "mi < 60" "0 \<le> s" "s < 60"
  shows "(h * 3600 + mi * 60 + s) div 3600 = h" "(h * 3600 + mi * 60 + s) mod 3600 div 60 = mi"
    "(h * 3600 + mi * 60 + s) mod 60 = s"
proof -
  have p: "h * 3600 + mi * 60 + s = 3600 * h + (mi * 60 + s)" "mi * 60 + s = 60 * mi + s"
    "h * 3600 + mi * 60 + s = 60 * (60 * h + mi) + s" by simp_all
  have "mi * 60 + s < 3600" "0 \<le> mi * 60 + s" using assms by simp_all
  then have "(h * 3600 + mi * 60 + s) mod 3600 = mi * 60 + s" using int_mod_pos_eq [OF p(1)] by simp
  then show "(h * 3600 + mi * 60 + s) mod 3600 div 60 = mi" using int_div_pos_eq [OF p(2)] assms by simp
  show "(h * 3600 + mi * 60 + s) div 3600 = h" using int_div_pos_eq [OF p(1)] assms by simp
  show "(h * 3600 + mi * 60 + s) mod 60 = s" using int_mod_pos_eq [OF p(3)] assms by simp
qed

lemma clock_fields:
  assumes "0 \<le> WSec t" "WSec t < 86400"
  shows "Hour t * 3600 + Minute t * 60 + Second t = WSec t"
    "0 \<le> Hour t" "Hour t < 24" "0 \<le> Minute t" "Minute t < 60" "0 \<le> Second t" "Second t < 60"
proof -
  obtain r where r: "WSec t = 3600 * Hour t + r" "0 \<le> r" "r < 3600"
    using div_parts [of 3600 "WSec t"] unfolding Hour_def by auto
  obtain s where s: "r = 60 * (r div 60) + s" "0 \<le> s" "s < 60" using div_parts [of 60 r] by auto
  show h: "0 \<le> Hour t" "Hour t < 24" using r assms by linarith+
  have m: "0 \<le> r div 60" "r div 60 < 60" using r s by linarith+
  have w: "WSec t = Hour t * 3600 + r div 60 * 60 + s" using r s by linarith
  have "Minute t = r div 60" "Second t = s"
    unfolding Minute_def Second_def w using clock_parts(2,3) [OF h(1) m s(2,3)] by auto
  then show "Hour t * 3600 + Minute t * 60 + Second t = WSec t" "0 \<le> Minute t" "Minute t < 60" "0 \<le> Second t" "Second t < 60"
    using w m s by auto
qed

lemma Date_clock:
  assumes "0 \<le> h" "h < 24" "0 \<le> mi" "mi < 60" "0 \<le> s" "s < 60"
  shows "Hour (Date y m d h mi s ns z) = h" "Minute (Date y m d h mi s ns z) = mi" "Second (Date y m d h mi s ns z) = s"
  using clock_parts [OF assms(1,3-6)] by (simp_all add: Date_def Hour_def Minute_def Second_def)

end
