(* ===== verification/Recur_Rule.thy ===== *)
theory Recur_Rule
  imports Go_Time
begin

text \<open>
  Recurrence rules and the Outlook recurrence pattern (\<^verbatim>\<open>internal/recurrence/pattern.go\<close>): the RRULE text, the
  binary pattern, the conversions between the two, and the minute counts since 1601 they share. Case mapping
  follows the Unicode table of the runtime, the parameter \<open>upper\<close>.
\<close>

unbundle bit_operations_syntax

section \<open>Pattern and rule\<close>

abbreviation (input) PatternDay :: u16 where "PatternDay \<equiv> 0x0000"
abbreviation (input) PatternWeek :: u16 where "PatternWeek \<equiv> 0x0001"
abbreviation (input) PatternMonth :: u16 where "PatternMonth \<equiv> 0x0002"
abbreviation (input) PatternMonthNth :: u16 where "PatternMonthNth \<equiv> 0x0003"

abbreviation (input) FreqDaily :: u16 where "FreqDaily \<equiv> 0x200A"
abbreviation (input) FreqWeekly :: u16 where "FreqWeekly \<equiv> 0x200B"
abbreviation (input) FreqMonthly :: u16 where "FreqMonthly \<equiv> 0x200C"
abbreviation (input) FreqYearly :: u16 where "FreqYearly \<equiv> 0x200D"

abbreviation (input) EndAfterDate :: u32 where "EndAfterDate \<equiv> 0x00002021"
abbreviation (input) EndAfterN :: u32 where "EndAfterN \<equiv> 0x00002022"
abbreviation (input) EndNever :: u32 where "EndNever \<equiv> 0x00002023"
abbreviation (input) EndNeverAlt :: u32 where "EndNeverAlt \<equiv> 0xFFFFFFFF"
abbreviation (input) noEndDate :: u32 where "noEndDate \<equiv> 0x5AE980DF"

definition epoch1601 :: wall where
  "epoch1601 = Date 1601 1 1 0 0 0 0 0"

record recur_pattern =
  RecurFrequency :: u16
  PatternType :: u16
  FirstDateTime :: u32
  Period :: u32
  EndType :: u32
  OccurrenceCount :: u32
  FirstDOW :: u32
  DayOfWeek :: u32
  DayOfMonth :: u32
  WeekOfMonth :: u32
  StartDate :: u32
  EndDate :: u32

definition zero_pattern :: recur_pattern where
  "zero_pattern = \<lparr>RecurFrequency = 0, PatternType = 0, FirstDateTime = 0, Period = 0, EndType = 0, OccurrenceCount = 0,
     FirstDOW = 0, DayOfWeek = 0, DayOfMonth = 0, WeekOfMonth = 0, StartDate = 0, EndDate = 0\<rparr>"

record rrule =
  RFreq :: go_string
  RInterval :: int
  RCount :: int
  RUntil :: wall
  RWeekdays :: "go_string list"
  RSetPos :: int
  RMonthDay :: int
  RMonth :: int

definition zero_rrule :: rrule where
  "zero_rrule = \<lparr>RFreq = [], RInterval = 0, RCount = 0, RUntil = zero_time, RWeekdays = [], RSetPos = 0, RMonthDay = 0, RMonth = 0\<rparr>"

datatype recur_error = ErrInvalidRRule | ErrUnsupportedFreq | ErrBlob | ErrTruncated

section \<open>strconv and time, as used here\<close>

text \<open>\<^verbatim>\<open>strconv.Atoi\<close> and \<^verbatim>\<open>strconv.Itoa\<close> on 64-bit integers.\<close>

definition Atoi :: "go_string \<Rightarrow> int option" where
  "Atoi s =
     (let neg = (s \<noteq> [] \<and> hd s = 0x2D);
          ds = (if s \<noteq> [] \<and> (hd s = 0x2D \<or> hd s = 0x2B) then tl s else s)
      in
        if ds = [] \<or> \<not> list_all is_digit ds then None
        else
          (let v = (if neg then - int (digits_value ds) else int (digits_value ds)) in
           if - (2 ^ 63) \<le> v \<and> v < 2 ^ 63 then Some v else None))"

definition Itoa :: "int \<Rightarrow> go_string" where
  "Itoa i = (if i < 0 then 0x2D # decimal (nat (- i)) else decimal (nat i))"

definition ToUpper :: "(rune \<Rightarrow> rune) \<Rightarrow> go_string \<Rightarrow> go_string" where
  "ToUpper upper s = utf8_encode (map upper (utf8_decode s))"

text \<open>\<^verbatim>\<open>getnum\<close> of package time: two digits, or one where the layout field allows it.\<close>

definition getnum :: "bool \<Rightarrow> go_string \<Rightarrow> (int \<times> go_string) option" where
  "getnum fixed s =
     (case s of
        [] \<Rightarrow> None
      | a # r \<Rightarrow>
          if \<not> is_digit a then None
          else
            (case r of
               b # r' \<Rightarrow>
                 if is_digit b then Some (int (digits_value [a, b]), r')
                 else if fixed then None else Some (int (digits_value [a]), r)
             | [] \<Rightarrow> if fixed then None else Some (int (digits_value [a]), r)))"

text \<open>The date fields \<^verbatim>\<open>20060102\<close>, the clock fields \<^verbatim>\<open>150405\<close> with the fraction that parsing always accepts.\<close>

definition parse_date :: "go_string \<Rightarrow> ((int \<times> int \<times> int) \<times> go_string) option" where
  "parse_date s =
     (if length s < 4 \<or> \<not> list_all is_digit (take 4 s) then None
      else
        (case getnum True (drop 4 s) of
           None \<Rightarrow> None
         | Some (m, s') \<Rightarrow>
             if m \<le> 0 \<or> 12 < m then None
             else (case getnum True s' of None \<Rightarrow> None
               | Some (d, s'') \<Rightarrow> Some ((int (digits_value (take 4 s)), m, d), s''))))"

definition parse_fraction :: "go_string \<Rightarrow> int \<times> go_string" where
  "parse_fraction s =
     (case s of
        c # d # r \<Rightarrow>
          if (c = 0x2E \<or> c = 0x2C) \<and> is_digit d then
            (let ds = takeWhile is_digit (d # r); nine = take 9 ds in
             (int (digits_value nine) * 10 ^ (9 - length nine), drop (length ds) (d # r)))
          else (0, s)
      | _ \<Rightarrow> (0, s))"

definition parse_clock :: "go_string \<Rightarrow> ((int \<times> int \<times> int \<times> int) \<times> go_string) option" where
  "parse_clock s =
     (case getnum False s of
        None \<Rightarrow> None
      | Some (h, s) \<Rightarrow>
          if 24 \<le> h then None
          else (case getnum True s of None \<Rightarrow> None
            | Some (mi, s) \<Rightarrow>
                if 60 \<le> mi then None
                else (case getnum True s of None \<Rightarrow> None
                  | Some (sec, s) \<Rightarrow>
                      if 60 \<le> sec then None
                      else (case parse_fraction s of (ns, s) \<Rightarrow> Some ((h, mi, sec, ns), s)))))"

text \<open>\<^verbatim>\<open>time.Parse\<close> with one of the three layouts: what follows the clock, or no clock at all.\<close>

definition parse_layout :: "go_string option \<Rightarrow> go_string \<Rightarrow> wall option" where
  "parse_layout suffix s =
     (case parse_date s of
        None \<Rightarrow> None
      | Some ((y, m, d), r) \<Rightarrow>
          (case suffix of
             None \<Rightarrow> if r \<noteq> [] \<or> d < 1 \<or> d > daysIn m y then None else Some (Date y m d 0 0 0 0 0)
           | Some suf \<Rightarrow>
               if r = [] \<or> hd r \<noteq> 0x54 then None
               else
                 (case parse_clock (tl r) of
                    None \<Rightarrow> None
                  | Some ((h, mi, sec, ns), r) \<Rightarrow>
                      if r \<noteq> suf \<or> d < 1 \<or> d > daysIn m y then None else Some (Date y m d h mi sec ns 0))))"

definition padded :: "nat \<Rightarrow> int \<Rightarrow> go_string" where
  "padded w i =
     (let ds = decimal (nat \<bar>i\<bar>) in (if i < 0 then [0x2D] else []) @ replicate (w - length ds) 0x30 @ ds)"

text \<open>\<^verbatim>\<open>Format("20060102T150405Z")\<close>.\<close>

definition format_until :: "wall \<Rightarrow> go_string" where
  "format_until t = padded 4 (Year t) @ padded 2 (Month t) @ padded 2 (DayOf t) @ [0x54]
     @ padded 2 (Hour t) @ padded 2 (Minute t) @ padded 2 (Second t) @ [0x5A]"

section \<open>Minutes since 1601\<close>

function year_days :: "int \<Rightarrow> int \<Rightarrow> int \<Rightarrow> int" where
  "year_days y last_year days =
     (if y < last_year then year_days (y + 1) last_year (days + YearDay (Date y 12 31 0 0 0 0 0)) else days)"
  by pat_completeness auto
termination by (relation "measure (\<lambda>(y, last_year, days). nat (last_year - y))") auto

declare year_days.simps [simp del]

definition minutesSince1601 :: "wall \<Rightarrow> u32" where
  "minutesSince1601 t =
     (if instant t < instant epoch1601 then 0
      else
        (let days = year_days 1601 (Year t) 0 + (YearDay t - 1) in
         word_of_int days * 24 * 60 + word_of_int (Hour t) * 60 + word_of_int (Minute t)))"

definition timeFromMinutes :: "u32 \<Rightarrow> wall" where
  "timeFromMinutes m =
     (let total = uint m; days = total div (24 * 60); rem = total mod (24 * 60) in
      AddSeconds (AddDays epoch1601 days) (rem * 60))"

section \<open>RRULE text\<close>

abbreviation (input) maxRRuleInterval :: int where "maxRRuleInterval \<equiv> 4294967295 div (7 * 24 * 60)"

definition setFreq :: "(rune \<Rightarrow> rune) \<Rightarrow> rrule \<Rightarrow> go_string \<Rightarrow> recur_error + rrule" where
  "setFreq upper r v = Inr (r\<lparr>RFreq := ToUpper upper (TrimSpace v)\<rparr>)"

definition setInterval :: "rrule \<Rightarrow> go_string \<Rightarrow> recur_error + rrule" where
  "setInterval r v =
     (case Atoi v of
        None \<Rightarrow> Inr r
      | Some n \<Rightarrow>
          if n > maxRRuleInterval then Inl ErrInvalidRRule
          else if n > 0 then Inr (r\<lparr>RInterval := n\<rparr>) else Inr r)"

definition setCount :: "rrule \<Rightarrow> go_string \<Rightarrow> recur_error + rrule" where
  "setCount r v =
     (case Atoi v of
        None \<Rightarrow> Inr r
      | Some n \<Rightarrow>
          if n > 4294967295 then Inl ErrInvalidRRule
          else if n > 0 then Inr (r\<lparr>RCount := n\<rparr>) else Inr r)"

fun try_layouts :: "go_string option list \<Rightarrow> go_string \<Rightarrow> wall option" where
  "try_layouts [] v = None"
| "try_layouts (l # ls) v = (case parse_layout l v of Some t \<Rightarrow> Some (UTC t) | None \<Rightarrow> try_layouts ls v)"

definition parseRRuleUntil :: "go_string \<Rightarrow> wall option" where
  "parseRRuleUntil v = try_layouts [Some [0x5A], Some [], None] v"

definition setUntil :: "rrule \<Rightarrow> go_string \<Rightarrow> recur_error + rrule" where
  "setUntil r v = (case parseRRuleUntil v of Some t \<Rightarrow> Inr (r\<lparr>RUntil := t\<rparr>) | None \<Rightarrow> Inr r)"

definition byday_prefix :: "u8 \<Rightarrow> bool" where
  "byday_prefix c \<longleftrightarrow> c = 0x2B \<or> c = 0x2D \<or> is_digit c"

fun byday_tokens :: "(rune \<Rightarrow> rune) \<Rightarrow> go_string list \<Rightarrow> go_string list \<Rightarrow> int \<Rightarrow> go_string list \<times> int" where
  "byday_tokens upper [] days setPos = (days, setPos)"
| "byday_tokens upper (t # ts) days setPos =
     (let tok = TrimSpace t;
          prefix = takeWhile byday_prefix tok;
          setPos = (if prefix \<noteq> [] then (case Atoi prefix of Some n \<Rightarrow> n | None \<Rightarrow> setPos) else setPos);
          day = ToUpper upper (dropWhile byday_prefix tok)
      in byday_tokens upper ts (if day \<noteq> [] then days @ [day] else days) setPos)"

definition parseByDay :: "(rune \<Rightarrow> rune) \<Rightarrow> go_string \<Rightarrow> go_string list \<times> int" where
  "parseByDay upper v = byday_tokens upper (Split v COMMA) [] 0"

definition setByDayParam :: "(rune \<Rightarrow> rune) \<Rightarrow> rrule \<Rightarrow> go_string \<Rightarrow> recur_error + rrule" where
  "setByDayParam upper r v = (case parseByDay upper v of (days, setPos) \<Rightarrow> Inr (r\<lparr>RWeekdays := days, RSetPos := setPos\<rparr>))"

definition setMonthDayParam :: "rrule \<Rightarrow> go_string \<Rightarrow> recur_error + rrule" where
  "setMonthDayParam r v = (case Atoi v of Some n \<Rightarrow> Inr (r\<lparr>RMonthDay := n\<rparr>) | None \<Rightarrow> Inr r)"

definition setMonthParam :: "rrule \<Rightarrow> go_string \<Rightarrow> recur_error + rrule" where
  "setMonthParam r v = (case Atoi v of Some n \<Rightarrow> Inr (r\<lparr>RMonth := n\<rparr>) | None \<Rightarrow> Inr r)"

definition setSetPosParam :: "rrule \<Rightarrow> go_string \<Rightarrow> recur_error + rrule" where
  "setSetPosParam r v = (case Atoi v of Some n \<Rightarrow> Inr (r\<lparr>RSetPos := n\<rparr>) | None \<Rightarrow> Inr r)"

definition rruleFields :: "(rune \<Rightarrow> rune) \<Rightarrow> go_string \<Rightarrow> (rrule \<Rightarrow> go_string \<Rightarrow> recur_error + rrule) option" where
  "rruleFields upper key =
     (if key = lit ''FREQ'' then Some (setFreq upper)
      else if key = lit ''INTERVAL'' then Some setInterval
      else if key = lit ''COUNT'' then Some setCount
      else if key = lit ''UNTIL'' then Some setUntil
      else if key = lit ''BYDAY'' then Some (setByDayParam upper)
      else if key = lit ''BYMONTHDAY'' then Some setMonthDayParam
      else if key = lit ''BYMONTH'' then Some setMonthParam
      else if key = lit ''BYSETPOS'' then Some setSetPosParam
      else None)"

fun parse_parts :: "(rune \<Rightarrow> rune) \<Rightarrow> go_string list \<Rightarrow> rrule \<Rightarrow> recur_error + rrule" where
  "parse_parts upper [] r = Inr r"
| "parse_parts upper (part # parts) r =
     (case Cut part 0x3D of
        (key, val, ok) \<Rightarrow>
          if \<not> ok then parse_parts upper parts r
          else
            (case rruleFields upper (ToUpper upper (TrimSpace key)) of
               None \<Rightarrow> parse_parts upper parts r
             | Some set_field \<Rightarrow> bindr (set_field r val) (\<lambda>r. parse_parts upper parts r)))"

definition parseRRule :: "(rune \<Rightarrow> rune) \<Rightarrow> go_string \<Rightarrow> recur_error + rrule" where
  "parseRRule upper v =
     bindr (parse_parts upper (Split v 0x3B) (zero_rrule\<lparr>RInterval := 1\<rparr>)) (\<lambda>r.
       if RFreq r = [] then Inl ErrInvalidRRule else Inr r)"

fun join_comma :: "go_string list \<Rightarrow> go_string" where
  "join_comma [] = []"
| "join_comma [d] = d"
| "join_comma (d # ds) = d @ [COMMA] @ join_comma ds"

definition rruleString :: "rrule \<Rightarrow> go_string" where
  "rruleString r =
     lit ''FREQ='' @ RFreq r @ lit '';INTERVAL='' @ Itoa (RInterval r)
     @ (if RCount r > 0 then lit '';COUNT='' @ Itoa (RCount r) else [])
     @ (if \<not> IsZero (RUntil r) then lit '';UNTIL='' @ format_until (UTC (RUntil r)) else [])
     @ (if RWeekdays r \<noteq> [] then
          lit '';BYDAY='' @ join_comma (RWeekdays r)
          @ (if RSetPos r \<noteq> 0 then lit '';BYSETPOS='' @ Itoa (RSetPos r) else [])
        else [])
     @ (if RMonthDay r \<noteq> 0 then lit '';BYMONTHDAY='' @ Itoa (RMonthDay r) else [])"

section \<open>Weekdays and week numbers\<close>

definition weekday_bits :: "(u32 \<times> go_string) list" where
  "weekday_bits = [(1, lit ''SU''), (2, lit ''MO''), (4, lit ''TU''), (8, lit ''WE''), (16, lit ''TH''), (32, lit ''FR''), (64, lit ''SA'')]"

definition bitmaskWeekdays :: "u32 \<Rightarrow> go_string list" where
  "bitmaskWeekdays m = map snd (filter (\<lambda>(b, tok). m AND b \<noteq> 0) weekday_bits)"

definition weekdayBitmask :: "go_string list \<Rightarrow> u32" where
  "weekdayBitmask days =
     foldl (\<lambda>m d. m OR (case map_of (map (\<lambda>(b, tok). (tok, b)) weekday_bits) d of Some b \<Rightarrow> b | None \<Rightarrow> 0)) 0 days"

definition setPosFromWeek :: "u32 \<Rightarrow> int" where
  "setPosFromWeek week = (if week = 1 \<or> week = 2 \<or> week = 3 \<or> week = 4 then uint week else if week = 5 then - 1 else 0)"

definition weekOfMonthFromSetPos :: "int \<Rightarrow> u32" where
  "weekOfMonthFromSetPos setPos = (if setPos = - 1 then 5 else if 1 \<le> setPos \<and> setPos \<le> 5 then word_of_int setPos else 0)"

section \<open>From the pattern to the rule\<close>

definition fillDayPins :: "recur_pattern \<Rightarrow> rrule \<Rightarrow> rrule" where
  "fillDayPins p r =
     (if PatternType p = PatternMonthNth
      then r\<lparr>RWeekdays := bitmaskWeekdays (DayOfWeek p), RSetPos := setPosFromWeek (WeekOfMonth p)\<rparr>
      else r\<lparr>RMonthDay := uint (DayOfMonth p)\<rparr>)"

definition dailyRRule :: "recur_pattern \<Rightarrow> rrule \<Rightarrow> rrule" where
  "dailyRRule p r =
     (let r = r\<lparr>RFreq := lit ''DAILY''\<rparr> in
      if Period p mod 1440 = 0 then r\<lparr>RInterval := uint (Period p div 1440)\<rparr> else r)"

definition weeklyRRule :: "recur_pattern \<Rightarrow> rrule \<Rightarrow> rrule" where
  "weeklyRRule p r = r\<lparr>RFreq := lit ''WEEKLY'', RInterval := uint (Period p), RWeekdays := bitmaskWeekdays (DayOfWeek p)\<rparr>"

definition monthlyRRule :: "recur_pattern \<Rightarrow> rrule \<Rightarrow> rrule" where
  "monthlyRRule p r = fillDayPins p (r\<lparr>RFreq := lit ''MONTHLY'', RInterval := uint (Period p)\<rparr>)"

definition yearlyRRule :: "recur_pattern \<Rightarrow> rrule \<Rightarrow> rrule" where
  "yearlyRRule p r = fillDayPins p (r\<lparr>RFreq := lit ''YEARLY'', RInterval := uint (Period p div 12)\<rparr>)"

definition rruleFreqs :: "u16 \<Rightarrow> (recur_pattern \<Rightarrow> rrule \<Rightarrow> rrule) option" where
  "rruleFreqs f =
     (if f = FreqDaily then Some dailyRRule else if f = FreqWeekly then Some weeklyRRule
      else if f = FreqMonthly then Some monthlyRRule else if f = FreqYearly then Some yearlyRRule else None)"

definition applyEndRange :: "recur_pattern \<Rightarrow> rrule \<Rightarrow> rrule option" where
  "applyEndRange p r =
     (if EndType p = EndAfterDate
      then Some (if EndDate p \<noteq> 0 \<and> EndDate p \<noteq> noEndDate then r\<lparr>RUntil := timeFromMinutes (EndDate p)\<rparr> else r)
      else if EndType p = EndAfterN then Some (r\<lparr>RCount := uint (OccurrenceCount p)\<rparr>)
      else if EndType p = EndNever \<or> EndType p = EndNeverAlt then Some r
      else None)"

definition pattern_fields :: "recur_pattern \<Rightarrow> wall \<Rightarrow> rrule option" where
  "pattern_fields p until =
     (case rruleFreqs (RecurFrequency p) of
        None \<Rightarrow> None
      | Some fill \<Rightarrow>
          (let r = fill p zero_rrule;
               r = (if RInterval r \<le> 0 then r\<lparr>RInterval := 1\<rparr> else r)
           in case applyEndRange p r of
                None \<Rightarrow> None
              | Some r \<Rightarrow> Some (if EndType p = EndAfterDate \<and> \<not> IsZero until then r\<lparr>RUntil := until\<rparr> else r)))"

definition pattern_rrule :: "recur_pattern \<Rightarrow> wall \<Rightarrow> go_string option" where
  "pattern_rrule p until = map_option rruleString (pattern_fields p until)"

definition toRRule :: "recur_pattern \<Rightarrow> go_string option" where
  "toRRule p = pattern_rrule p zero_time"

definition RRuleUntil :: "recur_pattern \<Rightarrow> wall \<Rightarrow> go_string option" where
  "RRuleUntil p until = pattern_rrule p until"

section \<open>From the rule to the pattern\<close>

definition intervalPeriod :: "rrule \<Rightarrow> u32" where
  "intervalPeriod r = word_of_int (max (RInterval r) 1)"

definition weeklyFirstDateTime :: "wall \<Rightarrow> u32 \<Rightarrow> u32" where
  "weeklyFirstDateTime start periodWeeks =
     (let weekStart = AddDays start (- Weekday start);
          weekStart = Date (Year weekStart) (Month weekStart) (DayOf weekStart) 0 0 0 0 0;
          periodMinutes = periodWeeks * 7 * 24 * 60
      in if periodMinutes = 0 then 0 else minutesSince1601 weekStart mod periodMinutes)"

definition monthlyFirstDateTime :: "wall \<Rightarrow> u32 \<Rightarrow> u32" where
  "monthlyFirstDateTime start periodMonths =
     (let monthsSince1601 = word_of_int (Year start - 1601) * 12 + word_of_int (Month start - 1) in
      if periodMonths = 0 then 0 else monthsSince1601 mod periodMonths)"

definition setDayPins :: "recur_pattern \<Rightarrow> rrule \<Rightarrow> wall \<Rightarrow> recur_pattern" where
  "setDayPins p r start =
     (if RWeekdays r \<noteq> []
      then p\<lparr>PatternType := PatternMonthNth, DayOfWeek := weekdayBitmask (RWeekdays r),
             WeekOfMonth := weekOfMonthFromSetPos (RSetPos r)\<rparr>
      else p\<lparr>PatternType := PatternMonth,
             DayOfMonth := word_of_int (if RMonthDay r = 0 then DayOf start else RMonthDay r)\<rparr>)"

definition dailyPattern :: "recur_pattern \<Rightarrow> rrule \<Rightarrow> wall \<Rightarrow> recur_pattern" where
  "dailyPattern p r start =
     (let periodMinutes = intervalPeriod r * 24 * 60 in
      p\<lparr>RecurFrequency := FreqDaily, PatternType := PatternDay, Period := periodMinutes,
        FirstDateTime := StartDate p mod periodMinutes\<rparr>)"

definition weeklyPattern :: "recur_pattern \<Rightarrow> rrule \<Rightarrow> wall \<Rightarrow> recur_pattern" where
  "weeklyPattern p r start =
     (let m = weekdayBitmask (RWeekdays r) in
      p\<lparr>RecurFrequency := FreqWeekly, PatternType := PatternWeek, Period := intervalPeriod r,
        DayOfWeek := (if m = 0 then push_bit (nat (Weekday start)) 1 else m),
        FirstDateTime := weeklyFirstDateTime start (intervalPeriod r)\<rparr>)"

definition monthlyPattern :: "recur_pattern \<Rightarrow> rrule \<Rightarrow> wall \<Rightarrow> recur_pattern" where
  "monthlyPattern p r start =
     (let p = setDayPins (p\<lparr>RecurFrequency := FreqMonthly\<rparr>) r start; period = intervalPeriod r in
      p\<lparr>Period := period, FirstDateTime := monthlyFirstDateTime start period\<rparr>)"

definition yearlyPattern :: "recur_pattern \<Rightarrow> rrule \<Rightarrow> wall \<Rightarrow> recur_pattern" where
  "yearlyPattern p r start =
     (let p = setDayPins (p\<lparr>RecurFrequency := FreqYearly\<rparr>) r start; period = intervalPeriod r * 12 in
      p\<lparr>Period := period, FirstDateTime := monthlyFirstDateTime start period\<rparr>)"

definition patternFreqs :: "go_string \<Rightarrow> (recur_pattern \<Rightarrow> rrule \<Rightarrow> wall \<Rightarrow> recur_pattern) option" where
  "patternFreqs f =
     (if f = lit ''DAILY'' then Some dailyPattern else if f = lit ''WEEKLY'' then Some weeklyPattern
      else if f = lit ''MONTHLY'' then Some monthlyPattern else if f = lit ''YEARLY'' then Some yearlyPattern else None)"

definition setEndRange :: "recur_pattern \<Rightarrow> rrule \<Rightarrow> recur_pattern" where
  "setEndRange p r =
     (if \<not> IsZero (RUntil r)
      then p\<lparr>EndType := EndAfterDate, EndDate := minutesSince1601 (RUntil r), OccurrenceCount := 0xA\<rparr>
      else if RCount r > 0
      then p\<lparr>EndType := EndAfterN, OccurrenceCount := word_of_int (RCount r), EndDate := noEndDate\<rparr>
      else p\<lparr>EndType := EndNever, OccurrenceCount := 0xA, EndDate := noEndDate\<rparr>)"

definition patternFromRecurrence :: "rrule \<Rightarrow> wall \<Rightarrow> recur_error + recur_pattern" where
  "patternFromRecurrence r start =
     (case patternFreqs (RFreq r) of
        None \<Rightarrow> Inl ErrUnsupportedFreq
      | Some fill \<Rightarrow> Inr (setEndRange (fill (zero_pattern\<lparr>StartDate := minutesSince1601 start\<rparr>) r start) r))"

section \<open>The binary pattern\<close>

definition specific_bytes :: "recur_pattern \<Rightarrow> bytes" where
  "specific_bytes p =
     (if PatternType p = PatternDay then le_bytes 4 (0 :: u32)
      else if PatternType p = PatternWeek then le_bytes 4 (DayOfWeek p)
      else if PatternType p = PatternMonth then le_bytes 4 (DayOfMonth p)
      else if PatternType p = PatternMonthNth then le_bytes 4 (DayOfWeek p) @ le_bytes 4 (WeekOfMonth p)
      else le_bytes 4 (0 :: u32))"

definition put32s :: "u32 list \<Rightarrow> bytes" where
  "put32s ds = concat (map (le_bytes 4) ds)"

definition marshal :: "recur_pattern \<Rightarrow> u32 list \<Rightarrow> u32 list \<Rightarrow> bytes" where
  "marshal p deleted modified =
     le_bytes 2 (0x3004 :: u16) @ le_bytes 2 (0x3004 :: u16) @ le_bytes 2 (RecurFrequency p) @ le_bytes 2 (PatternType p)
     @ le_bytes 2 (0 :: u16) @ le_bytes 4 (FirstDateTime p) @ le_bytes 4 (Period p) @ le_bytes 4 (0 :: u32)
     @ specific_bytes p
     @ le_bytes 4 (EndType p) @ le_bytes 4 (OccurrenceCount p) @ le_bytes 4 (FirstDOW p)
     @ le_bytes 4 (of_nat (length deleted) :: u32) @ put32s deleted
     @ le_bytes 4 (of_nat (length modified) :: u32) @ put32s modified
     @ le_bytes 4 (StartDate p) @ le_bytes 4 (EndDate p)"

definition MarshalBinary :: "recur_pattern \<Rightarrow> bytes" where
  "MarshalBinary p = marshal p [] []"

definition le32 :: "bytes \<Rightarrow> nat \<Rightarrow> u32" where
  "le32 b i = le_word (take 4 (drop i b))"

definition le16 :: "bytes \<Rightarrow> nat \<Rightarrow> u16" where
  "le16 b i = le_word (take 2 (drop i b))"

text \<open>What follows the type-specific field: the end block, the two skipped date lists, start and end.\<close>

definition unmarshal_end :: "recur_pattern \<Rightarrow> bytes \<Rightarrow> nat \<Rightarrow> recur_error + recur_pattern" where
  "unmarshal_end p b i =
     (if length b < i + 20 then Inl ErrBlob
      else
        (let p = p\<lparr>EndType := le32 b i, OccurrenceCount := le32 b (i + 4), FirstDOW := le32 b (i + 8)\<rparr>;
             i = i + 16 + unat (le32 b (i + 12)) * 4
         in
           if length b < i + 4 then Inl ErrBlob
           else
             (let i = i + 4 + unat (le32 b i) * 4 in
              if length b < i + 8 then Inl ErrBlob
              else Inr (p\<lparr>StartDate := le32 b i, EndDate := le32 b (i + 4)\<rparr>))))"

definition UnmarshalBinary :: "bytes \<Rightarrow> recur_error + recur_pattern" where
  "UnmarshalBinary b =
     (if length b < 40 then Inl ErrBlob
      else
        (let p = zero_pattern\<lparr>RecurFrequency := le16 b 4, PatternType := le16 b 6, FirstDateTime := le32 b 10, Period := le32 b 14\<rparr>
         in
           if PatternType p = PatternDay then unmarshal_end p b 26
           else if PatternType p = PatternWeek then unmarshal_end (p\<lparr>DayOfWeek := le32 b 22\<rparr>) b 26
           else if PatternType p = PatternMonth then unmarshal_end (p\<lparr>DayOfMonth := le32 b 22\<rparr>) b 26
           else if PatternType p = PatternMonthNth then
             (if length b < 22 + 8 then Inl ErrBlob
              else unmarshal_end (p\<lparr>DayOfWeek := le32 b 22, WeekOfMonth := le32 b 26\<rparr>) b 30)
           else Inl ErrBlob))"

definition ToRRule :: "bytes \<Rightarrow> go_string option" where
  "ToRRule blob = (case UnmarshalBinary blob of Inl _ \<Rightarrow> None | Inr p \<Rightarrow> toRRule p)"

definition FromRRule :: "(rune \<Rightarrow> rune) \<Rightarrow> go_string \<Rightarrow> wall \<Rightarrow> recur_error + bytes" where
  "FromRRule upper rruleText seriesStart =
     bindr (parseRRule upper rruleText) (\<lambda>rec.
     bindr (patternFromRecurrence rec seriesStart) (\<lambda>p. Inr (MarshalBinary p)))"

end
