(* ===== verification/Recur_Laws.thy ===== *)
theory Recur_Laws
  imports Recur_Rule
begin

text \<open>
  Laws of the recurrence pattern: the minute count since 1601 and its inverse, the binary pattern, the RRULE
  text, and what a rule keeps when it passes through the binary pattern.
\<close>

unbundle bit_operations_syntax

section \<open>Minutes since 1601\<close>

lemma year_start_1601 [simp]: "year_start 1601 = 0"
  by (simp add: year_start_def)

lemma epoch_fields [simp]: "WDay epoch1601 = 0" "WSec epoch1601 = 0" "WNsec epoch1601 = 0" "WZone epoch1601 = 0"
  by (simp_all add: epoch1601_def Date_def day_number_def month_start_def)

lemma instant_epoch [simp]: "instant epoch1601 = 0"
  by (simp add: instant_def)

lemma last_day: "YearDay (Date y 12 31 0 0 0 0 0) = year_len y"
proof -
  let ?t = "Date y 12 31 0 0 0 0 0"
  have m: "month_start (leap y) 11 + 31 = year_len y" by (simp add: month_start_def year_len_def)
  have w: "WDay ?t = year_start y + year_len y - 1" using m by (simp add: Date_def day_number_def)
  have "year_of (WDay ?t) = y" by (rule year_of_unique) (use w in \<open>simp_all add: year_start_Suc year_len_def\<close>)
  then show ?thesis using w by (simp add: YearDay_def yday_of_def)
qed

lemma year_days_eq: "y \<le> z \<Longrightarrow> year_days y z d = d + year_start z - year_start y"
proof (induction "nat (z - y)" arbitrary: y d)
  case (Suc n)
  then have "year_days (y + 1) z (d + year_len y) = d + year_len y + year_start z - year_start (y + 1)"
    by (intro Suc.hyps(1)) auto
  then show ?case using Suc by (simp add: year_days.simps [of y] last_day year_start_Suc)
qed (simp add: year_days.simps)

lemma year_from_1601: "0 \<le> d \<Longrightarrow> 1601 \<le> year_of d"
  using year_of_bounds [of d] year_start_mono [of "year_of d + 1" 1601] by (cases "1601 \<le> year_of d") auto

lemma minutes_eq:
  assumes "wall_ok t" "0 \<le> WDay t" "0 \<le> instant t"
  shows "minutesSince1601 t = word_of_int (WDay t * 1440 + WSec t div 60)"
proof -
  have s: "0 \<le> WSec t" "WSec t < 86400" using assms(1) by (simp_all add: wall_ok_def)
  note c = clock_fields [OF s]
  have "WSec t = 60 * (Hour t * 60 + Minute t) + Second t" using c(1) by (simp add: algebra_simps)
  then have m: "WSec t div 60 = Hour t * 60 + Minute t" using int_div_pos_eq c(6,7) by blast
  have "year_days 1601 (Year t) 0 + (YearDay t - 1) = WDay t"
    using year_from_1601 [OF assms(2)] by (simp add: Year_def year_days_eq YearDay_def yday_of_def)
  then show ?thesis using assms(3) by (simp add: minutesSince1601_def Let_def m)
qed

lemma timeFromMinutes_fields:
  "timeFromMinutes m = \<lparr>WDay = uint m div 1440, WSec = uint m mod 1440 * 60, WNsec = 0, WZone = 0\<rparr>"
proof -
  let ?d = "uint m div 1440" and ?r = "uint m mod 1440"
  have "0 \<le> ?r" "?r < 1440" by simp_all
  then have r: "0 \<le> ?r * 60" "?r * 60 < 86400" by linarith+
  have e: "?d * 86400 + ?r * 60 = 86400 * ?d + ?r * 60" by simp
  have "(?d * 86400 + ?r * 60) div 86400 = ?d" "(?d * 86400 + ?r * 60) mod 86400 = ?r * 60"
    using int_div_pos_eq [OF e r] int_mod_pos_eq [OF e r] by auto
  then show ?thesis
    by (simp add: timeFromMinutes_def AddSeconds_def AddDays_def Let_def wall.equality)
qed

lemma uint_u32: "0 \<le> x \<Longrightarrow> x < 2 ^ 32 \<Longrightarrow> uint (word_of_int x :: u32) = x"
  by (simp add: uint_word_of_int_eq take_bit_int_eq_self)

lemma minutes_of_time: "minutesSince1601 (timeFromMinutes m) = m"
proof -
  have u: "uint m div 1440 * 1440 + uint m mod 1440 * 60 div 60 = uint m" by simp
  have "0 \<le> uint m mod 1440" "uint m mod 1440 < 1440" "0 \<le> uint m div 1440" by (simp_all add: pos_imp_zdiv_nonneg_iff)
  then have "minutesSince1601 (timeFromMinutes m) = word_of_int (uint m div 1440 * 1440 + uint m mod 1440 * 60 div 60)"
    by (subst minutes_eq) (auto simp: timeFromMinutes_fields wall_ok_def instant_def)
  then show ?thesis by (simp only: u) simp
qed

lemma time_of_minutes:
  assumes "wall_ok t" "0 \<le> WDay t" "WZone t = 0" "WDay t * 1440 + WSec t div 60 < 2 ^ 32"
  shows "timeFromMinutes (minutesSince1601 t) = t\<lparr>WSec := WSec t - WSec t mod 60, WNsec := 0\<rparr>"
proof -
  have s: "0 \<le> WSec t" "WSec t < 86400" using assms(1) by (simp_all add: wall_ok_def)
  define q where "q = WSec t div 60"
  obtain k where k: "WSec t = 60 * q + k" "0 \<le> k" "k < 60" using div_parts [of 60 "WSec t"] unfolding q_def by auto
  then have q: "0 \<le> q" "q < 1440" using s by linarith+
  let ?m = "WDay t * 1440 + q"
  have "minutesSince1601 t = word_of_int ?m"
    unfolding q_def using assms s by (intro minutes_eq) (auto simp: instant_def)
  then have u: "uint (minutesSince1601 t) = ?m" using uint_u32 [of ?m] assms(2,4) q by (simp only: q_def)
  have e: "?m = 1440 * WDay t + q" by simp
  have "?m div 1440 = WDay t" "?m mod 1440 = q"
    using int_div_pos_eq [OF e q] int_mod_pos_eq [OF e q] by auto
  moreover have "WSec t - WSec t mod 60 = q * 60" using k int_mod_pos_eq [OF k] by simp
  ultimately show ?thesis using assms(3) by (simp add: timeFromMinutes_fields u wall.equality)
qed

section \<open>The binary pattern\<close>

lemma length_put32s [simp]: "length (put32s ds) = 4 * length ds"
  by (induction ds) (simp_all add: put32s_def)

definition end_bytes :: "recur_pattern \<Rightarrow> u32 list \<Rightarrow> u32 list \<Rightarrow> bytes" where
  "end_bytes p deleted modified =
     le_bytes 4 (EndType p) @ le_bytes 4 (OccurrenceCount p) @ le_bytes 4 (FirstDOW p)
     @ le_bytes 4 (of_nat (length deleted) :: u32) @ put32s deleted
     @ le_bytes 4 (of_nat (length modified) :: u32) @ put32s modified
     @ le_bytes 4 (StartDate p) @ le_bytes 4 (EndDate p)"

lemma le32_at: "le32 (pre @ le_bytes 4 w @ rest) (length pre) = w"
  by (simp add: le32_def)

lemma le32_skip: "length pre = n \<Longrightarrow> le32 (pre @ b) (n + i) = le32 b i" "length pre = n \<Longrightarrow> le32 (pre @ b) n = le32 b 0"
  by (auto simp: le32_def)

lemma unmarshal_end_trip:
  assumes "length deleted < 2 ^ 32" "length modified < 2 ^ 32"
  shows "unmarshal_end p0 (pre @ end_bytes p deleted modified @ rest) (length pre)
    = Inr (p0\<lparr>EndType := EndType p, OccurrenceCount := OccurrenceCount p, FirstDOW := FirstDOW p,
              StartDate := StartDate p, EndDate := EndDate p\<rparr>)"
proof -
  let ?b = "pre @ end_bytes p deleted modified @ rest" and ?i = "length pre"
  let ?nd = "of_nat (length deleted) :: u32" and ?nm = "of_nat (length modified) :: u32"
  have u: "unat ?nd = length deleted" "unat ?nm = length modified" using assms by (simp_all add: unat_of_nat_less)
  have 1: "le32 ?b ?i = EndType p" "le32 ?b (?i + 4) = OccurrenceCount p" "le32 ?b (?i + 8) = FirstDOW p" "le32 ?b (?i + 12) = ?nd"
    by (simp_all add: le32_def end_bytes_def)
  let ?j = "?i + 16 + length deleted * 4"
  have 2: "le32 ?b ?j = ?nm" by (simp add: le32_def end_bytes_def)
  let ?k = "?j + 4 + length modified * 4"
  have 3: "le32 ?b ?k = StartDate p" "le32 ?b (?k + 4) = EndDate p" by (simp_all add: le32_def end_bytes_def)
  have l: "length ?b = ?k + 8 + length rest" by (simp add: end_bytes_def)
  show ?thesis unfolding unmarshal_end_def Let_def 1 u 2 3 l by simp
qed

text \<open>What the binary pattern carries: of the three pins only those of its type.\<close>

definition wire_pins :: "recur_pattern \<Rightarrow> recur_pattern" where
  "wire_pins p = p\<lparr>DayOfWeek := (if PatternType p = PatternWeek \<or> PatternType p = PatternMonthNth then DayOfWeek p else 0),
     DayOfMonth := (if PatternType p = PatternMonth then DayOfMonth p else 0),
     WeekOfMonth := (if PatternType p = PatternMonthNth then WeekOfMonth p else 0)\<rparr>"

definition head_bytes :: "recur_pattern \<Rightarrow> bytes" where
  "head_bytes p = le_bytes 2 (0x3004 :: u16) @ le_bytes 2 (0x3004 :: u16) @ le_bytes 2 (RecurFrequency p) @ le_bytes 2 (PatternType p)
     @ le_bytes 2 (0 :: u16) @ le_bytes 4 (FirstDateTime p) @ le_bytes 4 (Period p) @ le_bytes 4 (0 :: u32)"

lemma marshal_parts: "marshal p deleted modified = (head_bytes p @ specific_bytes p) @ end_bytes p deleted modified"
  by (simp add: marshal_def head_bytes_def end_bytes_def)

lemma UnmarshalBinary_marshal:
  assumes "PatternType p \<in> {PatternDay, PatternWeek, PatternMonth, PatternMonthNth}"
    "length deleted < 2 ^ 32" "length modified < 2 ^ 32"
  shows "UnmarshalBinary (marshal p deleted modified @ rest) = Inr (wire_pins p)"
proof -
  let ?pre = "head_bytes p @ specific_bytes p"
  let ?b = "marshal p deleted modified @ rest"
  have b: "?b = ?pre @ end_bytes p deleted modified @ rest" by (simp add: marshal_parts)
  have l: "length (head_bytes p) = 22" "\<not> length ?b < 40" by (simp_all add: head_bytes_def b end_bytes_def)
  have h: "le16 ?b 4 = RecurFrequency p" "le16 ?b 6 = PatternType p" "le32 ?b 10 = FirstDateTime p" "le32 ?b 14 = Period p"
    by (simp_all add: b le16_def le32_def head_bytes_def)
  have pin: "le32 ?b 22 = DayOfWeek p" if "PatternType p = PatternWeek \<or> PatternType p = PatternMonthNth"
    using that by (auto simp: b le32_def head_bytes_def specific_bytes_def)
  have pin': "le32 ?b 22 = DayOfMonth p" if "PatternType p = PatternMonth"
    using that by (simp add: b le32_def head_bytes_def specific_bytes_def)
  have pin'': "le32 ?b 26 = WeekOfMonth p" if "PatternType p = PatternMonthNth"
    using that by (simp add: b le32_def head_bytes_def specific_bytes_def)
  have n: "length ?pre = (if PatternType p = PatternMonthNth then 30 else 26)"
    using l(1) by (simp add: specific_bytes_def)
  have e: "unmarshal_end p0 ?b (length ?pre) = Inr (p0\<lparr>EndType := EndType p, OccurrenceCount := OccurrenceCount p,
      FirstDOW := FirstDOW p, StartDate := StartDate p, EndDate := EndDate p\<rparr>)" for p0
    unfolding b by (rule unmarshal_end_trip [OF assms(2,3)])
  show ?thesis
    using assms(1) l(2) e unfolding n
    by (auto simp: UnmarshalBinary_def Let_def h pin pin' pin'' wire_pins_def zero_pattern_def)
qed

end
