(* ===== verification/Recur_Text.thy ===== *)
theory Recur_Text
  imports Recur_Laws
begin

text \<open>
  The RRULE text: printing a rule in normal form and parsing it gives the rule back.
\<close>

unbundle bit_operations_syntax

section \<open>Upper-case words\<close>

definition letters :: "go_string \<Rightarrow> bool" where
  "letters s \<longleftrightarrow> list_all (\<lambda>b. 0x41 \<le> unat b \<and> unat b \<le> 0x5A) s"

text \<open>The case table leaves the upper-case letters of ASCII alone.\<close>

definition upper_ok :: "(rune \<Rightarrow> rune) \<Rightarrow> bool" where
  "upper_ok upper \<longleftrightarrow> (\<forall>r\<in>{0x41..0x5A}. upper r = r)"

lemma letters_decode: "letters s \<Longrightarrow> utf8_decode s = map unat s"
  by (induction s) (simp_all add: letters_def decode_rune.simps Let_def split: prod.splits)

lemma letters_append [simp]: "letters (a @ b) \<longleftrightarrow> letters a \<and> letters b"
  by (simp add: letters_def)

lemma letters_drop: "letters s \<Longrightarrow> letters (drop n s)"
  by (metis append_take_drop_id letters_append)

lemma ToUpper_letters:
  assumes "upper_ok upper" "letters s"
  shows "ToUpper upper s = s"
proof -
  have "upper (unat b) = unat b \<and> encode_rune (unat b) = [b]" if "b \<in> set s" for b
  proof -
    have b: "0x41 \<le> unat b" "unat b \<le> 0x5A" using assms(2) that by (auto simp: letters_def list_all_iff)
    then have "upper (unat b) = unat b" using assms(1) by (simp add: upper_ok_def)
    then show ?thesis using b by (simp add: encode_rune_def scalar_def Let_def)
  qed
  then have "concat (map (\<lambda>b. encode_rune (upper (unat b))) s) = s"
    by (induction s) auto
  then show ?thesis by (simp add: ToUpper_def letters_decode [OF assms(2)] utf8_encode_def o_def)
qed

lemma letters_no_space:
  assumes "letters s"
  shows "last_space_len s = 0"
proof -
  have "\<not> isSpace r" if mem: "r \<in> set (utf8_decode (drop n s))" for r n
  proof -
    have l: "letters (drop n s)" by (rule letters_drop [OF assms])
    then obtain b where b: "r = unat b" "b \<in> set (drop n s)" using mem by (auto simp: letters_decode)
    then have "0x41 \<le> unat b" "unat b \<le> 0x5A" using l by (auto simp: letters_def list_all_iff)
    then show ?thesis by (simp add: isSpace_def b)
  qed
  then show ?thesis by (auto simp: last_space_len_def Let_def)
qed

lemma TrimSpace_letters:
  assumes "letters s"
  shows "TrimSpace s = s"
proof -
  have "trim_left (length s) s = s"
  proof (cases s)
    case (Cons b r)
    then have "0x41 \<le> unat b" "unat b \<le> 0x5A" using assms by (simp_all add: letters_def)
    then show ?thesis by (auto simp: Cons decode_rune.simps Let_def isSpace_def split: prod.splits)
  qed simp
  moreover have "trim_right (length s) s = s" using letters_no_space [OF assms] by (cases s) simp_all
  ultimately show ?thesis by (simp add: TrimSpace_def)
qed

lemma letters_no: "letters s \<Longrightarrow> unat c < 0x41 \<Longrightarrow> c \<notin> set s"
  by (auto simp: letters_def list_all_iff)

section \<open>Numbers\<close>

lemma Itoa_chars: "c \<in> set (Itoa i) \<Longrightarrow> c = 0x2D \<or> is_digit c"
  using decimal_digits by (auto simp: Itoa_def list_all_iff split: if_splits)

lemma Atoi_Itoa:
  assumes "- (2 ^ 63) \<le> i" "i < 2 ^ 63"
  shows "Atoi (Itoa i) = Some i"
proof -
  have h: "hd (decimal n) \<noteq> 0x2D" "hd (decimal n) \<noteq> 0x2B" for n
    using decimal_digits [of n] decimal_not_Nil [of n] by (cases "decimal n"; auto simp: is_digit_def)+
  show ?thesis using assms decimal_digits h
    by (simp add: Atoi_def Itoa_def Let_def digits_value_decimal nat_less_iff)
qed

lemma decimal_length: "n < 10 ^ Suc w \<Longrightarrow> length (decimal n) \<le> Suc w"
proof (induction w arbitrary: n)
  case (Suc w)
  then show ?case using Suc.IH [of "n div 10"] by (simp add: decimal.simps [of n] less_mult_imp_div_less mult.commute)
qed (simp add: decimal.simps)

lemma digits_value_zeros: "digits_value (replicate k 0x30 @ ds) = digits_value ds"
  by (induction k) (simp_all add: digits_value_def)

lemma padded_digits:
  assumes "0 \<le> i" "i < 10 ^ Suc w"
  shows "length (padded (Suc w) i) = Suc w" "list_all is_digit (padded (Suc w) i)" "int (digits_value (padded (Suc w) i)) = i"
proof -
  have "nat i < 10 ^ Suc w" using assms by (simp add: nat_less_iff)
  then have "length (decimal (nat i)) \<le> Suc w" by (rule decimal_length)
  then show "length (padded (Suc w) i) = Suc w" using assms by (simp add: padded_def Let_def)
  show "list_all is_digit (padded (Suc w) i)" "int (digits_value (padded (Suc w) i)) = i"
    using assms decimal_digits [of "nat i"]
    by (auto simp: padded_def Let_def digits_value_zeros digits_value_decimal list_all_iff is_digit_def
        simp del: replicate_Suc)
qed

lemma padded_two:
  assumes "0 \<le> i" "i < 100"
  obtains a b where "padded 2 i = [a, b]" "is_digit a" "is_digit b" "int (digits_value [a, b]) = i"
proof -
  have p: "length (padded 2 i) = 2" "list_all is_digit (padded 2 i)" "int (digits_value (padded 2 i)) = i"
    using padded_digits [of i 1, unfolded Suc_1] assms by simp_all
  have two: "\<exists>a b. xs = [a, b]" if "length xs = 2" for xs :: go_string
    using that by (cases xs; cases "tl xs") auto
  obtain a b where e: "padded 2 i = [a, b]" using two [OF p(1)] by blast
  show ?thesis using p(2,3) unfolding e by (intro that [OF e]) simp_all
qed

lemma getnum_padded:
  assumes "0 \<le> i" "i < 100"
  shows "getnum fixed (padded 2 i @ r) = Some (i, r)"
proof -
  obtain a b where p: "padded 2 i = [a, b]" "is_digit a" "is_digit b" "int (digits_value [a, b]) = i"
    using assms by (rule padded_two)
  show ?thesis using p(2,3) by (simp add: p(1) p(4) getnum_def)
qed

lemma parse_date_padded:
  assumes "0 \<le> y" "y < 10000" "1 \<le> m" "m \<le> 12" "0 \<le> d" "d < 100"
  shows "parse_date (padded 4 y @ padded 2 m @ padded 2 d @ r) = Some ((y, m, d), r)"
proof -
  have "length (padded 4 y) = 4" "list_all is_digit (padded 4 y)" "int (digits_value (padded 4 y)) = y"
    using padded_digits [of y 3] assms by simp_all
  then show ?thesis using assms by (simp add: parse_date_def getnum_padded)
qed

lemma parse_clock_padded:
  assumes "0 \<le> h" "h < 24" "0 \<le> mi" "mi < 60" "0 \<le> s" "s < 60"
  shows "parse_clock (padded 2 h @ padded 2 mi @ padded 2 s @ [0x5A]) = Some ((h, mi, s, 0), [0x5A])"
  using assms by (simp add: parse_clock_def getnum_padded parse_fraction_def)

text \<open>An instant the UNTIL parameter can carry: UTC, whole seconds, a year of four digits.\<close>

definition until_ok :: "wall \<Rightarrow> bool" where
  "until_ok t \<longleftrightarrow> wall_ok t \<and> WNsec t = 0 \<and> WZone t = 0 \<and> 0 \<le> Year t \<and> Year t < 10000"

lemma UTC_id: "wall_ok t \<Longrightarrow> WZone t = 0 \<Longrightarrow> UTC t = t"
proof -
  assume t: "wall_ok t" "WZone t = 0"
  have e: "WDay t * 86400 + WSec t = 86400 * WDay t + WSec t" by simp
  have s: "0 \<le> WSec t" "WSec t < 86400" using t by (simp_all add: wall_ok_def)
  show ?thesis using int_div_pos_eq [OF e s] int_mod_pos_eq [OF e s] t by (simp add: UTC_def instant_def)
qed

lemma until_roundtrip:
  assumes "until_ok t"
  shows "parseRRuleUntil (format_until t) = Some t"
proof -
  have t: "wall_ok t" "WNsec t = 0" "WZone t = 0" "0 \<le> Year t" "Year t < 10000" using assms by (simp_all add: until_ok_def)
  have s: "0 \<le> WSec t" "WSec t < 86400" using t(1) by (simp_all add: wall_ok_def)
  note c = clock_fields [OF s] and m = month_day_range [of t]
  have "Month t \<in> {1, 2, 3, 4, 5, 6, 7, 8, 9, 10, 11, 12}" using m(1,2) by simp presburger
  then have "daysIn (Month t) (Year t) < 100" by (auto simp: daysIn_def month_start_def)
  then have d: "0 \<le> DayOf t" "DayOf t < 100" using m by linarith+
  have "Date (Year t) (Month t) (DayOf t) (Hour t) (Minute t) (Second t) 0 0 = t"
    using c(1) t(2,3) by (simp add: Date_def day_number_fields)
  then show ?thesis using t c m d parse_date_padded [of "Year t" "Month t" "DayOf t"]
    by (simp add: parseRRuleUntil_def format_until_def parse_layout_def parse_clock_padded UTC_id)
qed

section \<open>Parts of a rule\<close>

definition part_text :: "go_string \<times> go_string \<Rightarrow> go_string" where
  "part_text p = fst p @ 0x3D # snd p"

definition rule_parts :: "rrule \<Rightarrow> (go_string \<times> go_string) list" where
  "rule_parts r =
     (lit ''INTERVAL'', Itoa (RInterval r))
     # (if RCount r > 0 then [(lit ''COUNT'', Itoa (RCount r))] else [])
     @ (if \<not> IsZero (RUntil r) then [(lit ''UNTIL'', format_until (UTC (RUntil r)))] else [])
     @ (if RWeekdays r \<noteq> [] then
          (lit ''BYDAY'', join_comma (RWeekdays r)) # (if RSetPos r \<noteq> 0 then [(lit ''BYSETPOS'', Itoa (RSetPos r))] else [])
        else [])
     @ (if RMonthDay r \<noteq> 0 then [(lit ''BYMONTHDAY'', Itoa (RMonthDay r))] else [])"

lemma rruleString_parts:
  "rruleString r = part_text (lit ''FREQ'', RFreq r) @ concat (map (\<lambda>p. 0x3B # part_text p) (rule_parts r))"
  by (simp add: rruleString_def rule_parts_def part_text_def)

lemma Split_parts:
  assumes "0x3B \<notin> set a" "\<And>p. p \<in> set ps \<Longrightarrow> 0x3B \<notin> set (part_text p)"
  shows "Split (a @ concat (map (\<lambda>p. 0x3B # part_text p) ps)) 0x3B = a # map part_text ps"
  using assms
proof (induction ps arbitrary: a)
  case (Cons p ps)
  then show ?case using Cons.IH [of "part_text p"] by (simp add: Split_append)
qed (simp add: Split_no_sep)

text \<open>The fields are assigned in the order of the parts.\<close>

fun assign_parts :: "(rune \<Rightarrow> rune) \<Rightarrow> (go_string \<times> go_string) list \<Rightarrow> rrule \<Rightarrow> recur_error + rrule" where
  "assign_parts upper [] r = Inr r"
| "assign_parts upper ((k, v) # ps) r =
     (case rruleFields upper k of
        None \<Rightarrow> assign_parts upper ps r
      | Some set_field \<Rightarrow> bindr (set_field r v) (\<lambda>r. assign_parts upper ps r))"

lemma parse_parts_assign:
  assumes "upper_ok upper" "\<And>p. p \<in> set ps \<Longrightarrow> letters (fst p)"
  shows "parse_parts upper (map part_text ps) r = assign_parts upper ps r"
  using assms(2)
proof (induction ps arbitrary: r)
  case (Cons p ps)
  obtain k v where p: "p = (k, v)" by (cases p)
  have k: "letters k" using Cons.prems [of p] p by simp
  have "Cut (part_text p) 0x3D = (k, v, True)"
    using letters_no [OF k, of "0x3D"] by (simp add: part_text_def p Cut_append)
  moreover have "parse_parts upper (map part_text ps) = assign_parts upper ps"
    using Cons by (intro ext) simp
  ultimately show ?case using k by (simp add: p TrimSpace_letters ToUpper_letters [OF assms(1)] split: option.split)
qed simp

section \<open>Weekday lists\<close>

lemma byday_tokens_letters:
  assumes "upper_ok upper" "\<And>d. d \<in> set ds \<Longrightarrow> letters d \<and> d \<noteq> []"
  shows "byday_tokens upper ds acc p = (acc @ ds, p)"
  using assms(2)
proof (induction ds arbitrary: acc)
  case (Cons d ds)
  obtain b r where d: "d = b # r" "letters d" using Cons.prems [of d] by (cases d) auto
  have "0x41 \<le> unat b" using d by (simp add: letters_def)
  then have "\<not> byday_prefix b" by (auto simp: byday_prefix_def is_digit_def word_le_nat_alt)
  then have "takeWhile byday_prefix d = []" "dropWhile byday_prefix d = d" by (simp_all add: d(1))
  then show ?case using Cons.IH [of "acc @ [d]"] Cons.prems d
    by (simp add: TrimSpace_letters ToUpper_letters [OF assms(1)] Let_def del: takeWhile.simps dropWhile.simps)
qed simp

lemma Split_join_comma:
  assumes "ds \<noteq> []" "\<And>d. d \<in> set ds \<Longrightarrow> COMMA \<notin> set d"
  shows "Split (join_comma ds) COMMA = ds"
  using assms by (induction ds rule: join_comma.induct) (simp_all add: Split_no_sep Split_append)

lemma parseByDay_join:
  assumes "upper_ok upper" "ds \<noteq> []" "\<And>d. d \<in> set ds \<Longrightarrow> letters d \<and> d \<noteq> []"
  shows "parseByDay upper (join_comma ds) = (ds, 0)"
proof -
  have "Split (join_comma ds) COMMA = ds" using assms(3) letters_no by (intro Split_join_comma assms(2)) fastforce
  then show ?thesis using byday_tokens_letters [of upper ds] assms by (simp add: parseByDay_def)
qed

section \<open>Round trip\<close>

definition rule_ok :: "rrule \<Rightarrow> bool" where
  "rule_ok r \<longleftrightarrow>
     letters (RFreq r) \<and> RFreq r \<noteq> [] \<and> 1 \<le> RInterval r \<and> RInterval r \<le> maxRRuleInterval
     \<and> 0 \<le> RCount r \<and> RCount r < 2 ^ 32 \<and> (RUntil r = zero_time \<or> until_ok (RUntil r) \<and> \<not> IsZero (RUntil r))
     \<and> list_all (\<lambda>d. letters d \<and> d \<noteq> []) (RWeekdays r)
     \<and> (RWeekdays r = [] \<longrightarrow> RSetPos r = 0) \<and> - (2 ^ 63) \<le> RSetPos r \<and> RSetPos r < 2 ^ 63
     \<and> - (2 ^ 63) \<le> RMonthDay r \<and> RMonthDay r < 2 ^ 63 \<and> RMonth r = 0"

lemma padded_no_semicolon: "0x3B \<notin> set (padded w i)"
  using decimal_no [of "0x3B" "nat \<bar>i\<bar>"] by (auto simp: padded_def Let_def is_digit_def)

lemma format_until_no_semicolon: "0x3B \<notin> set (format_until t)"
  by (simp add: format_until_def padded_no_semicolon)

lemma join_comma_no_semicolon: "(\<And>d. d \<in> set ds \<Longrightarrow> letters d) \<Longrightarrow> 0x3B \<notin> set (join_comma ds)"
  using letters_no [where c = "0x3B"] by (induction ds rule: join_comma.induct) auto

lemma Itoa_no_semicolon: "0x3B \<notin> set (Itoa i)"
  using Itoa_chars [of "0x3B" i] by (auto simp: is_digit_def)

lemma rule_parts_clean:
  assumes "rule_ok r" "p \<in> set (rule_parts r)"
  shows "letters (fst p) \<and> 0x3B \<notin> set (part_text p)"
proof -
  have "0x3B \<notin> set (join_comma (RWeekdays r))"
    using assms(1) by (intro join_comma_no_semicolon) (simp add: rule_ok_def list_all_iff)
  then show ?thesis using assms(2)
    by (auto simp: rule_parts_def part_text_def letters_def Itoa_no_semicolon format_until_no_semicolon split: if_splits)
qed

lemma rruleFields_keys:
  "rruleFields upper (lit ''FREQ'') = Some (setFreq upper)"
  "rruleFields upper (lit ''INTERVAL'') = Some setInterval"
  "rruleFields upper (lit ''COUNT'') = Some setCount"
  "rruleFields upper (lit ''UNTIL'') = Some setUntil"
  "rruleFields upper (lit ''BYDAY'') = Some (setByDayParam upper)"
  "rruleFields upper (lit ''BYMONTHDAY'') = Some setMonthDayParam"
  "rruleFields upper (lit ''BYSETPOS'') = Some setSetPosParam"
  by (simp_all add: rruleFields_def)

lemma IsZero_zero: "IsZero zero_time"
  by (simp add: IsZero_def zero_time_def)

lemma assign_rule_parts:
  assumes "rule_ok r" "upper_ok upper"
  shows "assign_parts upper ((lit ''FREQ'', RFreq r) # rule_parts r) (zero_rrule\<lparr>RInterval := 1\<rparr>) = Inr r"
proof -
  have f: "setFreq upper q (RFreq r) = Inr (q\<lparr>RFreq := RFreq r\<rparr>)" for q
    using assms by (simp add: setFreq_def rule_ok_def TrimSpace_letters ToUpper_letters)
  have i: "setInterval q (Itoa (RInterval r)) = Inr (q\<lparr>RInterval := RInterval r\<rparr>)" for q
    using assms(1) by (simp add: setInterval_def rule_ok_def Atoi_Itoa)
  have c: "setCount q (Itoa (RCount r)) = Inr (q\<lparr>RCount := RCount r\<rparr>)" if "RCount r > 0" for q
    using assms(1) that by (simp add: setCount_def rule_ok_def Atoi_Itoa)
  have u: "setUntil q (format_until (UTC (RUntil r))) = Inr (q\<lparr>RUntil := RUntil r\<rparr>)" if "\<not> IsZero (RUntil r)" for q
  proof -
    have "until_ok (RUntil r)" using assms(1) that by (auto simp: rule_ok_def IsZero_def zero_time_def)
    then show ?thesis by (simp add: setUntil_def until_roundtrip UTC_id until_ok_def)
  qed
  have d: "setByDayParam upper q (join_comma (RWeekdays r)) = Inr (q\<lparr>RWeekdays := RWeekdays r, RSetPos := 0\<rparr>)"
    if "RWeekdays r \<noteq> []" for q
    using assms that parseByDay_join [of upper "RWeekdays r"] by (simp add: setByDayParam_def rule_ok_def list_all_iff)
  have s: "setSetPosParam q (Itoa (RSetPos r)) = Inr (q\<lparr>RSetPos := RSetPos r\<rparr>)" for q
    using assms(1) by (simp add: setSetPosParam_def rule_ok_def Atoi_Itoa)
  have m: "setMonthDayParam q (Itoa (RMonthDay r)) = Inr (q\<lparr>RMonthDay := RMonthDay r\<rparr>)" for q
    using assms(1) by (simp add: setMonthDayParam_def rule_ok_def Atoi_Itoa)
  have z: "RMonth r = 0" "RCount r \<le> 0 \<Longrightarrow> RCount r = 0" "IsZero (RUntil r) \<Longrightarrow> RUntil r = zero_time"
    "RWeekdays r = [] \<Longrightarrow> RSetPos r = 0"
    using assms(1) by (auto simp: rule_ok_def)
  show ?thesis
    by (cases "RCount r > 0"; cases "IsZero (RUntil r)"; cases "RWeekdays r = []"; cases "RSetPos r = 0"; cases "RMonthDay r = 0")
      (simp_all add: rule_parts_def rruleFields_keys [simplified] f i c u d s m z zero_rrule_def IsZero_zero)
qed

lemma parseRRule_rruleString:
  assumes "rule_ok r" "upper_ok upper"
  shows "parseRRule upper (rruleString r) = Inr r"
proof -
  let ?ps = "(lit ''FREQ'', RFreq r) # rule_parts r"
  have f: "letters (RFreq r)" "RFreq r \<noteq> []" using assms(1) by (simp_all add: rule_ok_def)
  have h: "0x3B \<notin> set (part_text (lit ''FREQ'', RFreq r))" using letters_no [OF f(1), of "0x3B"] by (simp add: part_text_def)
  have l: "letters (fst p)" if "p \<in> set ?ps" for p
    using that rule_parts_clean [OF assms(1), of p] by (auto simp: letters_def)
  have "Split (rruleString r) 0x3B = map part_text ?ps"
    using Split_parts [OF h, of "rule_parts r"] rule_parts_clean [OF assms(1)] unfolding rruleString_parts by simp
  moreover have "parse_parts upper (map part_text ?ps) (zero_rrule\<lparr>RInterval := 1\<rparr>) = Inr r"
    using parse_parts_assign [OF assms(2) l] assign_rule_parts [OF assms] by metis
  ultimately show ?thesis using f(2) unfolding parseRRule_def by (simp only: bindr_simps if_False)
qed

end
