(* ===== verification/Recur_Trip.thy ===== *)
theory Recur_Trip
  imports Recur_Text
begin

text \<open>
  Conversions between rules and patterns: what survives the way from an RRULE through the binary pattern and back,
  and the bounds that keep the period of a pattern from wrapping.
\<close>

unbundle bit_operations_syntax

section \<open>Weekday masks\<close>

definition week_order :: "go_string list \<Rightarrow> go_string list" where
  "week_order ds = map snd (filter (\<lambda>(b, tok). tok \<in> set ds) weekday_bits)"

definition weekday_bit :: "go_string \<Rightarrow> u32" where
  "weekday_bit d = (case map_of (map (\<lambda>(b, tok). (tok, b)) weekday_bits) d of Some b \<Rightarrow> b | None \<Rightarrow> 0)"

lemma weekday_bits_apart: "list_all (\<lambda>(b, d). list_all (\<lambda>(c, tok). (b AND c \<noteq> 0) = (d = tok)) weekday_bits) weekday_bits"
  by code_simp

lemma weekday_bit_iff:
  assumes "(b, tok) \<in> set weekday_bits"
  shows "weekday_bit d AND b \<noteq> 0 \<longleftrightarrow> d = tok"
proof (cases "map_of (map (\<lambda>(b, tok). (tok, b)) weekday_bits) d")
  case None
  then have "d \<noteq> tok" using assms by (force simp: map_of_eq_None_iff)
  then show ?thesis using None by (simp add: weekday_bit_def)
next
  case (Some c)
  then have "(c, d) \<in> set weekday_bits" by (auto dest: map_of_SomeD)
  then show ?thesis using Some assms weekday_bits_apart by (auto simp: weekday_bit_def list_all_iff)
qed

lemma weekdayBitmask_and:
  assumes "(b, tok) \<in> set weekday_bits"
  shows "weekdayBitmask ds AND b \<noteq> 0 \<longleftrightarrow> tok \<in> set ds"
proof -
  have "foldl (\<lambda>m d. m OR weekday_bit d) m ds AND b \<noteq> 0 \<longleftrightarrow> m AND b \<noteq> 0 \<or> tok \<in> set ds" for m
  proof (induction ds arbitrary: m)
    case (Cons d ds)
    have "(m OR weekday_bit d) AND b \<noteq> 0 \<longleftrightarrow> m AND b \<noteq> 0 \<or> d = tok"
      using weekday_bit_iff [OF assms, of d] by (simp only: bit.conj_disj_distrib2 or_eq_0_iff de_Morgan_conj)
    then show ?case using Cons.IH [of "m OR weekday_bit d"] by simp blast
  qed simp
  from this [of 0] show ?thesis by (simp add: weekdayBitmask_def weekday_bit_def)
qed

lemma bitmask_roundtrip: "bitmaskWeekdays (weekdayBitmask ds) = week_order ds"
proof -
  have "filter (\<lambda>(b, tok). weekdayBitmask ds AND b \<noteq> 0) weekday_bits = filter (\<lambda>(b, tok). tok \<in> set ds) weekday_bits"
    using weekdayBitmask_and by (intro filter_cong [OF refl]) blast
  then show ?thesis by (simp add: bitmaskWeekdays_def week_order_def)
qed

lemma week_order_tokens:
  assumes "d \<in> set (week_order ds)"
  shows "letters d" "d \<noteq> []"
proof -
  have "d \<in> snd ` set weekday_bits" using assms by (auto simp: week_order_def)
  then show "letters d" "d \<noteq> []" by (auto simp: weekday_bits_def letters_def)
qed

lemma setPos_roundtrip:
  "setPosFromWeek (weekOfMonthFromSetPos s) = (if s = 5 then - 1 else if s = - 1 \<or> 1 \<le> s \<and> s \<le> 4 then s else 0)"
proof (cases "s \<in> {1, 2, 3, 4, 5}")
  case False
  then have "s = - 1 \<or> \<not> (1 \<le> s \<and> s \<le> 5)" by simp
  then show ?thesis by (auto simp: setPosFromWeek_def weekOfMonthFromSetPos_def)
qed (auto simp: setPosFromWeek_def weekOfMonthFromSetPos_def)

section \<open>Periods\<close>

lemma interval_words:
  assumes "1 \<le> i" "i \<le> maxRRuleInterval"
  shows "uint (word_of_int i * 24 * 60 :: u32) = i * 1440" "uint (word_of_int i * 12 :: u32) = i * 12"
    "uint (word_of_int i :: u32) = i" "uint (word_of_int i * 7 * 24 * 60 :: u32) = i * 10080"
proof -
  have w: "(word_of_int i * 24 * 60 :: u32) = word_of_int (i * 1440)" "(word_of_int i * 12 :: u32) = word_of_int (i * 12)"
    "(word_of_int i * 7 * 24 * 60 :: u32) = word_of_int (i * 10080)"
    by (simp_all flip: of_int_of_nat_eq)
  have b: "i * 1440 < 2 ^ 32" "i * 12 < 2 ^ 32" "i < 2 ^ 32" "i * 10080 < 2 ^ 32" using assms by simp_all
  show "uint (word_of_int i * 24 * 60 :: u32) = i * 1440" unfolding w using assms b by (intro uint_u32) simp_all
  show "uint (word_of_int i * 12 :: u32) = i * 12" unfolding w using assms b by (intro uint_u32) simp_all
  show "uint (word_of_int i :: u32) = i" using assms b by (intro uint_u32) simp_all
  show "uint (word_of_int i * 7 * 24 * 60 :: u32) = i * 10080" unfolding w using assms b by (intro uint_u32) simp_all
qed

section \<open>What the pattern carries exactly\<close>

definition until_exact :: "wall \<Rightarrow> bool" where
  "until_exact t \<longleftrightarrow> wall_ok t \<and> WNsec t = 0 \<and> WZone t = 0 \<and> WSec t mod 60 = 0 \<and> 0 \<le> WDay t
     \<and> WDay t * 1440 + WSec t div 60 < 2 ^ 32 \<and> minutesSince1601 t \<noteq> 0 \<and> minutesSince1601 t \<noteq> noEndDate"

definition pins_exact :: "rrule \<Rightarrow> bool" where
  "pins_exact r \<longleftrightarrow>
     (if RFreq r = lit ''DAILY'' then RWeekdays r = [] \<and> RSetPos r = 0 \<and> RMonthDay r = 0
      else if RFreq r = lit ''WEEKLY'' then RWeekdays r \<noteq> [] \<and> RSetPos r = 0 \<and> RMonthDay r = 0
      else if RFreq r = lit ''MONTHLY'' \<or> RFreq r = lit ''YEARLY''
      then (if RWeekdays r \<noteq> [] then - 1 \<le> RSetPos r \<and> RSetPos r \<le> 4 \<and> RMonthDay r = 0
            else RSetPos r = 0 \<and> 1 \<le> RMonthDay r \<and> RMonthDay r < 2 ^ 32)
      else False)"

definition rule_exact :: "rrule \<Rightarrow> bool" where
  "rule_exact r \<longleftrightarrow>
     pins_exact r \<and> 1 \<le> RInterval r \<and> RInterval r \<le> maxRRuleInterval \<and> week_order (RWeekdays r) = RWeekdays r
     \<and> (if RUntil r = zero_time then 0 \<le> RCount r \<and> RCount r < 2 ^ 32 else RCount r = 0 \<and> until_exact (RUntil r))
     \<and> RMonth r = 0"

lemma until_exact_ok:
  assumes "until_exact t"
  shows "until_ok t" "\<not> IsZero t"
proof -
  have t: "wall_ok t" "WNsec t = 0" "WZone t = 0" "0 \<le> WDay t" "WDay t * 1440 + WSec t div 60 < 2 ^ 32"
    using assms by (simp_all add: until_exact_def)
  define q where "q = WSec t div 60"
  have "0 \<le> q" using t(1) by (simp add: q_def wall_ok_def pos_imp_zdiv_nonneg_iff)
  then have d: "WDay t < 2982617" using t(5) unfolding q_def [symmetric] by simp
  have y: "1601 \<le> Year t" using year_from_1601 t(4) by (simp add: Year_def)
  have "Year t < 10000"
  proof (rule ccontr)
    assume "\<not> Year t < 10000"
    then have "year_start 10000 \<le> year_start (Year t)" by (intro year_start_mono) simp
    moreover have "year_start (Year t) \<le> WDay t" using year_of_bounds [of "WDay t"] by (simp add: Year_def)
    ultimately show False using d by (simp add: year_start_def)
  qed
  then show "until_ok t" using t y by (simp add: until_ok_def)
  show "\<not> IsZero t" using t by (simp add: IsZero_def instant_def zero_time_def wall_ok_def)
qed

lemma until_exact_time: "until_exact t \<Longrightarrow> timeFromMinutes (minutesSince1601 t) = t"
  by (simp add: until_exact_def time_of_minutes)

lemma freq_cases:
  assumes "pins_exact r"
  obtains "RFreq r = lit ''DAILY''" | "RFreq r = lit ''WEEKLY''" | "RFreq r = lit ''MONTHLY''" | "RFreq r = lit ''YEARLY''"
  using assms unfolding pins_exact_def by argo

lemma rule_exact_ok:
  assumes "rule_exact r"
  shows "rule_ok r"
proof -
  have p: "pins_exact r" using assms by (simp add: rule_exact_def)
  have f: "letters (RFreq r)" "RFreq r \<noteq> []" using p by (cases rule: freq_cases; simp add: letters_def)+
  have w: "list_all (\<lambda>d. letters d \<and> d \<noteq> []) (RWeekdays r)"
    using assms week_order_tokens [of _ "RWeekdays r"] by (simp add: rule_exact_def list_all_iff)
  have s: "RWeekdays r = [] \<longrightarrow> RSetPos r = 0" "- 1 \<le> RSetPos r" "RSetPos r \<le> 4" "0 \<le> RMonthDay r" "RMonthDay r < 2 ^ 32"
    using p by (auto simp: pins_exact_def split: if_splits)
  have "(RUntil r = zero_time \<or> until_ok (RUntil r) \<and> \<not> IsZero (RUntil r)) \<and> 0 \<le> RCount r \<and> RCount r < 2 ^ 32"
    using assms until_exact_ok by (auto simp: rule_exact_def split: if_splits)
  then show ?thesis using assms f w s by (simp add: rule_ok_def rule_exact_def)
qed

lemma setEndRange_fields:
  "RecurFrequency (setEndRange p r) = RecurFrequency p" "PatternType (setEndRange p r) = PatternType p"
  "Period (setEndRange p r) = Period p" "DayOfWeek (setEndRange p r) = DayOfWeek p"
  "DayOfMonth (setEndRange p r) = DayOfMonth p" "WeekOfMonth (setEndRange p r) = WeekOfMonth p"
  by (simp_all add: setEndRange_def)

lemma wire_pins_fields:
  "RecurFrequency (wire_pins p) = RecurFrequency p" "PatternType (wire_pins p) = PatternType p" "Period (wire_pins p) = Period p"
  "EndType (wire_pins p) = EndType p" "EndDate (wire_pins p) = EndDate p" "OccurrenceCount (wire_pins p) = OccurrenceCount p"
  by (simp_all add: wire_pins_def)

lemma applyEndRange_back:
  assumes "rule_exact r" "RCount q = 0" "RUntil q = zero_time"
  shows "applyEndRange (wire_pins (setEndRange p r)) q = Some (q\<lparr>RCount := RCount r, RUntil := RUntil r\<rparr>)"
proof (cases "RUntil r = zero_time")
  case True
  then have c: "0 \<le> RCount r" "RCount r < 2 ^ 32" using assms(1) by (simp_all add: rule_exact_def)
  then have "uint (word_of_int (RCount r) :: u32) = RCount r" by (intro uint_u32) simp_all
  then show ?thesis using True assms(2,3) c
    by (cases "RCount r > 0") (simp_all add: applyEndRange_def wire_pins_fields setEndRange_def IsZero_zero)
next
  case False
  then have u: "until_exact (RUntil r)" "RCount r = 0" using assms(1) by (simp_all add: rule_exact_def)
  then have "minutesSince1601 (RUntil r) \<noteq> 0" "minutesSince1601 (RUntil r) \<noteq> noEndDate" by (simp_all add: until_exact_def)
  then show ?thesis using u assms(2,3) until_exact_ok(2) [OF u(1)] until_exact_time [OF u(1)]
    by (simp add: applyEndRange_def wire_pins_fields setEndRange_def)
qed

lemma daily_period:
  assumes "1 \<le> i" "i \<le> maxRRuleInterval"
  shows "(word_of_int i * 24 * 60 :: u32) mod 1440 = 0" "uint ((word_of_int i * 24 * 60 :: u32) div 1440) = i"
    "uint ((word_of_int i * 12 :: u32) div 12) = i"
  using interval_words [OF assms] by (simp_all add: word_uint_eq_iff uint_mod uint_div)

definition pinned :: "rrule \<Rightarrow> rrule" where
  "pinned r = r\<lparr>RCount := 0, RUntil := zero_time\<rparr>"

lemma setDayPins_back:
  assumes "rule_exact r" "RFreq r = lit ''MONTHLY'' \<or> RFreq r = lit ''YEARLY''"
    "PatternType p = PatternType (setDayPins p0 r start)" "DayOfWeek p = DayOfWeek (setDayPins p0 r start)"
    "DayOfMonth p = DayOfMonth (setDayPins p0 r start)" "WeekOfMonth p = WeekOfMonth (setDayPins p0 r start)"
  shows "fillDayPins (wire_pins p) (zero_rrule\<lparr>RFreq := RFreq r, RInterval := RInterval r\<rparr>) = pinned r"
proof -
  have "RFreq r \<noteq> lit ''DAILY''" "RFreq r \<noteq> lit ''WEEKLY''" using assms(2) by auto
  then have p: "if RWeekdays r \<noteq> [] then - 1 \<le> RSetPos r \<and> RSetPos r \<le> 4 \<and> RMonthDay r = 0
      else RSetPos r = 0 \<and> 1 \<le> RMonthDay r \<and> RMonthDay r < 2 ^ 32"
    using assms(1,2) unfolding rule_exact_def pins_exact_def by argo
  have w: "bitmaskWeekdays (weekdayBitmask (RWeekdays r)) = RWeekdays r" "RMonth r = 0"
    using assms(1) by (simp_all add: rule_exact_def bitmask_roundtrip)
  show ?thesis
  proof (cases "RWeekdays r = []")
    case True
    then have "uint (word_of_int (RMonthDay r) :: u32) = RMonthDay r" using p by (intro uint_u32) simp_all
    then show ?thesis using True p w assms(3-6)
      by (simp add: fillDayPins_def setDayPins_def wire_pins_def zero_rrule_def pinned_def)
  next
    case False
    then have "setPosFromWeek (weekOfMonthFromSetPos (RSetPos r)) = RSetPos r" using p by (simp add: setPos_roundtrip)
    then show ?thesis using False p w assms(3-6)
      by (simp add: fillDayPins_def setDayPins_def wire_pins_def zero_rrule_def pinned_def)
  qed
qed

definition four_types :: "u16 set" where
  "four_types = {PatternDay, PatternWeek, PatternMonth, PatternMonthNth}"

lemma fill_back:
  assumes "rule_exact r"
  obtains fill unfill where "patternFreqs (RFreq r) = Some fill"
    "\<And>p. rruleFreqs (RecurFrequency (fill p r start)) = Some unfill"
    "\<And>p. PatternType (fill p r start) \<in> four_types"
    "\<And>p. unfill (wire_pins (setEndRange (fill p r start) r)) zero_rrule = pinned r"
proof -
  have i: "1 \<le> RInterval r" "RInterval r \<le> maxRRuleInterval" and x: "pins_exact r" "RMonth r = 0"
    and w: "bitmaskWeekdays (weekdayBitmask (RWeekdays r)) = RWeekdays r"
    using assms by (simp_all add: rule_exact_def bitmask_roundtrip)
  note d = daily_period [OF i] interval_words [OF i] and z = setEndRange_fields wire_pins_fields intervalPeriod_def max_absorb1 [OF i(1)]
  from x(1) show ?thesis
  proof (cases rule: freq_cases)
    case 1
    then show ?thesis using that [of dailyPattern dailyRRule] x d z
      by (simp add: patternFreqs_def dailyPattern_def rruleFreqs_def Let_def four_types_def dailyRRule_def pinned_def zero_rrule_def pins_exact_def)
  next
    case 2
    have "weekdayBitmask (RWeekdays r) \<noteq> 0" using x(1) 2 w by (auto simp: pins_exact_def bitmaskWeekdays_def)
    then show ?thesis using that [of weeklyPattern weeklyRRule] 2 x d z w
      by (simp add: patternFreqs_def weeklyPattern_def rruleFreqs_def Let_def four_types_def weeklyRRule_def pinned_def zero_rrule_def
          pins_exact_def wire_pins_def)
  next
    case 3
    show ?thesis using that [of monthlyPattern monthlyRRule] setDayPins_back [OF assms disjI1 [OF 3]] 3 d z
      by (simp add: patternFreqs_def monthlyPattern_def rruleFreqs_def Let_def four_types_def monthlyRRule_def setDayPins_def)
  next
    case 4
    show ?thesis using that [of yearlyPattern yearlyRRule] setDayPins_back [OF assms disjI2 [OF 4]] 4 d z
      by (simp add: patternFreqs_def yearlyPattern_def rruleFreqs_def Let_def four_types_def yearlyRRule_def setDayPins_def)
  qed
qed

lemma pattern_back:
  assumes "rule_exact r"
  obtains p where "patternFromRecurrence r start = Inr p" "PatternType p \<in> four_types" "pattern_fields (wire_pins p) zero_time = Some r"
proof -
  obtain fill unfill where f: "patternFreqs (RFreq r) = Some fill"
    "\<And>p. rruleFreqs (RecurFrequency (fill p r start)) = Some unfill"
    "\<And>p. PatternType (fill p r start) \<in> four_types"
    "\<And>p. unfill (wire_pins (setEndRange (fill p r start) r)) zero_rrule = pinned r"
    using assms by (rule fill_back [where start = start]) blast
  have "1 \<le> RInterval r" using assms by (simp add: rule_exact_def)
  then have "pattern_fields (wire_pins (setEndRange (fill p r start) r)) zero_time = Some r" for p
    using f(2,4) applyEndRange_back [OF assms, of "pinned r" "fill p r start"]
    by (simp add: pattern_fields_def setEndRange_fields wire_pins_fields IsZero_zero pinned_def Let_def)
  then show ?thesis using that f(1,3) by (simp add: patternFromRecurrence_def setEndRange_fields)
qed

text \<open>
  C8. A rule the Outlook pattern can express survives the conversion letter for letter: encoding the text of a rule in
  normal form as a pattern blob and reading the blob back gives the same text, whatever day the series starts on.
\<close>

theorem rrule_blob_roundtrip:
  assumes "rule_exact r" "upper_ok upper"
  shows "\<exists>blob. FromRRule upper (rruleString r) start = Inr blob \<and> ToRRule blob = Some (rruleString r)"
proof -
  obtain p where p: "patternFromRecurrence r start = Inr p" "PatternType p \<in> four_types" "pattern_fields (wire_pins p) zero_time = Some r"
    using assms(1) by (rule pattern_back)
  have "UnmarshalBinary (MarshalBinary p) = Inr (wire_pins p)"
    using UnmarshalBinary_marshal [of p "[]" "[]" "[]"] p(2) by (simp add: MarshalBinary_def four_types_def)
  then show ?thesis using p(1,3) parseRRule_rruleString [OF rule_exact_ok [OF assms(1)] assms(2)]
    by (simp add: FromRRule_def ToRRule_def toRRule_def pattern_rrule_def)
qed

definition sample_rule :: rrule where
  "sample_rule = zero_rrule\<lparr>RFreq := lit ''WEEKLY'', RInterval := 2, RCount := 10, RWeekdays := [lit ''MO'', lit ''FR'']\<rparr>"

lemma sample_exact: "rule_exact sample_rule"
  by (simp add: sample_rule_def rule_exact_def pins_exact_def zero_rrule_def week_order_def weekday_bits_def)

theorem rrule_blob_roundtrip_witness:
  "\<exists>blob. FromRRule (\<lambda>r. r) (rruleString sample_rule) epoch1601 = Inr blob \<and> ToRRule blob = Some (rruleString sample_rule)"
  using sample_exact by (intro rrule_blob_roundtrip) (simp_all add: upper_ok_def)

section \<open>Bounds of an accepted rule\<close>

definition interval_ok :: "rrule \<Rightarrow> bool" where
  "interval_ok r \<longleftrightarrow> 1 \<le> RInterval r \<and> RInterval r \<le> maxRRuleInterval \<and> 0 \<le> RCount r \<and> RCount r < 2 ^ 32"

lemma rruleFields_interval:
  assumes "rruleFields upper k = Some set_field" "set_field q v = Inr r" "interval_ok q"
  shows "interval_ok r"
  using assms
  by (auto simp: rruleFields_def interval_ok_def setFreq_def setInterval_def setCount_def setUntil_def setByDayParam_def
      setMonthDayParam_def setMonthParam_def setSetPosParam_def split: if_splits option.splits prod.splits)

lemma parse_parts_interval:
  assumes "parse_parts upper ps q = Inr r" "interval_ok q"
  shows "interval_ok r"
  using assms
proof (induction upper ps q rule: parse_parts.induct)
  case (2 upper part parts q)
  obtain k v ok where c: "Cut part 0x3D = (k, v, ok)" by (metis prod_cases3)
  show ?case
  proof (cases "ok \<and> rruleFields upper (ToUpper upper (TrimSpace k)) \<noteq> None")
    case True
    then obtain f where f: "ok" "rruleFields upper (ToUpper upper (TrimSpace k)) = Some f" by auto
    then obtain q' where q: "f q v = Inr q'" "parse_parts upper parts q' = Inr r"
      using "2.prems"(1) by (auto simp: c bindr_eq_Inr_iff)
    have "interval_ok q'" using rruleFields_interval f(2) q(1) "2.prems"(2) .
    then show ?thesis using "2.IH"(3) c f q by auto
  next
    case False
    then have "parse_parts upper parts q = Inr r" using "2.prems"(1) by (auto simp: c split: if_splits option.splits)
    then show ?thesis using False "2.IH"(1,2) "2.prems"(2) c by (cases ok) auto
  qed
qed simp

lemma parseRRule_interval:
  assumes "parseRRule upper v = Inr r"
  shows "interval_ok r" "RFreq r \<noteq> []"
proof -
  have r: "parse_parts upper (Split v 0x3B) (zero_rrule\<lparr>RInterval := 1\<rparr>) = Inr r" "RFreq r \<noteq> []"
    using assms by (auto simp: parseRRule_def bindr_eq_Inr_iff split: if_splits)
  have "interval_ok (zero_rrule\<lparr>RInterval := 1\<rparr>)" by (simp add: interval_ok_def zero_rrule_def)
  with r show "interval_ok r" "RFreq r \<noteq> []" using parse_parts_interval by blast+
qed

definition period_unit :: "go_string \<Rightarrow> int" where
  "period_unit f = (if f = lit ''DAILY'' then 1440 else if f = lit ''YEARLY'' then 12 else 1)"

lemma end_range_words:
  assumes "interval_ok r"
  shows "if \<not> IsZero (RUntil r) then EndType (setEndRange q r) = EndAfterDate
      \<and> (wall_ok (RUntil r) \<and> WZone (RUntil r) = 0 \<and> 0 \<le> WDay (RUntil r) \<longrightarrow>
           uint (EndDate (setEndRange q r)) = (WDay (RUntil r) * 1440 + WSec (RUntil r) div 60) mod 2 ^ 32)
    else if RCount r > 0 then EndType (setEndRange q r) = EndAfterN \<and> uint (OccurrenceCount (setEndRange q r)) = RCount r
    else EndType (setEndRange q r) = EndNever"
proof -
  have "uint (word_of_int (RCount r) :: u32) = RCount r" using assms uint_u32 [of "RCount r"] by (simp add: interval_ok_def)
  moreover have "uint (minutesSince1601 t) = (WDay t * 1440 + WSec t div 60) mod 2 ^ 32" if "wall_ok t" "WZone t = 0" "0 \<le> WDay t" for t
  proof -
    have "0 \<le> instant t" using that by (simp add: instant_def wall_ok_def)
    then show ?thesis by (simp only: minutes_eq [OF that(1,3)] uint_word_of_int) simp
  qed
  ultimately show ?thesis by (simp add: setEndRange_def)
qed

text \<open>
  C11. What an accepted rule stores in the pattern's 32-bit fields: the interval is positive and bounded, the stored
  period is the interval in the unit of its frequency without wrap-around, the first-date offset, a remainder by that
  period (by its week count in minutes for a weekly rule), stays below it, and a count is stored exactly. The end date
  has no such bound: an end in UTC not before 1601 is stored as its minutes since 1601 modulo $2^{32}$, so one more than $2^{32}$
  minutes after 1601, in the last centuries before the year 9999, comes back thousands of years early.
\<close>

theorem accepted_rule_period:
  assumes "parseRRule upper v = Inr r" "patternFromRecurrence r start = Inr p"
  shows "1 \<le> RInterval r \<and> RInterval r \<le> maxRRuleInterval
    \<and> uint (Period p) = RInterval r * period_unit (RFreq r)
    \<and> uint (FirstDateTime p) < RInterval r * (if RFreq r = lit ''WEEKLY'' then 10080 else period_unit (RFreq r))
    \<and> (if \<not> IsZero (RUntil r) then EndType p = EndAfterDate
         \<and> (wall_ok (RUntil r) \<and> WZone (RUntil r) = 0 \<and> 0 \<le> WDay (RUntil r) \<longrightarrow>
              uint (EndDate p) = (WDay (RUntil r) * 1440 + WSec (RUntil r) div 60) mod 2 ^ 32)
       else if RCount r > 0 then EndType p = EndAfterN \<and> uint (OccurrenceCount p) = RCount r
       else EndType p = EndNever)"
proof -
  have i: "1 \<le> RInterval r" "RInterval r \<le> maxRRuleInterval" using parseRRule_interval(1) [OF assms(1)] by (simp_all add: interval_ok_def)
  note w = interval_words [OF i] and m = max_absorb1 [OF i(1)]
  have z: "(word_of_int (RInterval r) :: u32) \<noteq> 0" "(word_of_int (RInterval r) * 7 * 24 * 60 :: u32) \<noteq> 0" "(word_of_int (RInterval r) * 12 :: u32) \<noteq> 0"
    using w i(1) by (auto simp: word_uint_eq_iff)
  obtain fill where f: "patternFreqs (RFreq r) = Some fill" "p = setEndRange (fill (zero_pattern\<lparr>StartDate := minutesSince1601 start\<rparr>) r start) r"
    using assms(2) by (auto simp: patternFromRecurrence_def split: option.splits)
  have e: "FirstDateTime (setEndRange q r) = FirstDateTime q" for q by (simp add: setEndRange_def)
  from f(1) consider "RFreq r = lit ''DAILY''" "fill = dailyPattern" | "RFreq r = lit ''WEEKLY''" "fill = weeklyPattern"
    | "RFreq r = lit ''MONTHLY''" "fill = monthlyPattern" | "RFreq r = lit ''YEARLY''" "fill = yearlyPattern"
    by (auto simp: patternFreqs_def split: if_splits)
  then have "uint (Period p) = RInterval r * period_unit (RFreq r)
      \<and> uint (FirstDateTime p) < RInterval r * (if RFreq r = lit ''WEEKLY'' then 10080 else period_unit (RFreq r))" using i z
    by cases (simp_all add: f(2) e setEndRange_fields period_unit_def dailyPattern_def weeklyPattern_def monthlyPattern_def yearlyPattern_def
        weeklyFirstDateTime_def monthlyFirstDateTime_def intervalPeriod_def m Let_def uint_mod w w [simplified])
  then show ?thesis using i end_range_words [OF parseRRule_interval(1) [OF assms(1)]] f(2) by blast
qed

theorem accepted_rule_period_witness:
  "\<exists>p. patternFromRecurrence sample_rule epoch1601 = Inr p \<and> uint (Period p) = 2 \<and> uint (FirstDateTime p) < 20160
     \<and> EndType p = EndAfterN \<and> uint (OccurrenceCount p) = 10"
proof -
  have x: "parseRRule (\<lambda>r. r) (rruleString sample_rule) = Inr sample_rule"
    using sample_exact by (intro parseRRule_rruleString rule_exact_ok) (simp_all add: upper_ok_def)
  obtain p where p: "patternFromRecurrence sample_rule epoch1601 = Inr p" using sample_exact by (rule pattern_back)
  have "RFreq sample_rule = lit ''WEEKLY''" "RInterval sample_rule = 2" by (simp_all add: sample_rule_def)
  moreover have "IsZero (RUntil sample_rule)" "RCount sample_rule = 10" by (simp_all add: sample_rule_def zero_rrule_def IsZero_zero)
  ultimately show ?thesis using p accepted_rule_period [OF x p] by (simp add: period_unit_def)
qed

section \<open>What the pattern does not carry\<close>

text \<open>The month of a yearly rule has no field in the pattern: rules that differ only in it have the same pattern.\<close>

lemma month_not_carried: "patternFromRecurrence (r\<lparr>RMonth := m\<rparr>) start = patternFromRecurrence r start"
  by (simp add: patternFromRecurrence_def patternFreqs_def dailyPattern_def weeklyPattern_def monthlyPattern_def yearlyPattern_def
      setDayPins_def setEndRange_def intervalPeriod_def Let_def)

text \<open>A negative day of the month, counted from the end, comes back as a positive day of ten digits.\<close>

lemma negative_month_day:
  "map_option RMonthDay (pattern_fields (monthlyPattern (zero_pattern\<lparr>EndType := EndNever\<rparr>) (zero_rrule\<lparr>RMonthDay := - 1\<rparr>) start) zero_time)
     = Some 4294967295"
  by (simp add: monthlyPattern_def pattern_fields_def rruleFreqs_def monthlyRRule_def fillDayPins_def setDayPins_def applyEndRange_def
      zero_rrule_def zero_pattern_def Let_def unsigned_minus_1_eq_mask mask_eq_exp_minus_1)

end
