(* ===== verification/Recur_Appt.thy ===== *)
theory Recur_Appt
  imports Recur_Trip "HOL-Library.State_Monad" "HOL-Library.Multiset"
begin

text \<open>
  The appointment recurrence blob (\<^verbatim>\<open>internal/recurrence/appointment.go\<close> and
  \<^verbatim>\<open>appointment_encode.go\<close>): the pattern with its deleted and modified days, the time of day, and
  the modified instances. The blob reader with its sticky error is a state monad. The time zone of a series is a
  parameter \<open>loc\<close> that places wall-clock fields in the zone, as \<^verbatim>\<open>time.Date\<close> does.
\<close>

unbundle bit_operations_syntax

section \<open>Patterns and exceptions\<close>

abbreviation (input) OverrideSubject :: u16 where "OverrideSubject \<equiv> 0x0001"
abbreviation (input) OverrideMeetingType :: u16 where "OverrideMeetingType \<equiv> 0x0002"
abbreviation (input) OverrideReminderDelta :: u16 where "OverrideReminderDelta \<equiv> 0x0004"
abbreviation (input) OverrideReminder :: u16 where "OverrideReminder \<equiv> 0x0008"
abbreviation (input) OverrideLocation :: u16 where "OverrideLocation \<equiv> 0x0010"
abbreviation (input) OverrideBusyStatus :: u16 where "OverrideBusyStatus \<equiv> 0x0020"
abbreviation (input) OverrideAttachment :: u16 where "OverrideAttachment \<equiv> 0x0040"
abbreviation (input) OverrideSubType :: u16 where "OverrideSubType \<equiv> 0x0080"
abbreviation (input) OverrideColor :: u16 where "OverrideColor \<equiv> 0x0100"

abbreviation (input) changeHighlightVersion :: u32 where "changeHighlightVersion \<equiv> 0x00003009"
abbreviation (input) appointmentReaderVersion :: u32 where "appointmentReaderVersion \<equiv> 0x00003006"

text \<open>The two signed fields hold the bits of an \<^verbatim>\<open>int32\<close>.\<close>

record exception =
  EStart :: u32
  EEnd :: u32
  EOriginalStart :: u32
  EFlags :: u16
  ESubject :: go_string
  ELocation :: go_string
  EBusyStatus :: u32
  EReminderDelta :: u32
  EReminderSet :: bool
  EAllDay :: bool

definition zero_exception :: exception where
  "zero_exception = \<lparr>EStart = 0, EEnd = 0, EOriginalStart = 0, EFlags = 0, ESubject = [], ELocation = [],
     EBusyStatus = 0, EReminderDelta = 0, EReminderSet = False, EAllDay = False\<rparr>"

record appointment_pattern =
  APattern :: recur_pattern
  DeletedDates :: "u32 list"
  ModifiedDates :: "u32 list"
  HasTimes :: bool
  StartTimeOffset :: u32
  EndTimeOffset :: u32
  Exceptions :: "exception list"

definition has :: "exception \<Rightarrow> u16 \<Rightarrow> bool" where
  "has e f \<longleftrightarrow> EFlags e AND f \<noteq> 0"

section \<open>The blob reader\<close>

record blob_reader =
  RB :: bytes
  ROff :: nat
  RErr :: bool

type_synonym 'a blob = "(blob_reader, 'a) state"

definition left :: "blob_reader \<Rightarrow> nat" where
  "left r = (if RErr r \<or> length (RB r) < ROff r then 0 else length (RB r) - ROff r)"

definition take_bytes :: "nat \<Rightarrow> bytes option blob" where
  "take_bytes n = State (\<lambda>r.
     if RErr r then (None, r)
     else if left r < n then (None, r\<lparr>RErr := True\<rparr>)
     else (Some (take n (drop (ROff r) (RB r))), r\<lparr>ROff := ROff r + n\<rparr>))"

definition skip :: "nat \<Rightarrow> unit blob" where
  "skip n = do { _ \<leftarrow> take_bytes n; State_Monad.return () }"

definition bytes_of :: "nat \<Rightarrow> bytes blob" where
  "bytes_of n = do { b \<leftarrow> take_bytes n; State_Monad.return (case b of Some b \<Rightarrow> b | None \<Rightarrow> []) }"

definition get_u16 :: "u16 blob" where
  "get_u16 = do { b \<leftarrow> take_bytes 2; State_Monad.return (case b of Some b \<Rightarrow> le_word b | None \<Rightarrow> 0) }"

definition get_u32 :: "u32 blob" where
  "get_u32 = do { b \<leftarrow> take_bytes 4; State_Monad.return (case b of Some b \<Rightarrow> le_word b | None \<Rightarrow> 0) }"

fun units :: "nat \<Rightarrow> bytes \<Rightarrow> u16 list" where
  "units 0 b = []"
| "units (Suc n) b = le_word (take 2 b) # units n (drop 2 b)"

definition get_utf16 :: "nat \<Rightarrow> go_string blob" where
  "get_utf16 n = do {
     b \<leftarrow> take_bytes (2 * n);
     State_Monad.return (case b of Some b \<Rightarrow> utf8_encode (utf16_decode (units n b)) | None \<Rightarrow> []) }"

fun get_u32s :: "nat \<Rightarrow> u32 list blob" where
  "get_u32s 0 = State_Monad.return []"
| "get_u32s (Suc n) = do { d \<leftarrow> get_u32; ds \<leftarrow> get_u32s n; State_Monad.return (d # ds) }"

definition fail_blob :: "unit blob" where
  "fail_blob = State (\<lambda>r. ((), r\<lparr>RErr := True\<rparr>))"

definition dates :: "u32 list blob" where
  "dates = do {
     n \<leftarrow> get_u32;
     r \<leftarrow> State_Monad.get;
     if RErr r \<or> n = 0 then State_Monad.return []
     else if left r div 4 < unat n then do { _ \<leftarrow> fail_blob; State_Monad.return [] }
     else get_u32s (unat n) }"

definition latin1 :: "bytes \<Rightarrow> go_string" where
  "latin1 b = utf8_encode (map unat b)"

section \<open>Decoding\<close>

definition readExceptionTail :: "exception \<Rightarrow> exception blob" where
  "readExceptionTail e = do {
     e \<leftarrow> (if has e OverrideBusyStatus then do { v \<leftarrow> get_u32; State_Monad.return (e\<lparr>EBusyStatus := v\<rparr>) } else State_Monad.return e);
     _ \<leftarrow> (if has e OverrideAttachment then skip 4 else State_Monad.return ());
     e \<leftarrow> (if has e OverrideSubType then do { v \<leftarrow> get_u32; State_Monad.return (e\<lparr>EAllDay := (v \<noteq> 0)\<rparr>) } else State_Monad.return e);
     _ \<leftarrow> (if has e OverrideColor then skip 4 else State_Monad.return ());
     State_Monad.return e }"

definition read_text8 :: "go_string blob" where
  "read_text8 = do { _ \<leftarrow> skip 2; n \<leftarrow> get_u16; b \<leftarrow> bytes_of (unat n); State_Monad.return (latin1 b) }"

definition read_text16 :: "go_string blob" where
  "read_text16 = do { n \<leftarrow> get_u16; get_utf16 (unat n) }"

definition readExceptionInfo :: "exception blob" where
  "readExceptionInfo = do {
     start \<leftarrow> get_u32; end_at \<leftarrow> get_u32; original \<leftarrow> get_u32; flags \<leftarrow> get_u16;
     e \<leftarrow> State_Monad.return (zero_exception\<lparr>EStart := start, EEnd := end_at, EOriginalStart := original, EFlags := flags\<rparr>);
     e \<leftarrow> (if has e OverrideSubject then do { s \<leftarrow> read_text8; State_Monad.return (e\<lparr>ESubject := s\<rparr>) } else State_Monad.return e);
     _ \<leftarrow> (if has e OverrideMeetingType then skip 4 else State_Monad.return ());
     e \<leftarrow> (if has e OverrideReminderDelta then do { v \<leftarrow> get_u32; State_Monad.return (e\<lparr>EReminderDelta := v\<rparr>) } else State_Monad.return e);
     e \<leftarrow> (if has e OverrideReminder then do { v \<leftarrow> get_u32; State_Monad.return (e\<lparr>EReminderSet := (v \<noteq> 0)\<rparr>) } else State_Monad.return e);
     e \<leftarrow> (if has e OverrideLocation then do { s \<leftarrow> read_text8; State_Monad.return (e\<lparr>ELocation := s\<rparr>) } else State_Monad.return e);
     readExceptionTail e }"

definition skip_sized :: "unit blob" where
  "skip_sized = do { n \<leftarrow> get_u32; skip (unat n) }"

definition read_override_texts :: "exception \<Rightarrow> exception blob" where
  "read_override_texts e = do {
     _ \<leftarrow> skip 12;
     e \<leftarrow> (if has e OverrideSubject then do { s \<leftarrow> read_text16; State_Monad.return (e\<lparr>ESubject := s\<rparr>) } else State_Monad.return e);
     e \<leftarrow> (if has e OverrideLocation then do { s \<leftarrow> read_text16; State_Monad.return (e\<lparr>ELocation := s\<rparr>) } else State_Monad.return e);
     _ \<leftarrow> skip_sized;
     State_Monad.return e }"

definition readExtendedException :: "exception \<Rightarrow> u32 \<Rightarrow> exception blob" where
  "readExtendedException e writer = do {
     _ \<leftarrow> (if changeHighlightVersion \<le> writer then skip_sized else State_Monad.return ());
     _ \<leftarrow> skip_sized;
     if \<not> has e (OverrideSubject OR OverrideLocation) then State_Monad.return e else read_override_texts e }"

fun read_infos :: "nat \<Rightarrow> exception list blob" where
  "read_infos 0 = State_Monad.return []"
| "read_infos (Suc n) = do { e \<leftarrow> readExceptionInfo; es \<leftarrow> read_infos n; State_Monad.return (e # es) }"

fun read_extended :: "exception list \<Rightarrow> u32 \<Rightarrow> exception list blob" where
  "read_extended [] writer = State_Monad.return []"
| "read_extended (e # es) writer = do {
     e \<leftarrow> readExtendedException e writer; es \<leftarrow> read_extended es writer; State_Monad.return (e # es) }"

definition decodeExceptions :: "nat \<Rightarrow> u32 \<Rightarrow> (recur_error + exception list) blob" where
  "decodeExceptions number writer = do {
     r \<leftarrow> State_Monad.get;
     if left r < number * 14 then State_Monad.return (Inl ErrTruncated)
     else do {
       ex \<leftarrow> read_infos number;
       _ \<leftarrow> skip_sized;
       ex \<leftarrow> read_extended ex writer;
       r \<leftarrow> State_Monad.get;
       State_Monad.return (if RErr r then Inl ErrTruncated else Inr ex) } }"

definition decodeTimes :: "appointment_pattern \<Rightarrow> (recur_error + appointment_pattern) blob" where
  "decodeTimes p = do {
     _ \<leftarrow> skip 4;
     writer \<leftarrow> get_u32; start \<leftarrow> get_u32; end_at \<leftarrow> get_u32; n \<leftarrow> get_u16;
     r \<leftarrow> State_Monad.get;
     if RErr r then State_Monad.return (Inl ErrTruncated)
     else
       (let p = p\<lparr>StartTimeOffset := start, EndTimeOffset := end_at, HasTimes := True\<rparr> in
        if unat n \<noteq> length (ModifiedDates p) then State_Monad.return (Inr p)
        else do {
          ex \<leftarrow> decodeExceptions (unat n) writer;
          State_Monad.return (case ex of Inl e \<Rightarrow> Inl e | Inr ex \<Rightarrow> Inr (p\<lparr>Exceptions := ex\<rparr>)) }) }"

definition patternSpecificEnd :: "u16 \<Rightarrow> nat" where
  "patternSpecificEnd patternType = (if patternType = PatternMonthNth then 22 + 8 else 22 + 4)"

definition decodePattern :: "(recur_error + appointment_pattern) blob" where
  "decodePattern = do {
     r \<leftarrow> State_Monad.get;
     case UnmarshalBinary (RB r) of
       Inl e \<Rightarrow> State_Monad.return (Inl e)
     | Inr base \<Rightarrow> do {
         _ \<leftarrow> State_Monad.set (r\<lparr>ROff := patternSpecificEnd (PatternType base) + 12\<rparr>);
         deleted \<leftarrow> dates;
         modified \<leftarrow> dates;
         _ \<leftarrow> skip 8;
         r \<leftarrow> State_Monad.get;
         State_Monad.return (if RErr r then Inl ErrTruncated
           else Inr \<lparr>APattern = base, DeletedDates = deleted, ModifiedDates = modified, HasTimes = False,
                     StartTimeOffset = 0, EndTimeOffset = 0, Exceptions = []\<rparr>) } }"

definition DecodeAppointment :: "bytes \<Rightarrow> recur_error + appointment_pattern" where
  "DecodeAppointment b =
     fst (run_state (do {
       p \<leftarrow> decodePattern;
       r \<leftarrow> State_Monad.get;
       case p of
         Inl e \<Rightarrow> State_Monad.return (Inl e)
       | Inr p \<Rightarrow> if left r = 0 then State_Monad.return (Inr p) else decodeTimes p }) \<lparr>RB = b, ROff = 0, RErr = False\<rparr>)"

section \<open>Encoding\<close>

definition sortedDates :: "u32 list \<Rightarrow> u32 list" where
  "sortedDates ds = remdups_adj (sort ds)"

definition bool32 :: "bool \<Rightarrow> bytes" where
  "bool32 v = le_bytes 4 (if v then 1 else 0 :: u32)"

definition text8 :: "go_string \<Rightarrow> bytes" where
  "text8 s =
     (let b = map (\<lambda>r. of_nat (if r > 0xFF then 0x3F else r)) (utf8_decode s); n = of_nat (length b) :: u16 in
      le_bytes 2 (n + 1) @ le_bytes 2 n @ b)"

definition text16 :: "go_string \<Rightarrow> bytes" where
  "text16 s =
     (let us = utf16_encode (utf8_decode s) in
      le_bytes 2 (of_nat (length us) :: u16) @ concat (map (le_bytes 2) us))"

definition exceptionInfo :: "exception \<Rightarrow> bytes" where
  "exceptionInfo e =
     le_bytes 4 (EStart e) @ le_bytes 4 (EEnd e) @ le_bytes 4 (EOriginalStart e) @ le_bytes 2 (EFlags e)
     @ (if has e OverrideSubject then text8 (ESubject e) else [])
     @ (if has e OverrideMeetingType then le_bytes 4 (0 :: u32) else [])
     @ (if has e OverrideReminderDelta then le_bytes 4 (EReminderDelta e) else [])
     @ (if has e OverrideReminder then bool32 (EReminderSet e) else [])
     @ (if has e OverrideLocation then text8 (ELocation e) else [])
     @ (if has e OverrideBusyStatus then le_bytes 4 (EBusyStatus e) else [])
     @ (if has e OverrideAttachment then le_bytes 4 (0 :: u32) else [])
     @ (if has e OverrideSubType then bool32 (EAllDay e) else [])
     @ (if has e OverrideColor then le_bytes 4 (0 :: u32) else [])"

definition override_texts :: "exception \<Rightarrow> bytes" where
  "override_texts e =
     (le_bytes 4 (EStart e) @ le_bytes 4 (EEnd e) @ le_bytes 4 (EOriginalStart e))
     @ (if has e OverrideSubject then text16 (ESubject e) else [])
     @ (if has e OverrideLocation then text16 (ELocation e) else [])
     @ le_bytes 4 (0 :: u32)"

definition extendedException :: "exception \<Rightarrow> bytes" where
  "extendedException e =
     le_bytes 4 (4 :: u32) @ le_bytes 4 (0 :: u32) @ le_bytes 4 (0 :: u32)
     @ (if \<not> has e (OverrideSubject OR OverrideLocation) then [] else override_texts e)"

definition EncodeAppointment :: "appointment_pattern \<Rightarrow> bytes" where
  "EncodeAppointment p =
     (let deleted = sortedDates (DeletedDates p);
          modified = sortedDates (ModifiedDates p);
          ex = sort_key EStart (Exceptions p)
      in
        marshal (APattern p) deleted modified
        @ le_bytes 4 appointmentReaderVersion @ le_bytes 4 changeHighlightVersion
        @ le_bytes 4 (StartTimeOffset p) @ le_bytes 4 (EndTimeOffset p) @ le_bytes 2 (of_nat (length ex) :: u16)
        @ concat (map exceptionInfo ex) @ le_bytes 4 (0 :: u32)
        @ concat (map extendedException ex) @ le_bytes 4 (0 :: u32))"

definition Minutes :: "wall \<Rightarrow> u32" where
  "Minutes t = minutesSince1601 t"

definition Day :: "u32 \<Rightarrow> u32" where
  "Day minutes = minutes - minutes mod (24 * 60)"

definition WallClock :: "u32 \<Rightarrow> (wall \<Rightarrow> wall) \<Rightarrow> wall" where
  "WallClock minutes loc =
     (let t = timeFromMinutes minutes in loc (Date (Year t) (Month t) (DayOf t) (Hour t) (Minute t) 0 0 0))"

definition AppointmentFromRRule :: "(rune \<Rightarrow> rune) \<Rightarrow> go_string \<Rightarrow> wall \<Rightarrow> (wall \<Rightarrow> wall) \<Rightarrow> int \<Rightarrow> recur_error + appointment_pattern" where
  "AppointmentFromRRule upper rruleText start loc dur =
     bindr (parseRRule upper rruleText) (\<lambda>rec.
     let day = loc (Date (Year start) (Month start) (DayOf start) 0 0 0 0 0) in
     bindr (patternFromRecurrence rec day) (\<lambda>p.
     let offset = Minutes start - Minutes day; end_at = offset + word_of_int (max dur 0 div (60 * 10 ^ 9)) in
     Inr \<lparr>APattern = p, DeletedDates = [], ModifiedDates = [], HasTimes = True,
           StartTimeOffset = offset, EndTimeOffset = end_at, Exceptions = []\<rparr>))"

section \<open>Reading what was written\<close>

text \<open>
  A reader \<open>m\<close> absorbs the bytes \<open>bs\<close> as the value \<open>a\<close> when, placed in front of them, it returns \<open>a\<close> and
  stands behind them.
\<close>

definition absorbs :: "'a blob \<Rightarrow> bytes \<Rightarrow> 'a \<Rightarrow> bool" where
  "absorbs m bs a \<longleftrightarrow>
     (\<forall>pre rest. run_state m \<lparr>RB = pre @ bs @ rest, ROff = length pre, RErr = False\<rparr>
        = (a, \<lparr>RB = pre @ bs @ rest, ROff = length pre + length bs, RErr = False\<rparr>))"

named_theorems absorbing

lemma absorbs_bind [absorbing]:
  assumes "absorbs m bs a" "absorbs (f a) cs c"
  shows "absorbs (State_Monad.bind m f) (bs @ cs) c"
proof -
  have "run_state (State_Monad.bind m f) \<lparr>RB = pre @ bs @ cs @ rest, ROff = length pre, RErr = False\<rparr>
    = (c, \<lparr>RB = pre @ bs @ cs @ rest, ROff = length pre + length bs + length cs, RErr = False\<rparr>)" for pre rest
  proof -
    have "run_state (f a) \<lparr>RB = (pre @ bs) @ cs @ rest, ROff = length (pre @ bs), RErr = False\<rparr>
      = (c, \<lparr>RB = (pre @ bs) @ cs @ rest, ROff = length (pre @ bs) + length cs, RErr = False\<rparr>)"
      using assms(2) unfolding absorbs_def by blast
    then show ?thesis using assms(1) by (simp add: absorbs_def)
  qed
  then show ?thesis by (simp add: absorbs_def add.assoc)
qed

lemma absorbs_return [absorbing]: "absorbs (State_Monad.return a) [] a"
  by (simp add: absorbs_def)

lemma absorbs_return_bind: "absorbs (f a) bs c \<Longrightarrow> absorbs (State_Monad.bind (State_Monad.return a) f) bs c"
  using absorbs_bind [OF absorbs_return] by fastforce

lemma absorbs_then: "absorbs m bs a \<Longrightarrow> f a = c \<Longrightarrow> absorbs (State_Monad.bind m (\<lambda>a. State_Monad.return (f a))) bs c"
  using absorbs_bind [of m bs a "\<lambda>a. State_Monad.return (f a)" "[]" "f a"] by (simp add: absorbs_return)

lemma absorbs_take: "length bs = n \<Longrightarrow> absorbs (take_bytes n) bs (Some bs)"
  by (auto simp: absorbs_def take_bytes_def left_def)

lemma absorbs_skip [absorbing]: "length bs = n \<Longrightarrow> absorbs (skip n) bs ()"
  unfolding skip_def by (rule absorbs_then [OF absorbs_take]) simp_all

lemma absorbs_bytes: "length bs = n \<Longrightarrow> absorbs (bytes_of n) bs bs"
  unfolding bytes_of_def by (rule absorbs_then [OF absorbs_take]) simp_all

lemma absorbs_u16 [absorbing]: "absorbs get_u16 (le_bytes 2 w) w"
  unfolding get_u16_def by (rule absorbs_then [OF absorbs_take]) simp_all

lemma absorbs_u32 [absorbing]: "absorbs get_u32 (le_bytes 4 w) w"
  unfolding get_u32_def by (rule absorbs_then [OF absorbs_take]) simp_all

lemma absorbs_skip_sized [absorbing]: "length bs < 2 ^ 32 \<Longrightarrow> absorbs skip_sized (le_bytes 4 (of_nat (length bs) :: u32) @ bs) ()"
  unfolding skip_sized_def by (rule absorbing | simp add: unat_of_nat_less)+

lemma units_concat: "units (length us) (concat (map (le_bytes 2) us)) = us"
  by (induction us) simp_all

lemma length_units [simp]: "length (concat (map (le_bytes 2) us)) = 2 * length (us :: u16 list)"
  by (induction us) simp_all

lemma absorbs_utf16:
  assumes "valid_utf8 s" "n = length (utf16_encode (utf8_decode s))"
  shows "absorbs (get_utf16 n) (concat (map (le_bytes 2) (utf16_encode (utf8_decode s)))) s"
  unfolding get_utf16_def
  by (rule absorbs_then [OF absorbs_take]) (simp_all add: assms(2) units_concat utf16_string_roundtrip [OF assms(1)])

text \<open>A subject or location both text forms can hold.\<close>

definition text_ok :: "go_string \<Rightarrow> bool" where
  "text_ok s \<longleftrightarrow> valid_utf8 s \<and> length (utf16_encode (utf8_decode s)) < 2 ^ 16"

lemma utf16_length: "length rs \<le> length (utf16_encode rs)"
  by (induction rs) auto

definition narrow :: "go_string \<Rightarrow> go_string" where
  "narrow s = latin1 (map (\<lambda>r. of_nat (if r > 0xFF then 0x3F else r)) (utf8_decode s))"

lemma absorbs_text8 [absorbing]:
  assumes "text_ok s"
  shows "absorbs read_text8 (text8 s) (narrow s)"
proof -
  let ?b = "map (\<lambda>r. of_nat (if r > 0xFF then 0x3F else r)) (utf8_decode s) :: bytes"
  let ?n = "of_nat (length ?b) :: u16"
  have "length ?b < 2 ^ 16" using assms utf16_length [of "utf8_decode s"] by (simp add: text_ok_def)
  then have "unat ?n = length ?b" by (simp add: unat_of_nat_less)
  then have b: "absorbs (bytes_of (unat ?n)) ?b ?b" by (intro absorbs_bytes) (simp only:)
  have "absorbs read_text8 (le_bytes 2 (?n + 1) @ le_bytes 2 ?n @ ?b) (latin1 ?b)"
    unfolding read_text8_def
    by (rule absorbs_bind [OF absorbs_skip] absorbs_bind [OF absorbs_u16] absorbs_then [OF b] length_le_bytes refl)+
  then show ?thesis by (simp add: text8_def narrow_def Let_def)
qed

lemma absorbs_text16 [absorbing]:
  assumes "text_ok s"
  shows "absorbs read_text16 (text16 s) s"
proof -
  let ?us = "utf16_encode (utf8_decode s)"
  have u: "absorbs (get_utf16 (unat (of_nat (length ?us) :: u16))) (concat (map (le_bytes 2) ?us)) s"
    using assms by (intro absorbs_utf16) (simp_all add: text_ok_def unat_of_nat_less)
  show ?thesis unfolding read_text16_def text16_def Let_def by (rule absorbs_bind [OF absorbs_u16]) (rule u)
qed

section \<open>Exceptions\<close>

lemma has_simps:
  "has (if c then a else b) f = (if c then has a f else has b f)"
  "has (e\<lparr>ESubject := x\<rparr>) f = has e f" "has (e\<lparr>ELocation := x\<rparr>) f = has e f" "has (e\<lparr>EReminderDelta := w\<rparr>) f = has e f"
  "has (e\<lparr>EReminderSet := v\<rparr>) f = has e f" "has (e\<lparr>EBusyStatus := w\<rparr>) f = has e f" "has (e\<lparr>EAllDay := v\<rparr>) f = has e f"
  by (simp_all add: has_def)

lemma absorbs_field:
  assumes "c \<Longrightarrow> absorbs m bs v" "absorbs (k (if c then upd v else e)) cs w"
  shows "absorbs (State_Monad.bind (if c then State_Monad.bind m (\<lambda>v. State_Monad.return (upd v)) else State_Monad.return e) k)
    ((if c then bs else []) @ cs) w"
  using assms by (cases c) (auto intro: absorbs_bind absorbs_then absorbs_return_bind)

lemma absorbs_pad:
  assumes "absorbs (k ()) cs w"
  shows "absorbs (State_Monad.bind (if c then skip 4 else State_Monad.return ()) k) ((if c then le_bytes 4 (0 :: u32) else []) @ cs) w"
proof (cases c)
  case True
  have "absorbs (skip 4) (le_bytes 4 (0 :: u32)) ()" by (rule absorbs_skip) simp
  from absorbs_bind [OF this, of k, OF assms] show ?thesis using True by simp
qed (use assms in \<open>auto intro: absorbs_return_bind\<close>)

definition tail_bytes :: "exception \<Rightarrow> bytes" where
  "tail_bytes e =
     (if has e OverrideBusyStatus then le_bytes 4 (EBusyStatus e) else [])
     @ (if has e OverrideAttachment then le_bytes 4 (0 :: u32) else [])
     @ (if has e OverrideSubType then bool32 (EAllDay e) else [])
     @ (if has e OverrideColor then le_bytes 4 (0 :: u32) else []) @ []"

lemma absorbs_bool32: "absorbs get_u32 (bool32 v) (if v then 1 else 0)"
  unfolding bool32_def by (rule absorbs_u32)

lemma absorbs_tail:
  assumes "EFlags q = EFlags e"
  shows "absorbs (readExceptionTail q) (tail_bytes e)
    (q\<lparr>EBusyStatus := if has e OverrideBusyStatus then EBusyStatus e else EBusyStatus q,
        EAllDay := if has e OverrideSubType then EAllDay e else EAllDay q\<rparr>)"
proof -
  have h: "has q f = has e f" for f using assms by (simp add: has_def)
  show ?thesis unfolding readExceptionTail_def tail_bytes_def h [symmetric]
    apply (rule absorbs_field [OF absorbs_u32])
    apply (simp only: has_simps if_cancel)
    apply (rule absorbs_pad)
    apply (rule absorbs_field [OF absorbs_bool32])
    apply (simp only: has_simps if_cancel)
    apply (rule absorbs_pad)
    subgoal by (simp add: absorbs_def)
    done
qed

text \<open>What an exception keeps of its optional fields: those its flags name.\<close>

definition flagged :: "(go_string \<Rightarrow> go_string) \<Rightarrow> exception \<Rightarrow> exception" where
  "flagged form e = e\<lparr>
     ESubject := if has e OverrideSubject then form (ESubject e) else [],
     ELocation := if has e OverrideLocation then form (ELocation e) else [],
     EBusyStatus := if has e OverrideBusyStatus then EBusyStatus e else 0,
     EReminderDelta := if has e OverrideReminderDelta then EReminderDelta e else 0,
     EReminderSet := has e OverrideReminder \<and> EReminderSet e,
     EAllDay := has e OverrideSubType \<and> EAllDay e\<rparr>"

definition exception_ok :: "exception \<Rightarrow> bool" where
  "exception_ok e \<longleftrightarrow> (has e OverrideSubject \<longrightarrow> text_ok (ESubject e)) \<and> (has e OverrideLocation \<longrightarrow> text_ok (ELocation e))"

lemma exceptionInfo_split:
  "exceptionInfo e = le_bytes 4 (EStart e) @ le_bytes 4 (EEnd e) @ le_bytes 4 (EOriginalStart e) @ le_bytes 2 (EFlags e)
     @ (if has e OverrideSubject then text8 (ESubject e) else [])
     @ (if has e OverrideMeetingType then le_bytes 4 (0 :: u32) else [])
     @ (if has e OverrideReminderDelta then le_bytes 4 (EReminderDelta e) else [])
     @ (if has e OverrideReminder then bool32 (EReminderSet e) else [])
     @ (if has e OverrideLocation then text8 (ELocation e) else [])
     @ tail_bytes e"
  by (simp only: exceptionInfo_def tail_bytes_def append_Nil2 append_assoc)

lemma absorbs_info:
  assumes "exception_ok e"
  shows "absorbs readExceptionInfo (exceptionInfo e) (flagged narrow e)"
proof -
  let ?q = "zero_exception\<lparr>EStart := EStart e, EEnd := EEnd e, EOriginalStart := EOriginalStart e, EFlags := EFlags e\<rparr>"
  have h: "has e f = has ?q f" for f by (simp add: has_def)
  have t: "absorbs (readExceptionTail q) (tail_bytes e) (flagged narrow e)"
    if "q = ?q\<lparr>ESubject := if has e OverrideSubject then narrow (ESubject e) else [],
        EReminderDelta := if has e OverrideReminderDelta then EReminderDelta e else 0,
        EReminderSet := has e OverrideReminder \<and> EReminderSet e,
        ELocation := if has e OverrideLocation then narrow (ELocation e) else []\<rparr>" for q
  proof -
    have f: "EFlags q = EFlags e" using that by simp
    have "q\<lparr>EBusyStatus := if has e OverrideBusyStatus then EBusyStatus e else EBusyStatus q,
        EAllDay := if has e OverrideSubType then EAllDay e else EAllDay q\<rparr> = flagged narrow e"
      unfolding that flagged_def zero_exception_def by (cases e) simp
    with absorbs_tail [OF f] show ?thesis by (simp only:)
  qed
  have s: "has ?q OverrideSubject \<Longrightarrow> absorbs read_text8 (text8 (ESubject e)) (narrow (ESubject e))"
    and l: "has ?q OverrideLocation \<Longrightarrow> absorbs read_text8 (text8 (ELocation e)) (narrow (ELocation e))"
    using assms by (auto simp: exception_ok_def h intro: absorbs_text8)
  show ?thesis unfolding readExceptionInfo_def exceptionInfo_split h
    apply (rule absorbs_bind [OF absorbs_u32])+
    apply (rule absorbs_bind [OF absorbs_u16])
    apply (rule absorbs_return_bind)
    apply (rule absorbs_field [OF s], assumption)
    apply (simp only: has_simps if_cancel)
    apply (rule absorbs_pad)
    apply (rule absorbs_field [OF absorbs_u32])
    apply (simp only: has_simps if_cancel)
    apply (rule absorbs_field [OF absorbs_bool32])
    apply (simp only: has_simps if_cancel)
    apply (rule absorbs_field [OF l], assumption)
    apply (rule t)
    apply (simp add: h zero_exception_def)
    done
qed

lemma has_or: "has e (a OR b) \<longleftrightarrow> has e a \<or> has e b"
  unfolding has_def by (simp only: bit.conj_disj_distrib or_eq_0_iff de_Morgan_conj)

lemma has_flagged: "has (flagged form e) f = has e f"
  by (simp add: flagged_def has_def)

lemma sized_blocks:
  "absorbs skip_sized (le_bytes 4 (4 :: u32) @ le_bytes 4 (0 :: u32)) ()" "absorbs skip_sized (le_bytes 4 (0 :: u32)) ()"
  using absorbs_skip_sized [of "le_bytes 4 (0 :: u32)"] absorbs_skip_sized [of "[]"] by simp_all

lemma absorbs_sized_bind: "absorbs (k ()) bs w \<Longrightarrow> absorbs (State_Monad.bind skip_sized k) (le_bytes 4 (0 :: u32) @ bs) w"
  by (rule absorbs_bind [OF sized_blocks(2)])

lemma absorbs_sized_end: "absorbs (State_Monad.bind skip_sized (\<lambda>_. State_Monad.return e)) (le_bytes 4 (0 :: u32)) e"
  using absorbs_sized_bind [of "\<lambda>_. State_Monad.return e" "[]" e] by (simp add: absorbs_return)

lemma absorbs_override_texts:
  assumes "exception_ok e"
  shows "absorbs (read_override_texts (flagged narrow e)) (override_texts e) (flagged (\<lambda>s. s) e)"
proof -
  let ?q = "flagged narrow e"
  have h: "has e f = has ?q f" for f by (simp add: has_flagged)
  have s: "has ?q OverrideSubject \<Longrightarrow> absorbs read_text16 (text16 (ESubject e)) (ESubject e)"
    and l: "has ?q OverrideLocation \<Longrightarrow> absorbs read_text16 (text16 (ELocation e)) (ELocation e)"
    using assms by (auto simp: exception_ok_def has_flagged intro: absorbs_text16)
  have e: "(if has ?q OverrideLocation then (if has ?q OverrideSubject then ?q\<lparr>ESubject := ESubject e\<rparr> else ?q)\<lparr>ELocation := ELocation e\<rparr>
      else (if has ?q OverrideSubject then ?q\<lparr>ESubject := ESubject e\<rparr> else ?q)) = flagged (\<lambda>s. s) e"
    by (simp only: has_flagged) (simp add: flagged_def)
  show ?thesis unfolding read_override_texts_def override_texts_def h
    apply (rule absorbs_bind [OF absorbs_skip])
     apply (simp only: length_append length_le_bytes)
    apply (rule absorbs_field [OF s], assumption)
    apply (simp only: has_simps if_cancel)
    apply (rule absorbs_field [OF l], assumption)
    apply (simp only: e)
    apply (rule absorbs_sized_end)
    done
qed

lemma absorbs_extended:
  assumes "exception_ok e"
  shows "absorbs (readExtendedException (flagged narrow e) changeHighlightVersion) (extendedException e) (flagged (\<lambda>s. s) e)"
proof -
  let ?q = "flagged narrow e" and ?both = "OverrideSubject OR OverrideLocation"
  have "?q = flagged (\<lambda>s. s) e" if "\<not> has e ?both"
    using that by (simp only: has_or flagged_def de_Morgan_disj if_False)
  then have b: "absorbs (if \<not> has ?q ?both then State_Monad.return ?q else read_override_texts ?q)
      (if \<not> has e ?both then [] else override_texts e) (flagged (\<lambda>s. s) e)"
    using absorbs_override_texts [OF assms] by (simp only: has_flagged split: if_split) (simp add: absorbs_return)
  have "absorbs (readExtendedException ?q changeHighlightVersion)
      ((le_bytes 4 (4 :: u32) @ le_bytes 4 (0 :: u32)) @ le_bytes 4 (0 :: u32)
        @ (if \<not> has e ?both then [] else override_texts e)) (flagged (\<lambda>s. s) e)"
    unfolding readExtendedException_def if_P [OF order_refl]
    by (intro absorbs_bind [OF sized_blocks(1)] absorbs_sized_bind b)
  then show ?thesis by (simp only: extendedException_def append_assoc)
qed

lemma absorbs_get:
  assumes "\<And>r. \<not> RErr r \<Longrightarrow> length bs \<le> left r \<Longrightarrow> absorbs (k r) bs a"
  shows "absorbs (State_Monad.bind State_Monad.get k) bs a"
proof -
  have "absorbs (k \<lparr>RB = pre @ bs @ rest, ROff = length pre, RErr = False\<rparr>) bs a" for pre rest
    by (rule assms) (simp_all add: left_def)
  then show ?thesis by (simp add: absorbs_def State_Monad.get_def)
qed

lemma absorbs_infos:
  assumes "\<And>e. e \<in> set es \<Longrightarrow> exception_ok e"
  shows "absorbs (read_infos (length es)) (concat (map exceptionInfo es)) (map (flagged narrow) es)"
  using assms
proof (induction es)
  case (Cons e es)
  then have "absorbs (read_infos (length (e # es))) (exceptionInfo e @ concat (map exceptionInfo es)) (flagged narrow e # map (flagged narrow) es)"
    by (auto intro!: absorbs_bind [OF absorbs_info] absorbs_then)
  then show ?case by simp
qed (simp add: absorbs_return)

lemma absorbs_extendeds:
  assumes "\<And>e. e \<in> set es \<Longrightarrow> exception_ok e"
  shows "absorbs (read_extended (map (flagged narrow) es) changeHighlightVersion) (concat (map extendedException es)) (map (flagged (\<lambda>s. s)) es)"
  using assms
proof (induction es)
  case (Cons e es)
  then have "absorbs (read_extended (map (flagged narrow) (e # es)) changeHighlightVersion)
      (extendedException e @ concat (map extendedException es)) (flagged (\<lambda>s. s) e # map (flagged (\<lambda>s. s)) es)"
    by (auto intro!: absorbs_bind [OF absorbs_extended] absorbs_then)
  then show ?case by simp
qed (simp add: absorbs_return)

lemma info_length: "14 * length es \<le> length (concat (map exceptionInfo es))"
  by (induction es) (auto simp: exceptionInfo_def)

lemma absorbs_exceptions:
  assumes "\<And>e. e \<in> set es \<Longrightarrow> exception_ok e"
  shows "absorbs (decodeExceptions (length es) changeHighlightVersion)
    (concat (map exceptionInfo es) @ le_bytes 4 (0 :: u32) @ concat (map extendedException es)) (Inr (map (flagged (\<lambda>s. s)) es))"
  unfolding decodeExceptions_def
proof (rule absorbs_get)
  fix r assume "length (concat (map exceptionInfo es) @ le_bytes 4 (0 :: u32) @ concat (map extendedException es)) \<le> left r"
  then have l: "\<not> left r < length es * 14" using info_length [of es] by simp
  have end_ok: "absorbs (State_Monad.bind State_Monad.get (\<lambda>r. State_Monad.return (if RErr r then Inl ErrTruncated else Inr xs))) [] (Inr xs)"
    for xs :: "exception list"
    by (rule absorbs_get) (simp add: absorbs_return)
  show "absorbs (if left r < length es * 14 then State_Monad.return (Inl ErrTruncated) else do {
       ex \<leftarrow> read_infos (length es); _ \<leftarrow> skip_sized; ex \<leftarrow> read_extended ex changeHighlightVersion; r \<leftarrow> State_Monad.get;
       State_Monad.return (if RErr r then Inl ErrTruncated else Inr ex) })
     (concat (map exceptionInfo es) @ le_bytes 4 (0 :: u32) @ concat (map extendedException es)) (Inr (map (flagged (\<lambda>s. s)) es))"
    using absorbs_bind [OF absorbs_extendeds [OF assms] end_ok] unfolding if_not_P [OF l]
    by (intro absorbs_bind [OF absorbs_infos [OF assms]] absorbs_sized_bind) simp_all
qed

lemma absorbs_u32s: "absorbs (get_u32s (length ds)) (put32s ds) ds"
proof (induction ds)
  case (Cons d ds)
  then have "absorbs (get_u32s (length (d # ds))) (le_bytes 4 d @ put32s ds) (d # ds)"
    by (auto intro!: absorbs_bind [OF absorbs_u32] absorbs_then)
  then show ?case by (simp add: put32s_def)
qed (simp add: absorbs_return put32s_def)

lemma absorbs_dates:
  assumes "length ds < 2 ^ 32"
  shows "absorbs dates (le_bytes 4 (of_nat (length ds) :: u32) @ put32s ds) ds"
proof -
  have u: "unat (of_nat (length ds) :: u32) = length ds" using assms by (simp add: unat_of_nat_less)
  then have z: "(of_nat (length ds) :: u32) = 0 \<longleftrightarrow> ds = []" by (metis length_0_conv unat_eq_0)
  have n: "put32s [] = []" by (simp add: put32s_def)
  show ?thesis unfolding dates_def
    by (intro absorbs_bind [OF absorbs_u32] absorbs_get) 
      (use n in \<open>auto simp: u z absorbs_return absorbs_u32s div_less_iff_less_mult\<close>)
qed

section \<open>The whole blob\<close>

definition written :: "appointment_pattern \<Rightarrow> appointment_pattern" where
  "written p = \<lparr>APattern = wire_pins (APattern p), DeletedDates = sortedDates (DeletedDates p), ModifiedDates = sortedDates (ModifiedDates p),
     HasTimes = True, StartTimeOffset = StartTimeOffset p, EndTimeOffset = EndTimeOffset p,
     Exceptions = (if length (Exceptions p) = length (sortedDates (ModifiedDates p))
       then map (flagged (\<lambda>s. s)) (sort_key EStart (Exceptions p)) else [])\<rparr>"

definition appointment_ok :: "appointment_pattern \<Rightarrow> bool" where
  "appointment_ok p \<longleftrightarrow> PatternType (APattern p) \<in> four_types \<and> length (DeletedDates p) < 2 ^ 32 \<and> length (ModifiedDates p) < 2 ^ 32
     \<and> length (Exceptions p) < 2 ^ 16 \<and> list_all exception_ok (Exceptions p)"

lemma length_sortedDates: "length (sortedDates ds) \<le> length ds"
  using remdups_adj_length [of "sort ds"] by (simp add: sortedDates_def)

definition base_pattern :: "appointment_pattern \<Rightarrow> appointment_pattern" where
  "base_pattern p = \<lparr>APattern = wire_pins (APattern p), DeletedDates = sortedDates (DeletedDates p), ModifiedDates = sortedDates (ModifiedDates p),
     HasTimes = False, StartTimeOffset = 0, EndTimeOffset = 0, Exceptions = []\<rparr>"

definition times_bytes :: "appointment_pattern \<Rightarrow> bytes" where
  "times_bytes p = le_bytes 4 appointmentReaderVersion @ le_bytes 4 changeHighlightVersion
     @ le_bytes 4 (StartTimeOffset p) @ le_bytes 4 (EndTimeOffset p) @ le_bytes 2 (of_nat (length (Exceptions p)) :: u16)"

definition exceptions_bytes :: "exception list \<Rightarrow> bytes" where
  "exceptions_bytes ex = concat (map exceptionInfo ex) @ le_bytes 4 (0 :: u32) @ concat (map extendedException ex)"

lemma EncodeAppointment_parts:
  "EncodeAppointment p = marshal (APattern p) (sortedDates (DeletedDates p)) (sortedDates (ModifiedDates p))
     @ times_bytes p @ exceptions_bytes (sort_key EStart (Exceptions p)) @ le_bytes 4 (0 :: u32)"
  by (simp only: EncodeAppointment_def Let_def times_bytes_def exceptions_bytes_def append_assoc length_sort)

lemma absorbs_times:
  assumes "appointment_ok p"
  shows "absorbs (decodeTimes (base_pattern p))
    (times_bytes p @ (if length (Exceptions p) = length (sortedDates (ModifiedDates p)) then exceptions_bytes (sort_key EStart (Exceptions p)) else []))
    (Inr (written p))"
proof -
  let ?ex = "sort_key EStart (Exceptions p)"
  have n: "unat (of_nat (length (Exceptions p)) :: u16) = length (Exceptions p)" using assms by (simp add: appointment_ok_def unat_of_nat_less)
  have "absorbs (decodeExceptions (length ?ex) changeHighlightVersion) (exceptions_bytes ?ex) (Inr (map (flagged (\<lambda>s. s)) ?ex))"
    unfolding exceptions_bytes_def using assms by (intro absorbs_exceptions) (simp add: appointment_ok_def list_all_iff)
  then have x: "absorbs (decodeExceptions (length (Exceptions p)) changeHighlightVersion) (exceptions_bytes ?ex) (Inr (map (flagged (\<lambda>s. s)) ?ex))"
    by (simp only: length_sort)
  have y: "absorbs (State_Monad.bind (decodeExceptions (length (Exceptions p)) changeHighlightVersion)
      (\<lambda>ex. State_Monad.return (case ex of Inl e \<Rightarrow> Inl e | Inr ex \<Rightarrow> Inr (q\<lparr>Exceptions := ex\<rparr>))))
      (exceptions_bytes ?ex) (Inr (q\<lparr>Exceptions := map (flagged (\<lambda>s. s)) ?ex\<rparr>))" for q :: appointment_pattern
    by (rule absorbs_then [OF x]) simp
  let ?q = "(base_pattern p)\<lparr>StartTimeOffset := StartTimeOffset p, EndTimeOffset := EndTimeOffset p, HasTimes := True\<rparr>"
  have m: "ModifiedDates ?q = sortedDates (ModifiedDates p)" by (simp add: base_pattern_def)
  have w: "written p = ?q\<lparr>Exceptions := if length (Exceptions p) = length (sortedDates (ModifiedDates p)) then map (flagged (\<lambda>s. s)) ?ex else []\<rparr>"
    "?q\<lparr>Exceptions := []\<rparr> = ?q"
    by (simp_all add: written_def base_pattern_def)
  have z: "absorbs (if length (Exceptions p) \<noteq> length (sortedDates (ModifiedDates p)) then State_Monad.return (Inr ?q)
      else State_Monad.bind (decodeExceptions (length (Exceptions p)) changeHighlightVersion)
        (\<lambda>ex. State_Monad.return (case ex of Inl e \<Rightarrow> Inl e | Inr ex \<Rightarrow> Inr (?q\<lparr>Exceptions := ex\<rparr>))))
      (if length (Exceptions p) = length (sortedDates (ModifiedDates p)) then exceptions_bytes ?ex else []) (Inr (written p))"
  proof (cases "length (Exceptions p) = length (sortedDates (ModifiedDates p))")
    case True
    then have "\<not> length (Exceptions p) \<noteq> length (sortedDates (ModifiedDates p))" by blast
    then show ?thesis unfolding w(1) if_P [OF True] by (simp only: if_False y)
  next
    case False
    then show ?thesis unfolding w(1) if_not_P [OF False] w(2) by (simp only: if_P absorbs_return not_False_eq_True if_True)
  qed
  show ?thesis unfolding decodeTimes_def times_bytes_def append_assoc
    apply (rule absorbs_bind [OF absorbs_skip], simp only: length_le_bytes)
    apply (rule absorbs_bind [OF absorbs_u32])+
    apply (rule absorbs_bind [OF absorbs_u16])
    apply (rule absorbs_get)
    apply (simp only: Let_def n m if_False z)
    done
qed

lemma decodePattern_marshal:
  assumes "PatternType p \<in> four_types" "length ds < 2 ^ 32" "length ms < 2 ^ 32"
  shows "run_state decodePattern \<lparr>RB = marshal p ds ms @ rest, ROff = 0, RErr = False\<rparr>
    = (Inr \<lparr>APattern = wire_pins p, DeletedDates = ds, ModifiedDates = ms, HasTimes = False, StartTimeOffset = 0, EndTimeOffset = 0, Exceptions = []\<rparr>,
       \<lparr>RB = marshal p ds ms @ rest, ROff = length (marshal p ds ms), RErr = False\<rparr>)"
proof -
  let ?pre = "head_bytes p @ specific_bytes p @ le_bytes 4 (EndType p) @ le_bytes 4 (OccurrenceCount p) @ le_bytes 4 (FirstDOW p)"
  let ?d = "le_bytes 4 (of_nat (length ds) :: u32) @ put32s ds" and ?m = "le_bytes 4 (of_nat (length ms) :: u32) @ put32s ms"
  let ?se = "le_bytes 4 (StartDate p) @ le_bytes 4 (EndDate p)"
  let ?k = "\<lambda>deleted modified. State_Monad.bind (skip 8) (\<lambda>_. State_Monad.bind State_Monad.get (\<lambda>r.
      State_Monad.return (if RErr r then Inl ErrTruncated else Inr \<lparr>APattern = wire_pins p, DeletedDates = deleted, ModifiedDates = modified,
        HasTimes = False, StartTimeOffset = 0, EndTimeOffset = 0, Exceptions = []\<rparr>)))"
  let ?r = "Inr \<lparr>APattern = wire_pins p, DeletedDates = ds, ModifiedDates = ms, HasTimes = False, StartTimeOffset = 0, EndTimeOffset = 0, Exceptions = []\<rparr>"
  have g: "absorbs (State_Monad.bind State_Monad.get (\<lambda>r. State_Monad.return (if RErr r then Inl ErrTruncated else Inr x))) [] (Inr x)" for x :: appointment_pattern
    by (rule absorbs_get) (simp add: absorbs_return)
  have k: "absorbs (?k ds ms) (?se @ []) ?r"
    by (rule absorbs_bind [OF absorbs_skip]) (simp, rule g)
  have c: "absorbs (State_Monad.bind dates (\<lambda>a. State_Monad.bind dates (?k a))) (?d @ ?m @ ?se @ []) ?r"
    by (intro absorbs_bind [OF absorbs_dates [OF assms(2)]] absorbs_bind [OF absorbs_dates [OF assms(3)]] k)
  have b: "marshal p ds ms = ?pre @ (?d @ ?m @ ?se @ [])" by (simp add: marshal_parts end_bytes_def)
  have e: "patternSpecificEnd (PatternType p) + 12 = length ?pre"
    using assms(1) by (auto simp: patternSpecificEnd_def four_types_def head_bytes_def specific_bytes_def)
  have u: "UnmarshalBinary (marshal p ds ms @ rest) = Inr (wire_pins p)"
    using assms by (intro UnmarshalBinary_marshal) (simp_all add: four_types_def)
  have "run_state (State_Monad.bind dates (\<lambda>a. State_Monad.bind dates (?k a))) \<lparr>RB = marshal p ds ms @ rest, ROff = length ?pre, RErr = False\<rparr>
      = (?r, \<lparr>RB = marshal p ds ms @ rest, ROff = length (marshal p ds ms), RErr = False\<rparr>)"
    using c unfolding absorbs_def b by (metis append_assoc length_append)
  then show ?thesis
    by (simp add: decodePattern_def State_Monad.get_def State_Monad.set_def u wire_pins_fields e)
qed

lemma sorted_remdups_distinct: "sorted xs \<Longrightarrow> distinct (remdups_adj (xs :: 'a :: linorder list))"
proof (induction xs rule: remdups_adj.induct)
  case (3 x y xs)
  then show ?case by (cases "x = y") (auto simp del: remdups_adj.simps(2) simp: less_le)
qed simp_all

lemma sortedDates_laws: "set (sortedDates ds) = set ds" "sorted (sortedDates ds)" "distinct (sortedDates ds)"
  by (simp_all add: sortedDates_def sorted_remdups_distinct sorted_remdups_adj)

lemma length_sortedDates_iff: "length (sortedDates ds) = length ds \<longleftrightarrow> distinct ds"
proof -
  have "length (sortedDates ds) = card (set ds)" using sortedDates_laws distinct_card [of "sortedDates ds"] by simp
  then show ?thesis using distinct_card [of ds] card_distinct [of ds] by auto
qed

lemma decode_encode:
  assumes "appointment_ok p"
  shows "DecodeAppointment (EncodeAppointment p) = Inr (written p)"
proof -
  let ?m = "marshal (APattern p) (sortedDates (DeletedDates p)) (sortedDates (ModifiedDates p))"
  let ?ex = "exceptions_bytes (sort_key EStart (Exceptions p))"
  let ?read = "if length (Exceptions p) = length (sortedDates (ModifiedDates p)) then ?ex else []"
  obtain rest where rest: "EncodeAppointment p = ?m @ (times_bytes p @ ?read) @ rest"
    by (cases "length (Exceptions p) = length (sortedDates (ModifiedDates p))") (simp_all add: EncodeAppointment_parts)
  let ?b = "EncodeAppointment p"
  have l: "length (sortedDates (DeletedDates p)) < 2 ^ 32" "length (sortedDates (ModifiedDates p)) < 2 ^ 32"
    using assms length_sortedDates [of "DeletedDates p"] length_sortedDates [of "ModifiedDates p"] by (simp_all add: appointment_ok_def)
  have d: "run_state decodePattern \<lparr>RB = ?b, ROff = 0, RErr = False\<rparr> = (Inr (base_pattern p), \<lparr>RB = ?b, ROff = length ?m, RErr = False\<rparr>)"
    using assms l decodePattern_marshal [of "APattern p" "sortedDates (DeletedDates p)" "sortedDates (ModifiedDates p)"]
    unfolding rest base_pattern_def by (simp add: appointment_ok_def)
  have t: "fst (run_state (decodeTimes (base_pattern p)) \<lparr>RB = ?b, ROff = length ?m, RErr = False\<rparr>) = Inr (written p)"
    using absorbs_times [OF assms] unfolding absorbs_def rest by (metis fst_conv)
  have "left \<lparr>RB = ?b, ROff = length ?m, RErr = False\<rparr> \<noteq> 0" by (simp add: left_def rest times_bytes_def)
  then show ?thesis by (simp add: DecodeAppointment_def State_Monad.get_def d t)
qed

text \<open>The modified days are the days the exceptions moved to, as every caller keeps them.\<close>

definition tracked :: "appointment_pattern \<Rightarrow> bool" where
  "tracked p \<longleftrightarrow> mset (ModifiedDates p) = mset (map (\<lambda>e. Day (EStart e)) (Exceptions p))"

text \<open>
  C9. Decoding an encoded appointment recurrence gives back the pattern, the time of day, the deleted and modified
  days in ascending order without repetition, and the modified instances in the order of their new start with exactly
  the fields their flags name, subjects and locations with their full Unicode text, provided the pattern type is one of
  the four supported, the modified days are those the instances moved to, no two of them the same, the lists fit their
  counts (below 65536 instances), and the overridden texts are valid UTF-8 of fewer than 65536 UTF-16 units.
\<close>

theorem appointment_roundtrip:
  assumes "appointment_ok p" "tracked p" "distinct (ModifiedDates p)"
  shows "DecodeAppointment (EncodeAppointment p) =
    Inr \<lparr>APattern = wire_pins (APattern p), DeletedDates = sortedDates (DeletedDates p), ModifiedDates = sort (ModifiedDates p),
      HasTimes = True, StartTimeOffset = StartTimeOffset p, EndTimeOffset = EndTimeOffset p,
      Exceptions = map (flagged (\<lambda>s. s)) (sort_key EStart (Exceptions p))\<rparr>"
proof -
  have "length (ModifiedDates p) = length (Exceptions p)" using assms(2) unfolding tracked_def by (metis length_map size_mset)
  moreover have "sortedDates (ModifiedDates p) = sort (ModifiedDates p)"
    using assms(3) by (simp add: sortedDates_def remdups_adj_distinct)
  ultimately show ?thesis using decode_encode [OF assms(1)] by (simp add: written_def)
qed

definition sample_exception :: "u32 \<Rightarrow> exception" where
  "sample_exception day = zero_exception\<lparr>EStart := day + 600, EEnd := day + 660, EOriginalStart := 540, EFlags := OverrideSubject OR OverrideSubType,
     ESubject := lit ''Lunch'', EAllDay := True\<rparr>"

definition sample_appointment :: "u32 \<Rightarrow> appointment_pattern" where
  "sample_appointment day = \<lparr>APattern = zero_pattern\<lparr>EndType := EndNever\<rparr>, DeletedDates = [0, 1440], ModifiedDates = [1440, day],
     HasTimes = True, StartTimeOffset = 540, EndTimeOffset = 600, Exceptions = [sample_exception 1440, sample_exception day]\<rparr>"

lemma sample_appointment_ok: "appointment_ok (sample_appointment day)"
  by (simp add: appointment_ok_def sample_appointment_def zero_pattern_def four_types_def exception_ok_def has_def sample_exception_def
      zero_exception_def text_ok_def valid_utf8_def utf8_encode_def encode_rune_def scalar_def decode_rune.simps Let_def)

lemma sample_tracked: "day mod 1440 = 0 \<Longrightarrow> (day + 600) mod 1440 = 600 \<Longrightarrow> tracked (sample_appointment day)"
  by (simp add: tracked_def sample_appointment_def sample_exception_def Day_def)

theorem appointment_roundtrip_witness:
  "map_prod id length (case DecodeAppointment (EncodeAppointment (sample_appointment 0)) of Inr q \<Rightarrow> (ModifiedDates q, Exceptions q)) = ([0, 1440], 2)"
proof -
  have "tracked (sample_appointment 0)" by (rule sample_tracked) simp_all
  moreover have "distinct (ModifiedDates (sample_appointment 0))" by (simp add: sample_appointment_def)
  ultimately show ?thesis using appointment_roundtrip [OF sample_appointment_ok, of 0] by (simp add: sample_appointment_def)
qed

text \<open>
  C40. Two instances moved to the same day lose each other: the repeated day is written once, the exception count no
  longer matches the number of modified days, and decoding returns no exception at all while their original days stay
  deleted.
\<close>

theorem same_day_exceptions_lost:
  assumes "appointment_ok p" "tracked p" "\<not> distinct (ModifiedDates p)"
  shows "\<exists>q. DecodeAppointment (EncodeAppointment p) = Inr q \<and> Exceptions q = [] \<and> Exceptions p \<noteq> [] \<and> set (DeletedDates q) = set (DeletedDates p)"
proof -
  have l: "length (ModifiedDates p) = length (Exceptions p)" using assms(2) unfolding tracked_def by (metis length_map size_mset)
  then have "length (Exceptions p) \<noteq> length (sortedDates (ModifiedDates p))" using assms(3) length_sortedDates_iff by metis
  moreover have "Exceptions p \<noteq> []" using l assms(3) by auto
  ultimately show ?thesis using decode_encode [OF assms(1)] by (simp add: written_def sortedDates_laws)
qed

theorem same_day_exceptions_lost_witness:
  "\<exists>q. DecodeAppointment (EncodeAppointment (sample_appointment 1440)) = Inr q \<and> Exceptions q = []"
proof -
  have "tracked (sample_appointment 1440)" by (rule sample_tracked) simp_all
  moreover have "\<not> distinct (ModifiedDates (sample_appointment 1440))" by (simp add: sample_appointment_def)
  ultimately show ?thesis using same_day_exceptions_lost [OF sample_appointment_ok, of 1440] by blast
qed

end
