(* ===== verification/Series_Blob.thy ===== *)
theory Series_Blob
  imports Recur_Appt
begin

text \<open>
  Editing the recurrence of a stored series (\<^verbatim>\<open>internal/oxcical/seriesblob.go\<close>): removing or moving
  one occurrence. \<open>order\<close> is the unstable sort of \<^verbatim>\<open>slices.SortFunc\<close>, which promises no order among
  equal starts.
\<close>

section \<open>Slices\<close>

fun IndexFunc :: "('a \<Rightarrow> bool) \<Rightarrow> 'a list \<Rightarrow> nat option" where
  "IndexFunc f [] = None"
| "IndexFunc f (x # xs) = (if f x then Some 0 else map_option Suc (IndexFunc f xs))"

definition Index :: "'a \<Rightarrow> 'a list \<Rightarrow> nat option" where
  "Index x = IndexFunc (\<lambda>y. y = x)"

definition Delete :: "nat \<Rightarrow> 'a list \<Rightarrow> 'a list" where
  "Delete i xs = take i xs @ drop (i + 1) xs"

lemma IndexFunc_None: "IndexFunc f xs = None \<longleftrightarrow> (\<forall>x\<in>set xs. \<not> f x)"
  by (induction xs) auto

lemma IndexFunc_Some: "IndexFunc f xs = Some i \<Longrightarrow> i < length xs \<and> f (xs ! i)"
  by (induction xs arbitrary: i) (auto split: if_splits)

lemma mset_Delete: "i < length xs \<Longrightarrow> mset (Delete i xs) = mset xs - {#xs ! i#}"
proof -
  assume i: "i < length xs"
  have "mset xs = mset (take i xs @ xs ! i # drop (i + 1) xs)" using id_take_nth_drop [OF i] by simp
  then show ?thesis by (simp add: Delete_def)
qed

lemma Delete_key:
  assumes "i < length xs" "key (xs ! i) = k" "distinct (map key xs)"
  shows "mset (Delete i xs) = filter_mset (\<lambda>x. key x \<noteq> k) (mset xs)"
proof -
  have e: "xs = take i xs @ xs ! i # drop (i + 1) xs" using id_take_nth_drop [OF assms(1)] by simp
  let ?a = "take i xs" and ?b = "drop (i + 1) xs"
  have "distinct (map key (?a @ xs ! i # ?b))" using assms(3) e by metis
  then have "k \<notin> key ` set ?a" "k \<notin> key ` set ?b" using assms(2) by simp_all
  then have "filter (\<lambda>x. key x \<noteq> k) ?a = ?a" "filter (\<lambda>x. key x \<noteq> k) ?b = ?b"
    by (auto simp: filter_id_conv image_iff)
  then have "filter (\<lambda>x. key x \<noteq> k) (?a @ xs ! i # ?b) = ?a @ ?b" using assms(2) by simp
  then show ?thesis unfolding Delete_def by (metis e mset_filter)
qed

section \<open>The edit\<close>

definition dropException :: "appointment_pattern \<Rightarrow> u32 \<Rightarrow> appointment_pattern" where
  "dropException p original =
     (case IndexFunc (\<lambda>ex. EOriginalStart ex = original) (Exceptions p) of
        None \<Rightarrow> p
      | Some i \<Rightarrow>
          (let p = (case Index (Day (EStart (Exceptions p ! i))) (ModifiedDates p) of
                      Some j \<Rightarrow> p\<lparr>ModifiedDates := Delete j (ModifiedDates p)\<rparr>
                    | None \<Rightarrow> p)
           in p\<lparr>Exceptions := Delete i (Exceptions p)\<rparr>))"

text \<open>
  The edit of \<^verbatim>\<open>EditRecurrenceBlob\<close> on the decoded pattern: \<open>original\<close> is the start the series generates,
  \<open>span\<close> the new start and end when the occurrence moves.
\<close>

definition edit_occurrence ::
  "(exception list \<Rightarrow> exception list) \<Rightarrow> appointment_pattern \<Rightarrow> u32 \<Rightarrow> (u32 \<times> u32) option \<Rightarrow> appointment_pattern" where
  "edit_occurrence order p original span =
     (let p = dropException p original;
          day = Day original;
          p = (if day \<notin> set (DeletedDates p) then p\<lparr>DeletedDates := sort (DeletedDates p @ [day])\<rparr> else p)
      in case span of
           None \<Rightarrow> p
         | Some (start, end_at) \<Rightarrow>
             (let ex = zero_exception\<lparr>EStart := start, EEnd := end_at, EOriginalStart := original\<rparr> in
              p\<lparr>Exceptions := order (Exceptions p @ [ex]),
                ModifiedDates := sort (ModifiedDates p @ [Day (EStart ex)])\<rparr>))"

section \<open>The series stays consistent\<close>

definition permutes :: "('a list \<Rightarrow> 'a list) \<Rightarrow> bool" where
  "permutes order \<longleftrightarrow> (\<forall>xs. mset (order xs) = mset xs)"

text \<open>
  A consistent series: the modified days are those of the exceptions, at most one exception replaces an occurrence,
  and the day of a replaced occurrence is deleted.
\<close>

definition series_ok :: "appointment_pattern \<Rightarrow> bool" where
  "series_ok p \<longleftrightarrow> tracked p \<and> distinct (map EOriginalStart (Exceptions p))
     \<and> (\<forall>e\<in>set (Exceptions p). Day (EOriginalStart e) \<in> set (DeletedDates p))"

lemma dropException_fields:
  assumes "series_ok p"
  shows "mset (Exceptions (dropException p original)) = filter_mset (\<lambda>e. EOriginalStart e \<noteq> original) (mset (Exceptions p))"
    "tracked (dropException p original)" "DeletedDates (dropException p original) = DeletedDates p"
proof -
  let ?day = "\<lambda>e. Day (EStart e)" and ?q = "dropException p original"
  have t: "mset (ModifiedDates p) = image_mset ?day (mset (Exceptions p))" using assms by (simp add: series_ok_def tracked_def)
  have "mset (Exceptions ?q) = filter_mset (\<lambda>e. EOriginalStart e \<noteq> original) (mset (Exceptions p))
      \<and> tracked ?q \<and> DeletedDates ?q = DeletedDates p"
  proof (cases "IndexFunc (\<lambda>ex. EOriginalStart ex = original) (Exceptions p)")
    case None
    then have "\<forall>e\<in>set (Exceptions p). EOriginalStart e \<noteq> original" by (simp add: IndexFunc_None)
    then have "filter_mset (\<lambda>e. EOriginalStart e \<noteq> original) (mset (Exceptions p)) = mset (Exceptions p)"
      by (simp add: filter_mset_eq_conv)
    then show ?thesis using None assms by (simp add: dropException_def series_ok_def)
  next
    case (Some i)
    let ?e = "Exceptions p ! i"
    have i: "i < length (Exceptions p)" "EOriginalStart ?e = original" using IndexFunc_Some [OF Some] by simp_all
    have "?day ?e \<in># mset (ModifiedDates p)" unfolding t using i(1) by simp
    then obtain j where j: "Index (?day ?e) (ModifiedDates p) = Some j"
      by (cases "Index (?day ?e) (ModifiedDates p)") (auto simp: Index_def IndexFunc_None)
    then have jl: "j < length (ModifiedDates p)" "ModifiedDates p ! j = ?day ?e" using IndexFunc_Some by (fastforce simp: Index_def)+
    have q: "Exceptions ?q = Delete i (Exceptions p)" "ModifiedDates ?q = Delete j (ModifiedDates p)" "DeletedDates ?q = DeletedDates p"
      using Some j by (simp_all add: dropException_def)
    have "tracked ?q" using t i(1) jl unfolding tracked_def q
      by (simp add: mset_Delete image_mset_Diff)
    then show ?thesis using q Delete_key [where key = EOriginalStart, OF i] assms by (simp add: series_ok_def)
  qed
  then show "mset (Exceptions ?q) = filter_mset (\<lambda>e. EOriginalStart e \<noteq> original) (mset (Exceptions p))" "tracked ?q"
    "DeletedDates ?q = DeletedDates p" by simp_all
qed

lemma distinct_filtered:
  assumes "mset ys = filter_mset P (mset xs)" "distinct (map key xs)"
  shows "distinct (map key ys)"
proof -
  have "mset ys = mset (filter P xs)" using assms(1) by simp
  then have "mset (map key ys) = mset (map key (filter P xs))" by (metis mset_map)
  then show ?thesis using assms(2) by (metis distinct_map_filter mset_eq_imp_distinct_iff)
qed

text \<open>
  C10. Removing or moving one occurrence keeps a series consistent and touches no other exception: afterwards the
  occurrence has the new span as its only replacement, or none when it was removed, its day is deleted, and every
  exception for another occurrence is still there, once. Consistent (\<open>series_ok\<close>) means that the modified days are those the
  exceptions moved to and that each occurrence has at most one exception; the order in which the unstable sort leaves
  equal starts is arbitrary.
\<close>

theorem edit_keeps_series:
  assumes "series_ok p" "permutes order"
  shows "series_ok (edit_occurrence order p original span)
    \<and> mset (Exceptions (edit_occurrence order p original span)) = filter_mset (\<lambda>e. EOriginalStart e \<noteq> original) (mset (Exceptions p))
        + (case span of None \<Rightarrow> {#} | Some (s, t) \<Rightarrow> {#zero_exception\<lparr>EStart := s, EEnd := t, EOriginalStart := original\<rparr>#})
    \<and> set (DeletedDates (edit_occurrence order p original span)) = insert (Day original) (set (DeletedDates p))"
proof -
  let ?d = "dropException p original"
  note d = dropException_fields [OF assms(1), of original]
  have s: "set (Exceptions ?d) = {e \<in> set (Exceptions p). EOriginalStart e \<noteq> original}"
    using arg_cong [OF d(1), of set_mset] by simp
  have k: "distinct (map EOriginalStart (Exceptions ?d))"
    using distinct_filtered [OF d(1), of EOriginalStart] assms(1) by (simp add: series_ok_def)
  have o: "mset (order xs) = mset xs" "set (order xs) = set xs" "distinct (map EOriginalStart (order xs)) = distinct (map EOriginalStart xs)" for xs
    using assms(2) unfolding permutes_def by (metis set_mset_mset mset_eq_imp_distinct_iff mset_map)+
  show ?thesis
    using d(2,3) s k assms(1)
    by (cases span) (auto simp: edit_occurrence_def Let_def d(1) o series_ok_def tracked_def split: prod.splits)
qed

lemma sample_series: "series_ok (sample_appointment 0\<lparr>Exceptions := [sample_exception 1440], ModifiedDates := [1440]\<rparr>)"
  by (simp add: series_ok_def tracked_def sample_appointment_def sample_exception_def Day_def)

theorem edit_keeps_series_witness:
  "series_ok (edit_occurrence (\<lambda>xs. xs) (sample_appointment 0\<lparr>Exceptions := [sample_exception 1440], ModifiedDates := [1440]\<rparr>) 540 (Some (7800, 7860)))"
  using edit_keeps_series [OF sample_series, of "\<lambda>xs. xs"] by (simp add: permutes_def)

end
