(* ===== verification/Go_Maps.thy ===== *)
theory Go_Maps
  imports Go_Strings "HOL-Library.AList"
begin

text \<open>
  Go maps as association lists with distinct keys: the facts the limiters share about an
  assignment, a deletion and the deletion of expired entries while ranging over the map; and the
  wrap-around of 64-bit durations.
\<close>

lemma length_update: "length (AList.update k v al) = (if k \<in> fst ` set al then length al else Suc (length al))"
  by (induction al) auto

lemma length_delete_le: "length (AList.delete k al) \<le> length al"
  by (simp add: AList.delete_eq)

lemma map_of_Some_key: "map_of al k = Some v \<Longrightarrow> k \<in> fst ` set al"
  by (force dest: map_of_SomeD)

lemma set_update: "x \<in> set (AList.update k v al) \<Longrightarrow> x = (k, v) \<or> x \<in> set al"
  by (induction al) (auto split: if_splits)

lemma delete_map_of: "map_of (AList.delete k al) = (map_of al)(k := None)"
  by (rule AList.delete_conv')

lemma map_of_sweep:
  "distinct (map fst al) \<Longrightarrow> map_of (filter (\<lambda>(k, a). P a) al) key
     = (case map_of al key of Some a \<Rightarrow> if P a then Some a else None | None \<Rightarrow> None)"
  by (induction al) (auto split: option.splits simp: image_iff dest: map_of_SomeD)

text \<open>\<^verbatim>\<open>time.Duration(s) * time.Second\<close>, a 64-bit product.\<close>

definition Seconds :: "int \<Rightarrow> int" where
  "Seconds s = signed_take_bit 63 (s * 1000000000)"

lemma Seconds_small: "0 \<le> s \<Longrightarrow> s < 9223372036 \<Longrightarrow> Seconds s = s * 1000000000"
  unfolding Seconds_def by (rule signed_take_bit_int_eq_self) simp_all

end
