(* ===== verification/Authlimit.thy ===== *)
theory Authlimit
  imports Go_Maps
begin

text \<open>
  \<^verbatim>\<open>internal/authlimit\<close>: the failed-login limiter. The map is an association list with distinct
  keys; the mutex makes every operation one step on the state. Times are nanoseconds, the zero
  time is 0; each operation takes the clock readings it makes as arguments. The tuning values
  are kept positive by every operation.
\<close>

section \<open>Keys\<close>

definition ipPrefix :: go_string where "ipPrefix = lit ''ip:''"
definition acctPrefix :: go_string where "acctPrefix = lit ''acct:''"

abbreviation (input) ipFailFactor :: int where "ipFailFactor \<equiv> 4"

definition ipKey :: "go_string \<Rightarrow> go_string" where
  "ipKey remoteAddr =
     (if remoteAddr = [] then []
      else (case SplitHostPort remoteAddr of
              Some (host, _) \<Rightarrow> ipPrefix @ host
            | None \<Rightarrow> ipPrefix @ remoteAddr))"

definition accountKey :: "(rune \<Rightarrow> rune) \<Rightarrow> go_string \<Rightarrow> go_string" where
  "accountKey lower user =
     (let user = ToLower lower (TrimSpace user) in if user = [] then [] else acctPrefix @ user)"

section \<open>The limiter\<close>

abbreviation (input) maxKeys :: int where "maxKeys \<equiv> 100000"

record attempt =
  count :: int
  windowStart :: int
  lockedUntil :: int

record limiter =
  attempts :: "(go_string \<times> attempt) list"
  maxFails :: int
  window :: int
  lockout :: int

abbreviation (input) DefaultMaxFails :: int where "DefaultMaxFails \<equiv> 5"
abbreviation (input) DefaultWindow :: int where "DefaultWindow \<equiv> 900000000000"
abbreviation (input) DefaultLockout :: int where "DefaultLockout \<equiv> 900000000000"

definition New :: "int \<Rightarrow> int \<Rightarrow> int \<Rightarrow> limiter" where
  "New mf w lk =
     \<lparr>attempts = [],
      maxFails = (if mf \<le> 0 then DefaultMaxFails else mf),
      window = (if w \<le> 0 then DefaultWindow else w),
      lockout = (if lk \<le> 0 then DefaultLockout else lk)\<rparr>"

definition SetLimits :: "limiter \<Rightarrow> int \<Rightarrow> int \<Rightarrow> int \<Rightarrow> limiter" where
  "SetLimits l mf w lk =
     (let l = (if mf > 0 then l\<lparr>maxFails := mf\<rparr> else l);
          l = (if w > 0 then l\<lparr>window := w\<rparr> else l)
      in if lk > 0 then l\<lparr>lockout := lk\<rparr> else l)"

definition allowedKey :: "limiter \<Rightarrow> int \<Rightarrow> go_string \<Rightarrow> bool" where
  "allowedKey l now key =
     (if key = [] then True
      else (case map_of (attempts l) key of
              None \<Rightarrow> True
            | Some a \<Rightarrow> \<not> now < lockedUntil a))"

definition Allowed :: "(rune \<Rightarrow> rune) \<Rightarrow> limiter \<Rightarrow> int \<times> int \<Rightarrow> go_string \<Rightarrow> go_string \<Rightarrow> bool" where
  "Allowed lower l clock addr account =
     (allowedKey l (fst clock) (ipKey addr) \<and> allowedKey l (snd clock) (accountKey lower account))"

text \<open>\<^verbatim>\<open>sweep\<close> deletes while ranging over the map; it reports whether anything was deleted.\<close>

definition expired :: "int \<Rightarrow> int \<Rightarrow> attempt \<Rightarrow> bool" where
  "expired now w a \<longleftrightarrow> now - windowStart a \<ge> w \<and> now > lockedUntil a"

definition sweep :: "limiter \<Rightarrow> int \<Rightarrow> int \<Rightarrow> bool \<times> limiter" where
  "sweep l now w =
     (list_ex (\<lambda>(k, a). expired now w a) (attempts l),
      l\<lparr>attempts := filter (\<lambda>(k, a). \<not> expired now w a) (attempts l)\<rparr>)"

definition bump :: "int \<Rightarrow> int \<Rightarrow> int \<Rightarrow> int \<Rightarrow> attempt \<Rightarrow> attempt" where
  "bump now w lk mf a =
     (let a = (if now - windowStart a \<ge> w \<or> (lockedUntil a \<noteq> 0 \<and> now > lockedUntil a)
               then a\<lparr>count := 0, windowStart := now, lockedUntil := 0\<rparr> else a);
          a = a\<lparr>count := count a + 1\<rparr>
      in if count a \<ge> mf then a\<lparr>lockedUntil := now + lk\<rparr> else a)"

definition failKey :: "limiter \<Rightarrow> int \<Rightarrow> go_string \<Rightarrow> int \<Rightarrow> limiter" where
  "failKey l now key mf =
     (if key = [] then l
      else (case map_of (attempts l) key of
              Some a \<Rightarrow> l\<lparr>attempts := AList.update key (bump now (window l) (lockout l) mf a) (attempts l)\<rparr>
            | None \<Rightarrow>
                (case (if int (length (attempts l)) \<ge> maxKeys then sweep l now (window l) else (True, l)) of
                   (room, l) \<Rightarrow>
                   if \<not> room then l
                   else l\<lparr>attempts := AList.update key
                          (bump now (window l) (lockout l) mf \<lparr>count = 0, windowStart = now, lockedUntil = 0\<rparr>)
                          (attempts l)\<rparr>)))"

definition Fail :: "(rune \<Rightarrow> rune) \<Rightarrow> limiter \<Rightarrow> int \<times> int \<Rightarrow> go_string \<Rightarrow> go_string \<Rightarrow> limiter" where
  "Fail lower l clock addr account =
     (let mf = maxFails l;
          l = failKey l (fst clock) (ipKey addr) (mf * ipFailFactor)
      in failKey l (snd clock) (accountKey lower account) mf)"

definition Succeed :: "(rune \<Rightarrow> rune) \<Rightarrow> limiter \<Rightarrow> go_string \<Rightarrow> go_string \<Rightarrow> limiter" where
  "Succeed lower l addr account =
     fold (\<lambda>key l. if key \<noteq> [] then l\<lparr>attempts := AList.delete key (attempts l)\<rparr> else l)
       [ipKey addr, accountKey lower account] l"

definition Prune :: "limiter \<Rightarrow> int \<Rightarrow> limiter" where
  "Prune l now = snd (sweep l now (window l))"

text \<open>
  \<^verbatim>\<open>Apply\<close> with the outcome of the settings read: an error, no row, or the stored values in
  seconds. The log line of the error path is outside the model.
\<close>

record settings =
  MaxFails :: int
  WindowSeconds :: int
  LockoutSeconds :: int

definition Apply :: "limiter \<Rightarrow> unit + settings option \<Rightarrow> limiter" where
  "Apply l read =
     (case read of
        Inl _ \<Rightarrow> l
      | Inr None \<Rightarrow> l
      | Inr (Some s) \<Rightarrow> SetLimits l (MaxFails s) (Seconds (WindowSeconds s)) (Seconds (LockoutSeconds s)))"

section \<open>Reachable states\<close>

inductive reachable :: "(rune \<Rightarrow> rune) \<Rightarrow> limiter \<Rightarrow> bool" for lower where
  init: "reachable lower (New mf w lk)"
| set_limits: "reachable lower l \<Longrightarrow> reachable lower (SetLimits l mf w lk)"
| apply_settings: "reachable lower l \<Longrightarrow> reachable lower (Apply l r)"
| failed: "reachable lower l \<Longrightarrow> reachable lower (Fail lower l clock addr account)"
| succeeded: "reachable lower l \<Longrightarrow> reachable lower (Succeed lower l addr account)"
| pruned: "reachable lower l \<Longrightarrow> reachable lower (Prune l now)"

definition table_ok :: "limiter \<Rightarrow> bool" where
  "table_ok l \<longleftrightarrow> distinct (map fst (attempts l)) \<and> int (length (attempts l)) \<le> maxKeys
     \<and> maxFails l > 0 \<and> window l > 0 \<and> lockout l > 0"

lemma sweep_smaller: "sweep l now w = (True, l') \<Longrightarrow> length (attempts l') < length (attempts l)"
  by (auto simp: sweep_def list_ex_iff intro!: length_filter_less)

lemma put_ok:
  "table_ok l \<Longrightarrow> k \<in> fst ` set (attempts l) \<or> int (length (attempts l)) < maxKeys \<Longrightarrow>
     table_ok (l\<lparr>attempts := AList.update k v (attempts l)\<rparr>)"
  by (auto simp: table_ok_def length_update distinct_update)

lemma sweep_ok: "table_ok l \<Longrightarrow> table_ok (snd (sweep l now w))"
  by (auto simp: table_ok_def sweep_def distinct_map_filter intro: le_trans [OF length_filter_le])

lemma failKey_cases:
  "failKey l now key mf = (if key = [] then l
     else (case map_of (attempts l) key of
       Some a \<Rightarrow> l\<lparr>attempts := AList.update key (bump now (window l) (lockout l) mf a) (attempts l)\<rparr>
     | None \<Rightarrow>
         (let v = bump now (window l) (lockout l) mf \<lparr>count = 0, windowStart = now, lockedUntil = 0\<rparr>;
              l' = (if int (length (attempts l)) \<ge> maxKeys then snd (sweep l now (window l)) else l)
          in if int (length (attempts l)) \<ge> maxKeys \<and> \<not> fst (sweep l now (window l)) then l'
             else l'\<lparr>attempts := AList.update key v (attempts l')\<rparr>)))"
  by (auto simp: failKey_def Let_def sweep_def split: option.splits)

lemma failKey_ok:
  assumes ok: "table_ok l"
  shows "table_ok (failKey l now key mf)"
proof -
  let ?s = "sweep l now (window l)"
  have "int (length (attempts (snd ?s))) < maxKeys" if "fst ?s"
  proof -
    have "?s = (True, snd ?s)" using that by (simp add: prod_eq_iff)
    from sweep_smaller [OF this] show ?thesis using ok by (simp add: table_ok_def)
  qed
  then show ?thesis
    using ok sweep_ok [OF ok, of now "window l"]
    by (auto simp: failKey_cases Let_def dest: map_of_Some_key split: option.split intro!: put_ok)
qed

lemma reachable_table_ok: "reachable lower l \<Longrightarrow> table_ok l"
proof (induction rule: reachable.induct)
  case (apply_settings l r)
  then show ?case
    by (auto simp: Apply_def SetLimits_def table_ok_def Let_def split: sum.splits option.splits)
next
  case (succeeded l addr account)
  then show ?case
    using length_delete_le le_trans
    by (auto simp: Succeed_def table_ok_def AList.distinct_delete intro!: le_trans [OF length_delete_le])
next
  case (pruned l now)
  then show ?case
    by (auto simp: Prune_def sweep_def table_ok_def distinct_map_filter intro: le_trans [OF length_filter_le])
next
  case (failed l clock addr account)
  then show ?case by (simp add: Fail_def Let_def failKey_ok)
qed (auto simp: New_def SetLimits_def table_ok_def Let_def)

section \<open>One key over time\<close>

text \<open>
  What a table with room holds for one key: a recorded failure counts in the entry of its own
  key, or starts one, and leaves every other entry alone.
\<close>

definition fail_entry :: "int \<Rightarrow> int \<Rightarrow> int \<Rightarrow> int \<Rightarrow> attempt option \<Rightarrow> attempt option" where
  "fail_entry w lk mf t e = Some (bump t w lk mf (case e of None \<Rightarrow> \<lparr>count = 0, windowStart = t, lockedUntil = 0\<rparr> | Some a \<Rightarrow> a))"

lemma failKey_room:
  assumes "int (length (attempts l)) < maxKeys"
  shows "map_of (attempts (failKey l t k mf)) key
      = (if k = key \<and> key \<noteq> [] then fail_entry (window l) (lockout l) mf t (map_of (attempts l) key) else map_of (attempts l) key)"
    and "length (attempts (failKey l t k mf)) \<le> Suc (length (attempts l))"
    and "window (failKey l t k mf) = window l" "lockout (failKey l t k mf) = lockout l" "maxFails (failKey l t k mf) = maxFails l"
  using assms by (auto simp: failKey_def fail_entry_def update_conv length_update split: option.split)

definition counted :: "int \<Rightarrow> int \<Rightarrow> int \<Rightarrow> int \<Rightarrow> nat \<Rightarrow> attempt \<Rightarrow> bool" where
  "counted t0 t lk mf n a \<longleftrightarrow> count a = int n \<and> windowStart a = t0
     \<and> lockedUntil a = (if int n \<ge> mf then t + lk else 0)"

lemma bump_counted:
  assumes "counted t0 t lk mf n a" "0 < t0" "t0 \<le> t" "t \<le> t'" "t' - t0 < w" "t' - t0 < lk"
  shows "counted t0 t' lk mf (Suc n) (bump t' w lk mf a)"
  using assms by (auto simp: counted_def bump_def Let_def)

lemma entry_counted:
  assumes "counted t0 t lk mf n a" "0 < t0" "t0 \<le> t" "sorted (t # ts)" "\<forall>x\<in>set ts. x - t0 < w \<and> x - t0 < lk"
  shows "\<exists>a'. fold (fail_entry w lk mf) ts (Some a) = Some a' \<and> counted t0 (last (t # ts)) lk mf (n + length ts) a'"
  using assms
proof (induction ts arbitrary: t n a)
  case (Cons t' ts)
  have "counted t0 t' lk mf (Suc n) (bump t' w lk mf a)" using Cons.prems by (intro bump_counted [of t0 t]) auto
  then show ?case using Cons.IH [of t' "Suc n"] Cons.prems by (auto simp: fail_entry_def)
qed auto

lemma entry_fresh:
  assumes "0 < t0" "0 < w" "sorted (t0 # ts)" "\<forall>x\<in>set ts. x - t0 < w \<and> x - t0 < lk"
  shows "\<exists>a. fold (fail_entry w lk mf) (t0 # ts) None = Some a \<and> counted t0 (last (t0 # ts)) lk mf (length (t0 # ts)) a"
proof -
  have "counted t0 t0 lk mf 1 (bump t0 w lk mf \<lparr>count = 0, windowStart = t0, lockedUntil = 0\<rparr>)"
    using assms(2) by (simp add: counted_def bump_def)
  then show ?thesis using entry_counted [of t0 t0 lk mf 1 _ ts w] assms by (auto simp: fail_entry_def)
qed

section \<open>Locks and other keys\<close>

text \<open>A lock that outlasts the time of a sweep survives it, and no operation on another key touches it.\<close>

lemma sweep_keeps_lock:
  assumes "table_ok l" "map_of (attempts l) key = Some a" "now \<le> lockedUntil a"
  shows "map_of (attempts (snd (sweep l now w))) key = Some a"
  using assms by (simp add: sweep_def map_of_sweep table_ok_def expired_def)

lemma failKey_keeps_lock:
  assumes "table_ok l" "map_of (attempts l) key = Some a" "now \<le> lockedUntil a" "key \<noteq> other"
  shows "map_of (attempts (failKey l now other mf)) key = Some a"
  using assms sweep_keeps_lock [OF assms(1-3), of "window l"]
  by (auto simp: failKey_cases Let_def update_conv split: option.split)

lemma keys_apart: "ipKey addr \<noteq> [] \<Longrightarrow> ipKey addr \<noteq> accountKey lower account"
  by (auto simp: ipKey_def accountKey_def ipPrefix_def acctPrefix_def Let_def split: option.splits if_splits)

section \<open>Recorded failures over time\<close>

text \<open>
  A sequence of failed logins by any clients, each with the two clock readings \<^verbatim>\<open>Fail\<close> makes, its remote
  address and its account; and the times at which it counts against one address or one account.
\<close>

type_synonym login_failure = "(int \<times> int) \<times> go_string \<times> go_string"

fun record_failures :: "(rune \<Rightarrow> rune) \<Rightarrow> limiter \<Rightarrow> login_failure list \<Rightarrow> limiter" where
  "record_failures lower l [] = l"
| "record_failures lower l ((clock, addr, user) # evs) = record_failures lower (Fail lower l clock addr user) evs"

definition address_failures :: "go_string \<Rightarrow> login_failure list \<Rightarrow> int list" where
  "address_failures addr evs = map (\<lambda>(clock, _). fst clock) (filter (\<lambda>(_, a, _). ipKey a = ipKey addr) evs)"

definition account_failures :: "(rune \<Rightarrow> rune) \<Rightarrow> go_string \<Rightarrow> login_failure list \<Rightarrow> int list" where
  "account_failures lower user evs
     = map (\<lambda>(clock, _). snd clock) (filter (\<lambda>(_, _, u). accountKey lower u = accountKey lower user) evs)"

lemma Fail_room:
  assumes "int (length (attempts l)) + 1 < maxKeys" "key \<noteq> []"
  shows "map_of (attempts (Fail lower l clock addr user)) key
      = (let e = map_of (attempts l) key;
             e = (if ipKey addr = key then fail_entry (window l) (lockout l) (maxFails l * ipFailFactor) (fst clock) e else e)
         in if accountKey lower user = key then fail_entry (window l) (lockout l) (maxFails l) (snd clock) e else e)"
    and "length (attempts (Fail lower l clock addr user)) \<le> length (attempts l) + 2"
    and "window (Fail lower l clock addr user) = window l" "lockout (Fail lower l clock addr user) = lockout l"
      "maxFails (Fail lower l clock addr user) = maxFails l"
proof -
  let ?l = "failKey l (fst clock) (ipKey addr) (maxFails l * ipFailFactor)"
  note one = failKey_room [of l "fst clock" "ipKey addr" "maxFails l * ipFailFactor"]
  have "int (length (attempts ?l)) < maxKeys" using one(2) assms(1) by simp
  note two = failKey_room [OF this, of "snd clock" "accountKey lower user" "maxFails l"]
  show "map_of (attempts (Fail lower l clock addr user)) key
      = (let e = map_of (attempts l) key;
             e = (if ipKey addr = key then fail_entry (window l) (lockout l) (maxFails l * ipFailFactor) (fst clock) e else e)
         in if accountKey lower user = key then fail_entry (window l) (lockout l) (maxFails l) (snd clock) e else e)"
    "length (attempts (Fail lower l clock addr user)) \<le> length (attempts l) + 2"
    "window (Fail lower l clock addr user) = window l" "lockout (Fail lower l clock addr user) = lockout l"
    "maxFails (Fail lower l clock addr user) = maxFails l"
    using one two assms by (simp_all add: Fail_def Let_def)
qed

lemma record_failures_entry:
  assumes "int (length (attempts l)) + 2 * int (length evs) \<le> maxKeys"
  shows "(ipKey addr \<noteq> [] \<longrightarrow> map_of (attempts (record_failures lower l evs)) (ipKey addr)
      = fold (fail_entry (window l) (lockout l) (maxFails l * ipFailFactor)) (address_failures addr evs) (map_of (attempts l) (ipKey addr)))
    \<and> (accountKey lower user \<noteq> [] \<longrightarrow> map_of (attempts (record_failures lower l evs)) (accountKey lower user)
      = fold (fail_entry (window l) (lockout l) (maxFails l)) (account_failures lower user evs) (map_of (attempts l) (accountKey lower user)))"
  using assms
proof (induction evs arbitrary: l)
  case (Cons ev evs)
  obtain clock a u where ev: "ev = (clock, a, u)" by (cases ev) auto
  have room: "int (length (attempts l)) + 1 < maxKeys" using Cons.prems by simp
  note F = Fail_room [OF room, where lower = lower and clock = clock and addr = a and user = u]
  have "int (length (attempts (Fail lower l clock a u))) + 2 * int (length evs) \<le> maxKeys"
    using F(2) [of "[0]"] Cons.prems by simp
  note IH = Cons.IH [OF this]
  show ?case using IH F [of "ipKey addr"] F [of "accountKey lower user"] keys_apart [of addr lower u] keys_apart [of a lower user]
    by (auto simp: ev address_failures_def account_failures_def Let_def)
qed (simp add: address_failures_def account_failures_def)

section \<open>Properties\<close>

text \<open>
  C13. The lockout threshold is exact on both axes under interleaved failures. Take any sequence of failed logins
  by any clients, recorded by \<^verbatim>\<open>Fail\<close> with no success, prune or change of settings in between, while the table has room
  for every key they touch (a full table fails open). A client address that was not tracked before is refused
  exactly from four times the failure limit on, and an account from the failure limit on, and then until a full lockout
  after its last failure. The failures counted on the key are in clock order and lie inside one window and one lockout
  of the first; failures on other keys do not matter.
\<close>

theorem lockout_threshold_exact:
  assumes "reachable lower l" "int (length (attempts l)) + 2 * int (length evs) \<le> maxKeys"
    "(key, thr, t0 # ts) \<in> {(ipKey addr, maxFails l * ipFailFactor, address_failures addr evs),
                             (accountKey lower user, maxFails l, account_failures lower user evs)}"
    "key \<noteq> []" "map_of (attempts l) key = None"
    "0 < t0" "sorted (t0 # ts)" "\<forall>t\<in>set ts. t - t0 < window l \<and> t - t0 < lockout l" "last (t0 # ts) \<le> now"
  shows "allowedKey (record_failures lower l evs) now key
    \<longleftrightarrow> int (length (t0 # ts)) < thr \<or> last (t0 # ts) + lockout l \<le> now"
proof -
  have "0 < window l" using reachable_table_ok [OF assms(1)] by (simp add: table_ok_def)
  moreover have "(key, thr, T) \<in> {(ipKey addr, maxFails l * ipFailFactor, address_failures addr evs),
      (accountKey lower user, maxFails l, account_failures lower user evs)} \<Longrightarrow>
      map_of (attempts (record_failures lower l evs)) key = fold (fail_entry (window l) (lockout l) thr) T None" for T
    using record_failures_entry [OF assms(2), of addr lower user] assms(4,5) by auto
  note this [OF assms(3)]
  ultimately obtain a where a: "map_of (attempts (record_failures lower l evs)) key = Some a"
      "counted t0 (last (t0 # ts)) (lockout l) thr (length (t0 # ts)) a"
    using entry_fresh [OF assms(6) _ assms(7,8)] by metis
  have "0 \<le> now"
    using assms(6,7,9) last_in_set [of "t0 # ts"] by (cases ts) (auto simp del: last_in_set dest!: bspec)
  then show ?thesis using a assms(4) by (auto simp: allowedKey_def counted_def)
qed

definition guessing :: "login_failure list" where
  "guessing = [((100, 101), lit ''a:1'', lit ''B''), ((105, 105), lit ''c:1'', lit ''e''),
     ((110, 111), lit ''a:2'', lit ''b ''), ((120, 121), lit ''d:1'', lit ''b'')]"

definition ascii_lower :: "rune \<Rightarrow> rune" where
  "ascii_lower r = (if 65 \<le> r \<and> r \<le> 90 then r + 32 else r)"

theorem lockout_threshold_exact_witness:
  "let l = record_failures ascii_lower (New 3 60 60) guessing in
   \<not> allowedKey l 180 (accountKey ascii_lower (lit ''b'')) \<and> allowedKey l 181 (accountKey ascii_lower (lit ''b''))
   \<and> allowedKey l 130 (ipKey (lit ''a:3''))"
proof -
  let ?l = "New 3 60 60" and ?b = "accountKey ascii_lower (lit ''b'')" and ?i = "ipKey (lit ''a:3'')"
  have k: "account_failures ascii_lower (lit ''b'') guessing = [101, 111, 121]" "address_failures (lit ''a:3'') guessing = [100, 110]"
    "?b \<noteq> []" "?i \<noteq> []" by code_simp+
  have l: "int (length (attempts ?l)) + 2 * int (length guessing) \<le> maxKeys" "map_of (attempts ?l) x = None"
    "window ?l = 60" "lockout ?l = 60" "maxFails ?l = 3" for x by (simp_all add: New_def guessing_def)
  note ex = lockout_threshold_exact [where lower = ascii_lower, OF reachable.init l(1)]
  note account = ex [where key = ?b and thr = 3 and ?t0.0 = 101 and ts = "[111, 121]" and user = "lit ''b''"]
  note address = ex [where key = ?i and thr = 12 and ?t0.0 = 100 and ts = "[110]" and addr = "lit ''a:3''"]
  show ?thesis using account [of _ 180] account [of _ 181] address [of _ 130] k l(2-5) by (simp add: Let_def del: lit_simps)
qed

text \<open>
  C23. In every reachable state the tracking table holds at most \<^verbatim>\<open>maxKeys\<close> distinct keys and the
  tuning is positive, whatever settings were applied; and a login whose address and account
  cannot be keyed is always admitted.
\<close>

theorem limiter_table_bounded:
  assumes "reachable lower l"
  shows "int (length (attempts l)) \<le> maxKeys \<and> distinct (map fst (attempts l))
    \<and> maxFails l > 0 \<and> window l > 0 \<and> lockout l > 0 \<and> Allowed lower l clock [] []"
proof -
  have "accountKey lower [] = []" by (simp add: accountKey_def TrimSpace_def ToLower_def utf8_encode_def)
  then show ?thesis
    using reachable_table_ok [OF assms] by (simp add: table_ok_def Allowed_def allowedKey_def ipKey_def)
qed

theorem limiter_table_bounded_witness:
  "let l = Fail id (New 0 0 0) (5, 6) (lit ''[::1]:25'') (lit '' Bob '') in
   map fst (attempts l) = [lit ''ip:::1'', lit ''acct:Bob''] \<and> int (length (attempts l)) \<le> maxKeys \<and> maxFails l = 5"
proof -
  let ?l = "Fail id (New 0 0 0) (5, 6) (lit ''[::1]:25'') (lit '' Bob '')"
  have "reachable id ?l" by (intro reachable.intros)
  moreover have "map fst (attempts ?l) = [lit ''ip:::1'', lit ''acct:Bob'']" "maxFails ?l = 5" by code_simp+
  ultimately show ?thesis using limiter_table_bounded [of id ?l] by (simp add: Let_def)
qed

text \<open>
  Isolation: while one key is locked out, failures recorded for other keys, successful
  logins of others and pruning never lift its lock; a success clears exactly its own two keys;
  and the address and the account axis never share a counter.
\<close>

lemma lock_isolation:
  assumes "reachable lower l" "key \<noteq> []" "\<not> allowedKey l now key" "t1 \<le> now" "t2 \<le> now"
    "ipKey addr \<noteq> key" "accountKey lower account \<noteq> key"
  shows "\<not> allowedKey (Fail lower l (t1, t2) addr account) now key
    \<and> \<not> allowedKey (Succeed lower l addr account) now key
    \<and> \<not> allowedKey (Prune l t1) now key
    \<and> allowedKey (Succeed lower l addr account) now (ipKey addr)
    \<and> allowedKey (Succeed lower l addr account) now (accountKey lower account)
    \<and> (ipKey addr \<noteq> [] \<longrightarrow> ipKey addr \<noteq> accountKey lower account)"
proof -
  have ok: "table_ok l" by (rule reachable_table_ok [OF assms(1)])
  obtain a where a: "map_of (attempts l) key = Some a" "now < lockedUntil a"
    using assms(2,3) by (auto simp: allowedKey_def split: option.splits)
  have "map_of (attempts (Fail lower l (t1, t2) addr account)) key = Some a"
    unfolding Fail_def Let_def using ok a assms(4-7)
    by (intro failKey_keeps_lock failKey_ok) auto
  moreover have "map_of (attempts (Prune l t1)) key = Some a"
    unfolding Prune_def using ok a assms(4) by (intro sweep_keeps_lock) auto
  moreover have "map_of (attempts (Succeed lower l addr account)) key = Some a"
    using a assms(6,7) by (simp add: Succeed_def delete_map_of)
  moreover have "allowedKey (Succeed lower l addr account) now (ipKey addr)"
    "allowedKey (Succeed lower l addr account) now (accountKey lower account)"
    by (simp_all add: allowedKey_def Succeed_def delete_map_of)
  ultimately show ?thesis using a assms(2) keys_apart by (auto simp: allowedKey_def)
qed

end
