(* ===== verification/Connlimit.thy ===== *)
theory Connlimit
  imports Go_Maps "HOL-Library.Multiset"
begin

text \<open>
  \<^verbatim>\<open>internal/connlimit\<close>: the cap on live connections, in total and per client address. The release
  function a successful \<^verbatim>\<open>Acquire\<close> returns is a closure over the key guarded by a \<^verbatim>\<open>sync.Once\<close>; a
  daemon's state is therefore the limiter together with the release functions it has handed out
  and whether each has run.
\<close>

section \<open>The limiter (limiter.go)\<close>

record conn_limiter =
  total :: int
  perAddr :: "(go_string \<times> int) list"
  maxTotal :: int
  maxPerClient :: int
  enabled :: bool

datatype reason = ReasonTotal | ReasonPerClient
datatype release_fn = NoRelease | ReleaseOnce go_string

definition connNew :: conn_limiter where
  "connNew = \<lparr>total = 0, perAddr = [], maxTotal = 1000, maxPerClient = 20, enabled = False\<rparr>"

definition connSetEnabled :: "conn_limiter \<Rightarrow> bool \<Rightarrow> conn_limiter" where
  "connSetEnabled l on = l\<lparr>enabled := on\<rparr>"

definition connSetLimits :: "conn_limiter \<Rightarrow> int \<Rightarrow> int \<Rightarrow> conn_limiter" where
  "connSetLimits l tot perClient =
     (let l = (if tot \<ge> 1 then l\<lparr>maxTotal := tot\<rparr> else l)
      in if perClient \<ge> 1 then l\<lparr>maxPerClient := perClient\<rparr> else l)"

text \<open>A Go map read of an absent key is 0.\<close>

definition live :: "conn_limiter \<Rightarrow> go_string \<Rightarrow> int" where
  "live l key = (case map_of (perAddr l) key of None \<Rightarrow> 0 | Some n \<Rightarrow> n)"

definition Acquire :: "conn_limiter \<Rightarrow> go_string \<Rightarrow> conn_limiter \<times> (reason + release_fn)" where
  "Acquire l key =
     (if \<not> enabled l then (l, Inr NoRelease)
      else if total l \<ge> maxTotal l then (l, Inl ReasonTotal)
      else if key \<noteq> [] \<and> live l key \<ge> maxPerClient l then (l, Inl ReasonPerClient)
      else
        (let l = l\<lparr>total := total l + 1\<rparr>;
             l = (if key \<noteq> [] then l\<lparr>perAddr := AList.update key (live l key + 1) (perAddr l)\<rparr> else l)
         in (l, Inr (ReleaseOnce key))))"

definition release :: "conn_limiter \<Rightarrow> go_string \<Rightarrow> conn_limiter" where
  "release l key =
     (let l = (if total l > 0 then l\<lparr>total := total l - 1\<rparr> else l) in
      if key = [] then l
      else
        (let n = live l key - 1 in
         if n > 0 then l\<lparr>perAddr := AList.update key n (perAddr l)\<rparr>
         else l\<lparr>perAddr := AList.delete key (perAddr l)\<rparr>))"

definition InUse :: "conn_limiter \<Rightarrow> go_string \<Rightarrow> int \<times> int" where
  "InUse l key = (total l, live l key)"

section \<open>Keys, settings (gate.go, apply.go)\<close>

text \<open>The remote address of a connection, \<open>None\<close> when there is no connection or no address.\<close>

definition ClientKey :: "go_string option \<Rightarrow> go_string" where
  "ClientKey remote =
     (case remote of
        None \<Rightarrow> []
      | Some a \<Rightarrow> (case SplitHostPort a of None \<Rightarrow> [] | Some (host, _) \<Rightarrow> host))"

definition remoteAddr :: "go_string option \<Rightarrow> go_string" where
  "remoteAddr remote = (case remote of None \<Rightarrow> [] | Some a \<Rightarrow> a)"

text \<open>The admission half of \<^verbatim>\<open>Gate\<close>: the verdict and what is reported when it refuses.\<close>

definition Gate :: "conn_limiter \<Rightarrow> go_string option \<Rightarrow> conn_limiter \<times> release_fn option \<times> (go_string \<times> reason) list" where
  "Gate l remote =
     (case Acquire l (ClientKey remote) of
        (l, Inr rel) \<Rightarrow> (l, Some rel, [])
      | (l, Inl why) \<Rightarrow> (l, None, [(remoteAddr remote, why)]))"

record conn_settings =
  CEnabled :: bool
  CMaxTotal :: int
  CMaxPerClient :: int

definition connApply :: "conn_limiter \<Rightarrow> unit + conn_settings option \<Rightarrow> conn_limiter" where
  "connApply l read =
     (case read of
        Inl _ \<Rightarrow> l
      | Inr None \<Rightarrow> l
      | Inr (Some s) \<Rightarrow> connSetEnabled (connSetLimits l (CMaxTotal s) (CMaxPerClient s)) (CEnabled s))"

section \<open>A daemon and its connections\<close>

record daemon =
  lim :: conn_limiter
  handles :: "(release_fn \<times> bool) list"

definition accept_conn :: "daemon \<Rightarrow> go_string option \<Rightarrow> daemon" where
  "accept_conn d remote =
     (case Gate (lim d) remote of
        (l, Some rel, _) \<Rightarrow> d\<lparr>lim := l, handles := handles d @ [(rel, False)]\<rparr>
      | (l, None, _) \<Rightarrow> d\<lparr>lim := l\<rparr>)"

text \<open>Calling a release function: the \<^verbatim>\<open>sync.Once\<close> runs the body the first time only.\<close>

definition call_release :: "daemon \<Rightarrow> nat \<Rightarrow> daemon" where
  "call_release d i =
     (if i < length (handles d) then
        (case handles d ! i of
           (NoRelease, _) \<Rightarrow> d
         | (ReleaseOnce key, True) \<Rightarrow> d
         | (ReleaseOnce key, False) \<Rightarrow>
             d\<lparr>lim := release (lim d) key, handles := (handles d)[i := (ReleaseOnce key, True)]\<rparr>)
      else d)"

inductive daemon_reach :: "daemon \<Rightarrow> bool" where
  start: "daemon_reach \<lparr>lim = connNew, handles = []\<rparr>"
| accept: "daemon_reach d \<Longrightarrow> daemon_reach (accept_conn d remote)"
| close: "daemon_reach d \<Longrightarrow> daemon_reach (call_release d i)"
| limits: "daemon_reach d \<Longrightarrow> daemon_reach (d\<lparr>lim := connSetLimits (lim d) t p\<rparr>)"
| switch: "daemon_reach d \<Longrightarrow> daemon_reach (d\<lparr>lim := connSetEnabled (lim d) on\<rparr>)"
| settings: "daemon_reach d \<Longrightarrow> daemon_reach (d\<lparr>lim := connApply (lim d) r\<rparr>)"

section \<open>The counters count the live connections\<close>

text \<open>
  The keys, with multiplicity, of the connections that were counted when they were admitted (the cap was on) and whose
  release has not run. A connection admitted while the cap is off holds a release function that does nothing.
\<close>

definition open_key :: "release_fn \<times> bool \<Rightarrow> go_string multiset" where
  "open_key h = (case h of (ReleaseOnce k, False) \<Rightarrow> {#k#} | _ \<Rightarrow> {#})"

definition open_keys :: "daemon \<Rightarrow> go_string multiset" where
  "open_keys d = sum_list (map open_key (handles d))"

definition addr_ok :: "conn_limiter \<Rightarrow> go_string multiset \<Rightarrow> bool" where
  "addr_ok l M \<longleftrightarrow> distinct (map fst (perAddr l)) \<and> (\<forall>k. k \<noteq> [] \<longrightarrow> live l k = int (count M k))
     \<and> (\<forall>k n. (k, n) \<in> set (perAddr l) \<longrightarrow> n > 0 \<and> k \<noteq> []) \<and> maxTotal l \<ge> 1 \<and> maxPerClient l \<ge> 1"

definition counters_ok :: "conn_limiter \<Rightarrow> go_string multiset \<Rightarrow> bool" where
  "counters_ok l M \<longleftrightarrow> total l = int (size M) \<and> addr_ok l M"

definition daemon_ok :: "daemon \<Rightarrow> bool" where
  "daemon_ok d \<longleftrightarrow> counters_ok (lim d) (open_keys d)"

lemma live_update: "live (l\<lparr>perAddr := AList.update k n (perAddr l)\<rparr>) k' = (if k' = k then n else live l k')"
  by (simp add: live_def update_conv)

lemma live_delete: "live (l\<lparr>perAddr := AList.delete k (perAddr l)\<rparr>) k' = (if k' = k then 0 else live l k')"
  by (simp add: live_def AList.delete_conv')

lemma live_total [simp]: "live (l\<lparr>total := t\<rparr>) k = live l k"
  by (simp add: live_def)

text \<open>Setting the count of one client to \<open>n\<close>, where 0 drops the key.\<close>

definition set_live :: "conn_limiter \<Rightarrow> go_string \<Rightarrow> int \<Rightarrow> conn_limiter" where
  "set_live l key n = (if n > 0 then l\<lparr>perAddr := AList.update key n (perAddr l)\<rparr>
     else l\<lparr>perAddr := AList.delete key (perAddr l)\<rparr>)"

lemma set_live_ok:
  assumes "addr_ok l M" "key \<noteq> []" "n = int (count M' key)" "\<And>k. k \<noteq> key \<Longrightarrow> count M' k = count M k"
  shows "addr_ok (set_live l key n) M'"
proof -
  have "live (set_live l key n) k = (if k = key then n else live l k)" for k
    using assms(3) by (auto simp: set_live_def live_update live_delete not_in_iff)
  moreover have "distinct (map fst (perAddr (set_live l key n)))"
    using assms(1) by (simp add: set_live_def addr_ok_def distinct_update AList.distinct_delete)
  moreover have "(k, v) \<in> set (perAddr (set_live l key n)) \<Longrightarrow> v > 0 \<and> k \<noteq> []" for k v
    using assms(1,2) set_update [of "(k, v)" key n "perAddr l"]
    by (auto simp: set_live_def addr_ok_def AList.delete_eq split: if_splits)
  moreover have "maxTotal (set_live l key n) = maxTotal l" "maxPerClient (set_live l key n) = maxPerClient l"
    by (simp_all add: set_live_def)
  ultimately show ?thesis using assms by (auto simp: addr_ok_def)
qed

lemma addr_ok_total [simp]: "addr_ok (l\<lparr>total := t\<rparr>) M \<longleftrightarrow> addr_ok l M"
  by (simp add: addr_ok_def)

lemma addr_ok_empty: "addr_ok l (add_mset [] M) \<longleftrightarrow> addr_ok l M"
  by (auto simp: addr_ok_def)

lemma set_live_total [simp]: "total (set_live l k n) = total l"
  by (simp add: set_live_def)

lemma Acquire_ok:
  assumes "counters_ok l M" "Acquire l key = (l', v)"
  shows "counters_ok l' (case v of Inr (ReleaseOnce k) \<Rightarrow> add_mset k M | _ \<Rightarrow> M)"
proof (cases "enabled l \<and> total l < maxTotal l \<and> \<not> (key \<noteq> [] \<and> live l key \<ge> maxPerClient l)")
  case False
  then show ?thesis using assms by (auto simp: Acquire_def Let_def split: if_splits)
next
  case True
  let ?l = "l\<lparr>total := total l + 1\<rparr>"
  show ?thesis
  proof (cases "key = []")
    case e: True
    then show ?thesis using assms True by (auto simp: Acquire_def Let_def counters_ok_def addr_ok_empty)
  next
    case False
    have n: "live l key + 1 = int (count (add_mset key M) key)"
      using assms(1) False by (simp add: counters_ok_def addr_ok_def)
    have eq: "l' = set_live ?l key (live l key + 1)" "v = Inr (ReleaseOnce key)"
      using assms(2) True False n by (auto simp: Acquire_def Let_def set_live_def split: if_splits)
    have "addr_ok l' (add_mset key M)"
      unfolding eq using assms(1) n False by (intro set_live_ok [of _ M]) (simp_all add: counters_ok_def)
    then show ?thesis using assms(1) by (simp add: counters_ok_def eq)
  qed
qed

lemma release_ok:
  assumes "counters_ok l (add_mset key M)"
  shows "counters_ok (release l key) M"
proof -
  let ?l = "l\<lparr>total := total l - 1\<rparr>"
  have t: "total l > 0" "total l - 1 = int (size M)" using assms by (simp_all add: counters_ok_def)
  show ?thesis
  proof (cases "key = []")
    case True
    then show ?thesis using assms t by (simp add: release_def Let_def counters_ok_def addr_ok_empty)
  next
    case False
    then have n: "live l key - 1 = int (count M key)" using assms by (simp add: counters_ok_def addr_ok_def)
    have eq: "release l key = set_live ?l key (live l key - 1)"
      using False t by (simp add: release_def set_live_def Let_def)
    have "addr_ok (release l key) M"
      unfolding eq using assms False n
      by (intro set_live_ok [of _ "add_mset key M"]) (simp_all add: counters_ok_def)
    then show ?thesis using t by (simp add: counters_ok_def eq)
  qed
qed

lemma open_keys_append: "sum_list (map open_key (hs @ [h])) = sum_list (map open_key hs) + open_key h"
  by simp

lemma open_keys_done:
  "i < length hs \<Longrightarrow> hs ! i = (ReleaseOnce key, False) \<Longrightarrow>
     sum_list (map open_key hs) = add_mset key (sum_list (map open_key (hs[i := (ReleaseOnce key, True)])))"
proof (induction hs arbitrary: i)
  case (Cons h hs)
  then show ?case by (cases i) (auto simp: open_key_def)
qed simp

lemma daemon_reach_ok: "daemon_reach d \<Longrightarrow> daemon_ok d"
proof (induction rule: daemon_reach.induct)
  case start
  then show ?case by (simp add: daemon_ok_def counters_ok_def addr_ok_def open_keys_def connNew_def live_def)
next
  case (accept d remote)
  obtain l v where a: "Acquire (lim d) (ClientKey remote) = (l, v)" by force
  then show ?case using Acquire_ok [OF _ a] accept
    by (cases v) (auto simp: daemon_ok_def open_keys_def accept_conn_def Gate_def open_key_def
        split: release_fn.splits)
next
  case (close d i)
  then show ?case
    using release_ok open_keys_done [of i "handles d"]
    by (auto simp: daemon_ok_def open_keys_def call_release_def split: prod.splits release_fn.splits bool.splits)
qed (auto simp: daemon_ok_def counters_ok_def addr_ok_def open_keys_def connSetLimits_def connSetEnabled_def
    connApply_def live_def Let_def split: sum.splits option.splits)

lemma perAddr_bound: "counters_ok l M \<Longrightarrow> int (length (perAddr l)) \<le> total l"
proof -
  assume ok: "counters_ok l M"
  then have "set (map fst (perAddr l)) \<subseteq> set_mset M"
    by (force simp: counters_ok_def addr_ok_def live_def simp flip: count_greater_zero_iff of_nat_0_less_iff)
  then have "card (set (map fst (perAddr l))) \<le> card (set_mset M)" by (intro card_mono) simp_all
  also have "\<dots> \<le> size M" unfolding size_multiset_overloaded_eq
    by (rule order.trans [OF _ sum_mono [of _ "\<lambda>_. 1"]]) simp_all
  finally show ?thesis using ok distinct_card [of "map fst (perAddr l)"]
    by (simp add: counters_ok_def addr_ok_def)
qed

lemma accept_off:
  "\<not> enabled (lim d) \<Longrightarrow> accept_conn d remote = d\<lparr>handles := handles d @ [(NoRelease, False)]\<rparr>"
  by (simp add: accept_conn_def Gate_def Acquire_def)

text \<open>C14. In every reachable state of a daemon the limiter's counters are exact: \<^verbatim>\<open>InUse\<close> reports the
  number of connections that were admitted while the cap was on and whose release function has not run, in total
  and for the client asked about, and the per-client table holds at most as many keys as there are such
  connections. A connection admitted while the cap is off is served but enters no counter, neither now nor after the cap
  is switched on again.\<close>

theorem counters_count_live_connections:
  assumes "daemon_reach d" "k \<noteq> []"
  shows "InUse (lim d) k = (int (size (open_keys d)), int (count (open_keys d) k))
    \<and> length (perAddr (lim d)) \<le> size (open_keys d)
    \<and> (let off = d\<lparr>lim := connSetEnabled (lim d) False\<rparr>; served = accept_conn off remote;
           on = served\<lparr>lim := connSetEnabled (lim served) True\<rparr>
       in length (handles on) = Suc (length (handles d)) \<and> open_keys on = open_keys d
          \<and> InUse (lim on) k = InUse (lim d) k)"
proof -
  have "counters_ok (lim d) (open_keys d)" using daemon_reach_ok [OF assms(1)] by (simp add: daemon_ok_def)
  then show ?thesis using assms(2) perAddr_bound [of "lim d" "open_keys d"]
    by (simp add: Let_def accept_off connSetEnabled_def open_keys_def open_key_def counters_ok_def addr_ok_def InUse_def live_def)
qed

definition demo_daemon :: daemon where
  "demo_daemon = call_release (accept_conn (accept_conn
     (\<lparr>lim = connSetEnabled connNew True, handles = []\<rparr>) (Some (lit ''10.0.0.7:4431'')))
       (Some (lit ''[::1]:993''))) 0"

lemma demo_daemon_reach: "daemon_reach demo_daemon"
proof -
  have "daemon_reach \<lparr>lim = connSetEnabled connNew True, handles = []\<rparr>"
    using daemon_reach.switch [OF daemon_reach.start, of True] by simp
  then show ?thesis unfolding demo_daemon_def by (intro daemon_reach.accept daemon_reach.close)
qed

theorem counters_count_live_connections_witness:
  "InUse (lim demo_daemon) (lit ''::1'') = (1, 1)
     \<and> length (perAddr (lim demo_daemon)) \<le> size (open_keys demo_daemon)
     \<and> InUse (lim (accept_conn (demo_daemon\<lparr>lim := connSetEnabled (lim demo_daemon) False\<rparr>) (Some (lit ''[::1]:25'')))) (lit ''::1'') = (1, 1)"
proof -
  have k: "lit ''::1'' \<noteq> []" and m: "size (open_keys demo_daemon) = 1 \<and> count (open_keys demo_daemon) (lit ''::1'') = 1"
    by code_simp+
  show ?thesis using counters_count_live_connections [OF demo_daemon_reach k, of "Some (lit ''[::1]:25'')"] m
    by (simp add: Let_def InUse_def live_def connSetEnabled_def del: lit_simps)
qed

lemma Acquire_admits:
  "Acquire l key = (l', Inr (ReleaseOnce k)) \<Longrightarrow>
     k = key \<and> enabled l \<and> total l < maxTotal l \<and> (key \<noteq> [] \<longrightarrow> live l key < maxPerClient l)"
  by (auto simp: Acquire_def Let_def split: if_splits)

text \<open>C24. While the cap is on, a connection is admitted exactly when both caps have room: the live
  connections then grow by this client's key, and otherwise nothing is handed out and the live
  connections stay as they were.\<close>

theorem connection_caps_enforced:
  assumes "daemon_reach d" "enabled (lim d)"
  shows "open_keys (accept_conn d remote) =
    (let key = ClientKey remote; n = open_keys d in
     if int (size n) < maxTotal (lim d) \<and> (key \<noteq> [] \<longrightarrow> int (count n key) < maxPerClient (lim d))
     then add_mset key n else n)"
proof -
  have ok: "counters_ok (lim d) (open_keys d)" using daemon_reach_ok [OF assms(1)] by (simp add: daemon_ok_def)
  then show ?thesis using assms(2)
    by (auto simp: accept_conn_def Gate_def Acquire_def Let_def open_keys_def open_key_def counters_ok_def addr_ok_def)
qed

theorem connection_caps_enforced_witness:
  "(let d = demo_daemon\<lparr>lim := connSetLimits (lim demo_daemon) 5 1\<rparr> in
    open_keys (accept_conn d (Some (lit ''[::1]:50000''))) = open_keys d \<and>
    open_keys (accept_conn d (Some (lit ''10.0.0.8:50000''))) = add_mset (lit ''10.0.0.8'') (open_keys d))"
proof -
  let ?d = "demo_daemon\<lparr>lim := connSetLimits (lim demo_daemon) 5 1\<rparr>"
  have r: "daemon_reach ?d" by (rule daemon_reach.limits [OF demo_daemon_reach])
  have e: "enabled (lim ?d)" by code_simp
  have v: "int (size (open_keys ?d)) < maxTotal (lim ?d)" by code_simp
  have k: "ClientKey (Some (lit ''[::1]:50000'')) = lit ''::1'' \<and> lit ''::1'' \<noteq> []
    \<and> \<not> int (count (open_keys ?d) (lit ''::1'')) < maxPerClient (lim ?d)" by code_simp
  have k': "ClientKey (Some (lit ''10.0.0.8:50000'')) = lit ''10.0.0.8''
    \<and> int (count (open_keys ?d) (lit ''10.0.0.8'')) < maxPerClient (lim ?d)" by code_simp
  show ?thesis
    using connection_caps_enforced [OF r e, of "Some (lit ''[::1]:50000'')"]
      connection_caps_enforced [OF r e, of "Some (lit ''10.0.0.8:50000'')"] v k k'
    unfolding Let_def by metis
qed

text \<open>A release function is idempotent: calling it again, in any order with the others, changes
  nothing, so the counters cannot be driven below the live connections.\<close>

lemma call_release_idem: "call_release (call_release d i) i = call_release d i"
  by (auto simp: call_release_def split: prod.splits release_fn.splits bool.splits)

end
