(* ===== verification/Httplimit.thy ===== *)
theory Httplimit
  imports Go_Maps
begin

text \<open>
  \<^verbatim>\<open>internal/httplimit\<close>: the fixed-window request limiter of the HTTP daemons. Times are
  nanoseconds; the mutex makes \<^verbatim>\<open>Allow\<close> and \<^verbatim>\<open>Prune\<close> one step each on the state, and the clock
  reading each makes is an argument.
\<close>

section \<open>The limiter (limiter.go, apply.go)\<close>

record http_window =
  start :: int
  hits :: int

record http_limiter =
  windows :: "(go_string \<times> http_window) list"
  burst :: int
  period :: int
  on :: bool

abbreviation (input) httpMaxKeys :: int where "httpMaxKeys \<equiv> 100000"

definition NewLimiter :: http_limiter where
  "NewLimiter = \<lparr>windows = [], burst = 600, period = 60000000000, on = False\<rparr>"

definition httpSetEnabled :: "http_limiter \<Rightarrow> bool \<Rightarrow> http_limiter" where
  "httpSetEnabled l b = l\<lparr>on := b\<rparr>"

definition httpSetLimits :: "http_limiter \<Rightarrow> int \<Rightarrow> int \<Rightarrow> http_limiter" where
  "httpSetLimits l b p =
     (let l = (if b \<ge> 1 then l\<lparr>burst := b\<rparr> else l) in if p > 0 then l\<lparr>period := p\<rparr> else l)"

definition elapsed :: "int \<Rightarrow> int \<Rightarrow> http_window \<Rightarrow> bool" where
  "elapsed now per w \<longleftrightarrow> now - start w \<ge> per"

definition sweepExpired :: "http_limiter \<Rightarrow> int \<Rightarrow> int \<Rightarrow> bool \<times> http_limiter" where
  "sweepExpired l now per =
     (list_ex (\<lambda>(k, w). elapsed now per w) (windows l),
      l\<lparr>windows := filter (\<lambda>(k, w). \<not> elapsed now per w) (windows l)\<rparr>)"

text \<open>The tail of \<^verbatim>\<open>Allow\<close>: count the request in its window \<open>w\<close> and compare with the burst.\<close>

definition count_request :: "http_limiter \<Rightarrow> int \<Rightarrow> go_string \<Rightarrow> http_window \<Rightarrow> http_limiter \<times> bool \<times> int" where
  "count_request l now key w =
     (let w = w\<lparr>hits := hits w + 1\<rparr>;
          l' = l\<lparr>windows := AList.update key w (windows l)\<rparr>
      in if hits w \<le> burst l then (l', True, 0)
         else (l', False, max (period l - (now - start w)) 1000000000))"

definition Allow :: "http_limiter \<Rightarrow> int \<Rightarrow> go_string \<Rightarrow> http_limiter \<times> bool \<times> int" where
  "Allow l now key =
     (if \<not> on l then (l, True, 0)
      else if key = [] then (l, True, 0)
      else (case map_of (windows l) key of
              None \<Rightarrow>
                (case (if int (length (windows l)) \<ge> httpMaxKeys then sweepExpired l now (period l) else (True, l)) of
                   (room, l) \<Rightarrow>
                     if \<not> room then (l, True, 0)
                     else count_request l now key \<lparr>start = now, hits = 0\<rparr>)
            | Some w \<Rightarrow>
                count_request l now key (if elapsed now (period l) w then \<lparr>start = now, hits = 0\<rparr> else w)))"

definition httpPrune :: "http_limiter \<Rightarrow> int \<Rightarrow> http_limiter" where
  "httpPrune l now = snd (sweepExpired l now (period l))"

record http_settings =
  HEnabled :: bool
  HBurst :: int
  HWindowSeconds :: int

definition httpApply :: "http_limiter \<Rightarrow> unit + http_settings option \<Rightarrow> http_limiter" where
  "httpApply l read =
     (case read of
        Inl _ \<Rightarrow> l
      | Inr None \<Rightarrow> l
      | Inr (Some s) \<Rightarrow> httpSetEnabled (httpSetLimits l (HBurst s) (Seconds (HWindowSeconds s))) (HEnabled s))"

inductive http_reach :: "http_limiter \<Rightarrow> bool" where
  new: "http_reach NewLimiter"
| request: "http_reach l \<Longrightarrow> http_reach (fst (Allow l now key))"
| prune: "http_reach l \<Longrightarrow> http_reach (httpPrune l now)"
| enable: "http_reach l \<Longrightarrow> http_reach (httpSetEnabled l b)"
| limits: "http_reach l \<Longrightarrow> http_reach (httpSetLimits l b p)"
| settings: "http_reach l \<Longrightarrow> http_reach (httpApply l r)"

section \<open>Invariant\<close>

definition http_ok :: "http_limiter \<Rightarrow> bool" where
  "http_ok l \<longleftrightarrow> distinct (map fst (windows l)) \<and> int (length (windows l)) \<le> httpMaxKeys
     \<and> burst l \<ge> 1 \<and> period l > 0"

lemma sweepExpired_ok: "http_ok l \<Longrightarrow> http_ok (snd (sweepExpired l now per))"
  by (auto simp: http_ok_def sweepExpired_def distinct_map_filter intro: le_trans [OF length_filter_le])

lemma sweepExpired_smaller:
  "sweepExpired l now per = (True, l') \<Longrightarrow> length (windows l') < length (windows l)"
  by (auto simp: sweepExpired_def list_ex_iff intro!: length_filter_less)

lemma sweepExpired_room:
  "http_ok l \<Longrightarrow> sweepExpired l now per = (True, l') \<Longrightarrow> int (length (windows l')) < httpMaxKeys"
  by (drule sweepExpired_smaller) (simp add: http_ok_def)

lemma count_request_ok:
  "http_ok l \<Longrightarrow> key \<in> fst ` set (windows l) \<or> int (length (windows l)) < httpMaxKeys \<Longrightarrow>
     http_ok (fst (count_request l now key w))"
  by (auto simp: count_request_def http_ok_def Let_def length_update distinct_update)

lemma Allow_ok:
  assumes ok: "http_ok l"
  shows "http_ok (fst (Allow l now key))"
proof -
  obtain room l' where s: "sweepExpired l now (period l) = (room, l')" by force
  show ?thesis
    using ok sweepExpired_ok [OF ok, of now "period l"] sweepExpired_room [OF ok, of now "period l" l'] s
    by (auto simp: Allow_def dest: map_of_Some_key split: option.split intro!: count_request_ok)
qed

lemma http_reach_ok: "http_reach l \<Longrightarrow> http_ok l"
proof (induction rule: http_reach.induct)
  case (prune l now)
  then show ?case by (simp add: httpPrune_def sweepExpired_ok)
next
  case (settings l r)
  then show ?case
    by (auto simp: httpApply_def httpSetLimits_def httpSetEnabled_def http_ok_def Let_def split: sum.splits option.splits)
qed (auto simp: Allow_ok, auto simp: NewLimiter_def http_ok_def httpSetLimits_def httpSetEnabled_def Let_def)

section \<open>A window over interleaved requests\<close>

text \<open>A sequence of requests by any clients, and the answers given.\<close>

fun serve_requests :: "http_limiter \<Rightarrow> (int \<times> go_string) list \<Rightarrow> (go_string \<times> bool \<times> int) list" where
  "serve_requests l [] = []"
| "serve_requests l ((now, key) # rs) = (case Allow l now key of (l', v) \<Rightarrow> (key, v) # serve_requests l' rs)"

definition answers_to :: "go_string \<Rightarrow> (go_string \<times> bool \<times> int) list \<Rightarrow> bool list" where
  "answers_to key vs = map (\<lambda>(k, ok, _). ok) (filter (\<lambda>(k, _). k = key) vs)"

lemma Allow_params: "burst (fst (Allow l t k)) = burst l \<and> period (fst (Allow l t k)) = period l \<and> on (fst (Allow l t k)) = on l"
  by (auto simp: Allow_def count_request_def sweepExpired_def Let_def split: option.splits)

lemma Allow_live:
  assumes "on l" "key \<noteq> []" "map_of (windows l) key = Some w" "t - start w < period l"
  shows "fst (snd (Allow l t key)) \<longleftrightarrow> hits w + 1 \<le> burst l"
    and "map_of (windows (fst (Allow l t key))) key = Some (w\<lparr>hits := hits w + 1\<rparr>)"
  using assms by (auto simp: Allow_def count_request_def elapsed_def Let_def update_conv)

lemma Allow_other:
  assumes "http_ok l" "map_of (windows l) key = Some w" "t - start w < period l" "k \<noteq> key"
  shows "map_of (windows (fst (Allow l t k))) key = Some w"
  using assms
  by (auto simp: Allow_def count_request_def sweepExpired_def Let_def update_conv map_of_sweep http_ok_def
      elapsed_def split: option.splits)

lemma serve_in_window:
  assumes "http_ok l" "on l" "key \<noteq> []" "map_of (windows l) key = Some w"
    "\<forall>(t, k)\<in>set rs. t - start w < period l"
  shows "answers_to key (serve_requests l rs)
    = map (\<lambda>i. hits w + int i + 1 \<le> burst l) [0..<length (filter (\<lambda>(t, k). k = key) rs)]"
  using assms
proof (induction rs arbitrary: l w)
  case Nil
  then show ?case by (simp add: answers_to_def)
next
  case (Cons r rs)
  obtain t k where r: "r = (t, k)" by (cases r)
  obtain l' v where a: "Allow l t k = (l', v)" by (cases "Allow l t k")
  have l': "http_ok l'" "on l'" "burst l' = burst l" "period l' = period l"
    using Allow_ok [OF Cons.prems(1), of t k] Allow_params [of l t k] Cons.prems(2) a by auto
  show ?case
  proof (cases "k = key")
    case True
    have w: "map_of (windows l') key = Some (w\<lparr>hits := hits w + 1\<rparr>)" "fst v \<longleftrightarrow> hits w + 1 \<le> burst l"
      using Allow_live [of l key w t] Cons.prems r a True by auto
    have "answers_to key (serve_requests l' rs)
      = map (\<lambda>i. hits w + 1 + int i + 1 \<le> burst l) [0..<length (filter (\<lambda>(t, k). k = key) rs)]"
      using Cons.IH [of l' "w\<lparr>hits := hits w + 1\<rparr>"] Cons.prems l' w by simp
    then show ?thesis using r a w True
      by (cases v) (simp add: answers_to_def upt_conv_Cons map_Suc_upt [symmetric] comp_def algebra_simps
          del: upt_Suc)
  next
    case False
    have "map_of (windows l') key = Some w" using Allow_other [of l key w t k] Cons.prems r a False by auto
    then show ?thesis using Cons.IH [of l' w] Cons.prems l' r a False by (simp add: answers_to_def)
  qed
qed

lemma Allow_answer:
  "Allow l now key = (l', ok, retry) \<Longrightarrow>
     if ok then retry = 0
     else on l \<and> key \<noteq> [] \<and> 1000000000 \<le> retry
       \<and> (\<exists>w. map_of (windows l') key = Some w \<and> hits w > burst l
            \<and> retry = max (period l - (now - start w)) 1000000000)"
  by (auto simp: Allow_def count_request_def sweepExpired_def Let_def update_conv split: option.splits if_splits)

section \<open>Properties\<close>

text \<open>C15. Inside one window a client's requests are admitted exactly while its burst lasts,
  whatever the other clients do in between and even when their requests sweep the table: with
  \<open>hits w\<close> requests already counted, the next \<open>burst - hits w\<close> are admitted and all later ones refused.\<close>

theorem burst_per_window_exact:
  assumes "http_reach l" "on l" "key \<noteq> []" "map_of (windows l) key = Some w"
    "\<forall>(t, k)\<in>set rs. t - start w < period l"
  shows "answers_to key (serve_requests l rs)
    = map (\<lambda>i. hits w + int i + 1 \<le> burst l) [0..<length (filter (\<lambda>(t, k). k = key) rs)]"
  using serve_in_window [OF http_reach_ok [OF assms(1)] assms(2-5)] .

definition demo_http :: http_limiter where
  "demo_http = fst (Allow (httpSetEnabled (httpSetLimits NewLimiter 2 1000) True) 0 (lit ''a''))"

lemma demo_http_reach: "http_reach demo_http"
  unfolding demo_http_def by (intro http_reach.intros)

theorem burst_per_window_exact_witness:
  "answers_to (lit ''a'') (serve_requests demo_http [(10, lit ''b''), (20, lit ''a''), (30, lit ''b''), (40, lit ''a'')])
     = [True, False]"
proof -
  let ?rs = "[(10, lit ''b''), (20, lit ''a''), (30, lit ''b''), (40, lit ''a'')]"
  have h: "on demo_http" "lit ''a'' \<noteq> []" "map_of (windows demo_http) (lit ''a'') = Some \<lparr>start = 0, hits = 1\<rparr>"
    "\<forall>(t, k)\<in>set ?rs. t - start \<lparr>start = 0, hits = 1\<rparr> < period demo_http" by code_simp+
  have r: "map (\<lambda>i. hits \<lparr>start = 0, hits = 1\<rparr> + int i + 1 \<le> burst demo_http) [0..<length (filter (\<lambda>(t, k). k = lit ''a'') ?rs)]
    = [True, False]" by code_simp
  show ?thesis using burst_per_window_exact [OF demo_http_reach h] r by simp
qed

text \<open>In every reachable state the limiter tracks at most \<^verbatim>\<open>maxKeys\<close> clients, its settings stay
  positive, and no answer is degenerate: an admitted request has no retry time, and a refused one
  comes from a tracked client over its burst and advertises at least one second: what is left of
  its window when that is more.\<close>

lemma http_limiter_bounded:
  assumes "http_reach l" "Allow l now key = (l', ok, retry)"
  shows "int (length (windows l')) \<le> httpMaxKeys \<and> burst l' \<ge> 1 \<and> period l' > 0
    \<and> (if ok then retry = 0
       else on l \<and> key \<noteq> [] \<and> 1000000000 \<le> retry
         \<and> (\<exists>w. map_of (windows l') key = Some w \<and> hits w > burst l
              \<and> retry = max (period l - (now - start w)) 1000000000))"
proof -
  have "http_ok l'" using Allow_ok [OF http_reach_ok [OF assms(1)], of now key] assms(2) by simp
  then show ?thesis using Allow_answer [OF assms(2)] unfolding http_ok_def by blast
qed

end
