(* ===== verification/Imap_Seqset.thy ===== *)
theory Imap_Seqset
  imports Go_Strings
begin

text \<open>
  \<^verbatim>\<open>internal/imap/seqset.go\<close>: IMAP sequence sets. Numbers are 32-bit words; the token \<^verbatim>\<open>*\<close> is
  represented by the largest one.
\<close>

record seqRange =
  lo :: u32
  hi :: u32

type_synonym seqSet = "seqRange list"

definition seqStar :: u32 where
  "seqStar = NOT 0"

datatype seq_error = EmptySet | BadNumber go_string

definition parseSeqNum :: "go_string \<Rightarrow> seq_error + u32" where
  "parseSeqNum s =
     (if s = lit ''*'' then Inr seqStar
      else (case ParseUint s 32 of
              None \<Rightarrow> Inl (BadNumber s)
            | Some n \<Rightarrow> if n = 0 then Inl (BadNumber s) else Inr (of_nat n)))"

definition parse_part :: "go_string \<Rightarrow> seq_error + seqRange" where
  "parse_part part =
     (case Cut part COLON of (l, h, found) \<Rightarrow>
        bindr (parseSeqNum l) (\<lambda>a.
        if \<not> found then Inr \<lparr>lo = a, hi = a\<rparr>
        else bindr (parseSeqNum h) (\<lambda>b. Inr \<lparr>lo = a, hi = b\<rparr>)))"

fun parse_parts :: "seqSet \<Rightarrow> go_string list \<Rightarrow> seq_error + seqSet" where
  "parse_parts ss [] = Inr ss"
| "parse_parts ss (p # ps) = bindr (parse_part p) (\<lambda>r. parse_parts (ss @ [r]) ps)"

definition parseSeqSet :: "go_string \<Rightarrow> seq_error + seqSet" where
  "parseSeqSet s = (if s = [] then Inl EmptySet else parse_parts [] (Split s COMMA))"

definition resolve :: "seqRange \<Rightarrow> u32 \<Rightarrow> u32 \<times> u32" where
  "resolve r mx = (if lo r = seqStar then mx else lo r, if hi r = seqStar then mx else hi r)"

fun seq_contains :: "seqSet \<Rightarrow> u32 \<Rightarrow> u32 \<Rightarrow> bool" where
  "seq_contains [] n mx = False"
| "seq_contains (r # ss) n mx =
     (case resolve r mx of (l, h) \<Rightarrow>
        (case (if l > h then (h, l) else (l, h)) of (l, h) \<Rightarrow>
           if n \<ge> l \<and> n \<le> h then True else seq_contains ss n mx))"

section \<open>Notation and denotation\<close>

text \<open>
  The notation of RFC 3501 for a set, and the set of numbers it denotes in a mailbox whose
  largest number is \<open>mx\<close>.
\<close>

definition show_num :: "u32 \<Rightarrow> go_string" where
  "show_num n = (if n = seqStar then lit ''*'' else decimal (unat n))"

definition show_range :: "seqRange \<Rightarrow> go_string" where
  "show_range r = (if lo r = hi r then show_num (lo r) else show_num (lo r) @ COLON # show_num (hi r))"

fun show_set :: "seqSet \<Rightarrow> go_string" where
  "show_set [] = []"
| "show_set [r] = show_range r"
| "show_set (r # r' # rs) = show_range r @ COMMA # show_set (r' # rs)"

definition bound :: "u32 \<Rightarrow> u32 \<Rightarrow> u32" where
  "bound mx b = (if b = seqStar then mx else b)"

definition denotes :: "seqSet \<Rightarrow> u32 \<Rightarrow> u32 set" where
  "denotes ss mx = (\<Union>r\<in>set ss. {min (bound mx (lo r)) (bound mx (hi r)) .. max (bound mx (lo r)) (bound mx (hi r))})"

definition seq_ok :: "seqSet \<Rightarrow> bool" where
  "seq_ok ss \<longleftrightarrow> ss \<noteq> [] \<and> (\<forall>r\<in>set ss. lo r \<noteq> 0 \<and> hi r \<noteq> 0)"

section \<open>Lemmas\<close>

lemma not_digit [simp]: "\<not> is_digit COLON" "\<not> is_digit COMMA" "\<not> is_digit 0x2A"
  by (simp_all add: is_digit_def)

lemma show_num_free: "c \<in> {COLON, COMMA} \<Longrightarrow> c \<notin> set (show_num n)"
  by (auto simp: show_num_def decimal_no)

lemma parse_show_num: "n \<noteq> 0 \<Longrightarrow> parseSeqNum (show_num n) = Inr n"
proof (cases "n = seqStar")
  case False
  assume n: "n \<noteq> 0"
  have "decimal (unat n) \<noteq> lit ''*''" using decimal_no [of "0x2A" "unat n"] by auto
  moreover have "unat n < 2 ^ 32" using unsigned_less [of n] by simp
  ultimately show ?thesis using False n ParseUint_decimal [of "unat n" 32]
    by (simp add: show_num_def parseSeqNum_def unat_eq_zero)
qed (simp add: show_num_def parseSeqNum_def)

lemma parse_show_range: "lo r \<noteq> 0 \<Longrightarrow> hi r \<noteq> 0 \<Longrightarrow> parse_part (show_range r) = Inr r"
  by (simp add: parse_part_def show_range_def Cut_none Cut_append show_num_free parse_show_num)

lemma show_range_free: "COMMA \<notin> set (show_range r)"
  using show_num_free [of COMMA] by (auto simp: show_range_def)

lemma Split_show_set: "ss \<noteq> [] \<Longrightarrow> Split (show_set ss) COMMA = map show_range ss"
  by (induction ss rule: show_set.induct) (simp_all add: Split_no_sep Split_append show_range_free)

lemma parse_parts_show:
  "\<forall>r\<in>set rs. lo r \<noteq> 0 \<and> hi r \<noteq> 0 \<Longrightarrow> parse_parts ss (map show_range rs) = Inr (ss @ rs)"
  by (induction rs arbitrary: ss) (simp_all add: parse_show_range)

lemma show_set_not_Nil: "ss \<noteq> [] \<Longrightarrow> show_set ss \<noteq> []"
  by (induction ss rule: show_set.induct) (auto simp: show_range_def show_num_def)

lemma parseSeqNum_nonzero [simp]: "parseSeqNum s \<noteq> Inr 0"
proof
  assume p: "parseSeqNum s = Inr 0"
  have star: "seqStar \<noteq> 0" by (simp add: seqStar_def)
  have "of_nat m \<noteq> (0 :: u32)" if "0 < m" "m < 2 ^ 32" for m
    using that unat_of_nat_less [of m, where 'a = 32] by (auto dest: arg_cong [of _ _ unat])
  then show False using p star
    by (auto simp: parseSeqNum_def ParseUint_def split: option.splits if_splits)
qed

lemma parse_parts_ok:
  "parse_parts ss ps = Inr ss' \<Longrightarrow> \<forall>r\<in>set ss. lo r \<noteq> 0 \<and> hi r \<noteq> 0 \<Longrightarrow>
     \<forall>r\<in>set ss'. lo r \<noteq> 0 \<and> hi r \<noteq> 0"
proof (induction ps arbitrary: ss)
  case (Cons p ps)
  from Cons.prems(1) obtain r where r: "parse_part p = Inr r" "parse_parts (ss @ [r]) ps = Inr ss'"
    by (cases "parse_part p") auto
  have "lo r \<noteq> 0 \<and> hi r \<noteq> 0" using r(1)
    by (auto simp: parse_part_def split: prod.splits if_splits)
  then have "\<forall>x\<in>set (ss @ [r]). lo x \<noteq> 0 \<and> hi x \<noteq> 0" using Cons.prems(2) by simp
  from Cons.IH [OF r(2) this] show ?case .
qed simp

lemma parse_parts_length: "parse_parts ss ps = Inr ss' \<Longrightarrow> length ss' = length ss + length ps"
proof (induction ps arbitrary: ss)
  case (Cons p ps)
  from Cons.prems obtain r where "parse_parts (ss @ [r]) ps = Inr ss'" by (cases "parse_part p") auto
  from Cons.IH [OF this] show ?case by simp
qed simp

lemma seq_contains_Cons:
  "seq_contains (r # ss) n mx \<longleftrightarrow>
     min (bound mx (lo r)) (bound mx (hi r)) \<le> n \<and> n \<le> max (bound mx (lo r)) (bound mx (hi r))
     \<or> seq_contains ss n mx"
proof -
  have "resolve r mx = (bound mx (lo r), bound mx (hi r))" by (simp add: resolve_def bound_def)
  then show ?thesis by (cases "bound mx (lo r) \<le> bound mx (hi r)") (auto simp: min_def max_def)
qed

declare seq_contains.simps(2) [simp del]

lemma seq_contains_denotes: "seq_contains ss n mx \<longleftrightarrow> n \<in> denotes ss mx"
  by (induction ss) (simp_all add: denotes_def seq_contains_Cons)

section \<open>Properties\<close>

text \<open>C26. Every non-empty set of non-zero bounds is read back from its RFC 3501 notation, bound for
  bound and in order.\<close>

theorem seqset_roundtrip:
  assumes "seq_ok ss"
  shows "parseSeqSet (show_set ss) = Inr ss"
  using assms by (simp add: seq_ok_def parseSeqSet_def Split_show_set parse_parts_show show_set_not_Nil)

theorem seqset_roundtrip_witness:
  "show_set [\<lparr>lo = 1, hi = 1\<rparr>, \<lparr>lo = 5, hi = seqStar\<rparr>] = lit ''1,5:*'' \<and>
   parseSeqSet (lit ''1,5:*'') = Inr [\<lparr>lo = 1, hi = 1\<rparr>, \<lparr>lo = 5, hi = seqStar\<rparr>]"
proof -
  have s: "show_set [\<lparr>lo = 1, hi = 1\<rparr>, \<lparr>lo = 5, hi = seqStar\<rparr>] = lit ''1,5:*''" by code_simp
  have ok: "seq_ok [\<lparr>lo = 1, hi = 1\<rparr>, \<lparr>lo = 5, hi = seqStar\<rparr>]" by code_simp
  show ?thesis using seqset_roundtrip [OF ok] unfolding s by (rule conjI [OF refl])
qed

text \<open>C27. What the parser accepts is well formed (one range per comma-separated part, no zero bound),
  and \<^verbatim>\<open>contains\<close> decides exactly the union of its ranges: the bounds of a range count in either
  order, and \<^verbatim>\<open>*\<close> stands for the largest number in use.\<close>

theorem seqset_parsed_denotes:
  assumes "parseSeqSet s = Inr ss"
  shows "seq_ok ss \<and> length ss = length (Split s COMMA) \<and> (\<forall>n mx. seq_contains ss n mx \<longleftrightarrow> n \<in> denotes ss mx)"
proof -
  have p: "parse_parts [] (Split s COMMA) = Inr ss" using assms by (simp add: parseSeqSet_def split: if_splits)
  have "length ss = length (Split s COMMA)" using parse_parts_length [OF p] by simp
  moreover from this have "ss \<noteq> []" using Split_not_Nil [of s COMMA] by auto
  ultimately show ?thesis using parse_parts_ok [OF p] by (simp add: seq_ok_def seq_contains_denotes)
qed

theorem seqset_parsed_denotes_witness:
  "parseSeqSet (lit ''7:3,*'') = Inr [\<lparr>lo = 7, hi = 3\<rparr>, \<lparr>lo = seqStar, hi = seqStar\<rparr>]
    \<and> 5 \<in> denotes [\<lparr>lo = 7, hi = 3\<rparr>, \<lparr>lo = seqStar, hi = seqStar\<rparr>] 9"
proof -
  have p: "parseSeqSet (lit ''7:3,*'') = Inr [\<lparr>lo = 7, hi = 3\<rparr>, \<lparr>lo = seqStar, hi = seqStar\<rparr>]" by code_simp
  have c: "seq_contains [\<lparr>lo = 7, hi = 3\<rparr>, \<lparr>lo = seqStar, hi = seqStar\<rparr>] 5 9" by code_simp
  show ?thesis using seqset_parsed_denotes [OF p] p c by blast
qed

text \<open>The representation of \<^verbatim>\<open>*\<close> collides with a number: 4294967295, which RFC 3501 allows as a
  UID, is read as \<^verbatim>\<open>*\<close>, so a command that names that UID acts on the last message instead.\<close>

lemma seqset_max_uid_is_star:
  "parseSeqSet (lit ''4294967295'') = parseSeqSet (lit ''*'')
    \<and> (case parseSeqSet (lit ''4294967295'') of Inr ss \<Rightarrow> seq_contains ss 9 9 | Inl _ \<Rightarrow> False)"
  by code_simp

end
