(* ===== verification/Netline.thy ===== *)
theory Netline
  imports Go_Strings
begin

text \<open>
  Bounded line reading (\<^verbatim>\<open>internal/netline/netline.go\<close>). The buffered reader holds the bytes of the last read from
  the connection and the reads still to come, so what one network read delivers is part of the model.
\<close>

section \<open>The buffered reader\<close>

record line_reader =
  Buf :: bytes
  Chunks :: "bytes list"

definition pending :: "line_reader \<Rightarrow> bytes" where
  "pending r = Buf r @ concat (Chunks r)"

fun refill :: "bytes list \<Rightarrow> bytes \<times> bytes list" where
  "refill [] = ([], [])"
| "refill (c # cs) = (if c = [] then refill cs else (c, cs))"

text \<open>\<^verbatim>\<open>bufio.Reader.ReadByte\<close>; \<open>None\<close> is the end of the connection.\<close>

definition ReadByte :: "line_reader \<Rightarrow> (u8 \<times> line_reader) option" where
  "ReadByte r =
     (case Buf r of
        b # bs \<Rightarrow> Some (b, r\<lparr>Buf := bs\<rparr>)
      | [] \<Rightarrow>
          (case refill (Chunks r) of
             (b # bs, cs) \<Rightarrow> Some (b, \<lparr>Buf = bs, Chunks = cs\<rparr>)
           | ([], _) \<Rightarrow> None))"

definition Buffered :: "line_reader \<Rightarrow> nat" where
  "Buffered r = length (Buf r)"

lemma refill_concat: "refill cs = (c, cs') \<Longrightarrow> c @ concat cs' = concat cs"
  by (induction cs rule: refill.induct) (auto split: if_splits)

lemma refill_Nil: "refill cs = ([], cs') \<Longrightarrow> concat cs = [] \<and> cs' = []"
  by (induction cs rule: refill.induct) (auto split: if_splits)

lemma ReadByte_Some: "ReadByte r = Some (b, r') \<Longrightarrow> pending r = b # pending r'"
  using refill_concat by (fastforce simp: ReadByte_def pending_def split: list.splits prod.splits)

lemma ReadByte_None: "ReadByte r = None \<Longrightarrow> pending r = []"
  using refill_Nil by (fastforce simp: ReadByte_def pending_def split: list.splits prod.splits)

section \<open>Lines\<close>

abbreviation (input) LF :: u8 where "LF \<equiv> 0x0A"
abbreviation (input) CR :: u8 where "CR \<equiv> 0x0D"

datatype line_error = EOF | ErrTooLong

function discardLine :: "line_reader \<Rightarrow> line_error option \<times> line_reader" where
  "discardLine r =
     (case ReadByte r of
        None \<Rightarrow> (Some EOF, r)
      | Some (b, r) \<Rightarrow> if b = LF then (None, r) else discardLine r)"
  by pat_completeness auto
termination by (relation "measure (\<lambda>r. length (pending r))") (auto dest: ReadByte_Some)

declare discardLine.simps [simp del]

definition strip_CR :: "bytes \<Rightarrow> bytes" where
  "strip_CR buf = (if buf \<noteq> [] \<and> last buf = CR then butlast buf else buf)"

function read_line :: "int \<Rightarrow> line_reader \<Rightarrow> bytes \<Rightarrow> (line_error + bytes) \<times> line_reader" where
  "read_line limit r buf =
     (case ReadByte r of
        None \<Rightarrow> (Inl EOF, r)
      | Some (b, r) \<Rightarrow>
          if b = LF then (Inr (strip_CR buf), r)
          else if limit > 0 \<and> int (length buf) > limit then
            (case discardLine r of (Some e, r) \<Rightarrow> (Inl e, r) | (None, r) \<Rightarrow> (Inl ErrTooLong, r))
          else read_line limit r (buf @ [b]))"
  by pat_completeness auto
termination by (relation "measure (\<lambda>(limit, r, buf). length (pending r))") (auto dest: ReadByte_Some)

declare read_line.simps [simp del]

definition ReadLine :: "line_reader \<Rightarrow> int \<Rightarrow> (line_error + bytes) \<times> line_reader" where
  "ReadLine r limit = read_line limit r []"

section \<open>What a read returns\<close>

text \<open>
  The reference: the bytes up to the next line feed, judged by their number, whatever reads delivered them.
\<close>

definition flat_line :: "int \<Rightarrow> bytes \<Rightarrow> (line_error + bytes) \<times> bytes" where
  "flat_line limit bs =
     (let line = takeWhile (\<lambda>b. b \<noteq> LF) bs; rest = drop (Suc (length line)) bs in
      if LF \<notin> set bs then (Inl EOF, [])
      else if limit > 0 \<and> int (length line) > limit + 1 then (Inl ErrTooLong, rest)
      else (Inr (strip_CR line), rest))"

lemma discardLine_flat:
  "discardLine r = (e, r') \<Longrightarrow>
     (if LF \<in> set (pending r) then e = None \<and> pending r' = drop (Suc (length (takeWhile (\<lambda>b. b \<noteq> LF) (pending r)))) (pending r)
      else e = Some EOF \<and> pending r' = [])"
proof (induction r rule: discardLine.induct)
  case (1 r)
  show ?case
  proof (cases "ReadByte r")
    case None
    then show ?thesis using "1.prems" ReadByte_None [OF None] by (simp add: discardLine.simps [of r])
  next
    case (Some p)
    obtain b q where p: "p = (b, q)" by (cases p)
    then show ?thesis using "1.prems" "1.IH" Some ReadByte_Some [of r b q]
      by (auto simp: discardLine.simps [of r] split: if_splits)
  qed
qed

lemma read_line_flat:
  assumes "limit > 0 \<Longrightarrow> int (length buf) \<le> limit + 1" "LF \<notin> set buf"
  shows "(fst (read_line limit r buf), pending (snd (read_line limit r buf))) = flat_line limit (buf @ pending r)"
  using assms
proof (induction limit r buf rule: read_line.induct)
  case (1 limit r buf)
  show ?case
  proof (cases "ReadByte r")
    case None
    then show ?thesis using "1.prems" ReadByte_None [OF None] by (simp add: read_line.simps [of _ r] flat_line_def)
  next
    case (Some p)
    obtain b q where p: "ReadByte r = Some (b, q)" using Some by (cases p) auto
    note pend = ReadByte_Some [OF p]
    consider "b = LF" | "b \<noteq> LF" "limit > 0 \<and> int (length buf) > limit" | "b \<noteq> LF" "\<not> (limit > 0 \<and> int (length buf) > limit)" by blast
    then show ?thesis
    proof cases
      case 1
      have "\<not> (limit > 0 \<and> int (length buf) > limit + 1)" using "1.prems"(1) by auto
      then show ?thesis using 1 "1.prems"(2) by (simp add: read_line.simps [of _ r] p pend flat_line_def takeWhile_append Let_def)
    next
      case 2
      obtain e r' where d: "discardLine q = (e, r')" by (cases "discardLine q")
      have l: "int (length buf) = limit + 1" using 2 "1.prems"(1) by auto
      show ?thesis using 2 "1.prems"(2) discardLine_flat [OF d] l
        by (auto simp: read_line.simps [of _ r] p pend d flat_line_def takeWhile_append Let_def split: if_splits)
    next
      case 3
      then have "(fst (read_line limit q (buf @ [b])), pending (snd (read_line limit q (buf @ [b])))) = flat_line limit ((buf @ [b]) @ pending q)"
        using "1.prems" by (intro "1.IH" [OF p refl]) auto
      moreover have "read_line limit r buf = read_line limit q (buf @ [b])" using 3 by (auto simp: read_line.simps [of _ r] p)
      ultimately show ?thesis by (simp only: pend append_assoc append_Cons append_Nil)
    qed
  qed
qed

lemma ReadLine_flat: "map_prod id pending (ReadLine r limit) = flat_line limit (pending r)"
  using read_line_flat [of limit "[]" r] by (simp add: ReadLine_def map_prod_def split_beta)

text \<open>
  C36. A line read depends on the bytes of the connection only, not on the network reads that delivered them: the
  result and the bytes left over are those of the reference on the whole stream.
\<close>

theorem ReadLine_any_chunking:
  assumes "pending r = pending q"
  shows "map_prod id pending (ReadLine r limit) = flat_line limit (pending q) \<and> fst (ReadLine r limit) = fst (ReadLine q limit)"
proof -
  have "fst (ReadLine x limit) = fst (flat_line limit (pending x))" for x
    using arg_cong [OF ReadLine_flat [of x limit], of fst] by (cases "ReadLine x limit") simp
  then show ?thesis using ReadLine_flat [of r limit] assms by simp
qed

theorem ReadLine_any_chunking_witness:
  "fst (ReadLine \<lparr>Buf = [], Chunks = [[0x51, CR], [], [LF, 0x58]]\<rparr> 5) = fst (ReadLine \<lparr>Buf = [0x51, CR, LF, 0x58], Chunks = []\<rparr> 5)"
  using ReadLine_any_chunking [of "\<lparr>Buf = [], Chunks = [[0x51, CR], [], [LF, 0x58]]\<rparr>" "\<lparr>Buf = [0x51, CR, LF, 0x58], Chunks = []\<rparr>" 5]
  by (simp add: pending_def)

text \<open>
  The limit admits one byte more than it names: a line of \<open>limit + 1\<close> bytes that ends in a bare line feed is
  returned, although it is longer than the limit.
\<close>

lemma one_byte_over_accepted:
  assumes "0 < limit" "int (length line) = limit + 1" "LF \<notin> set line" "last line \<noteq> CR" "pending r = line @ LF # rest"
  shows "fst (ReadLine r limit) = Inr line"
proof -
  have "flat_line limit (line @ LF # rest) = (Inr line, rest)"
    using assms by (auto simp: flat_line_def takeWhile_append Let_def strip_CR_def)
  then show ?thesis using ReadLine_flat [of r limit] assms(5) by (cases "ReadLine r limit") simp
qed

end
