(* ===== verification/Pop3.thy ===== *)
theory Pop3
  imports Netline Authlimit Recur_Rule
begin

text \<open>
  The POP3 server (\<^verbatim>\<open>internal/pop3/server.go\<close>): one connection's session from the first line to its end. The
  directory, the message store behind \<^verbatim>\<open>objectstore\<close>, the TLS handshake and the case tables are the parameters
  collected in \<open>pop3_env\<close>; log records are left out.
\<close>

section \<open>Replies\<close>

text \<open>
  The response writer with its sticky error. \<open>Room\<close> is the number of bytes the link still takes before it fails. The
  buffer of the \<^verbatim>\<open>bufio.Writer\<close> is left out: every reply ends in a flush, and the error is looked at between commands.
\<close>

record ew =
  Out :: bytes
  Room :: nat
  Werr :: bool

definition str :: "ew \<Rightarrow> bytes \<Rightarrow> ew" where
  "str w s =
     (if Werr w then w
      else if length s \<le> Room w then w\<lparr>Out := Out w @ s, Room := Room w - length s\<rparr>
      else w\<lparr>Out := Out w @ take (Room w) s, Room := 0, Werr := True\<rparr>)"

abbreviation CRLF :: bytes where "CRLF \<equiv> [CR, LF]"

definition ok :: "ew \<Rightarrow> bytes \<Rightarrow> ew" where
  "ok w msg = (if msg = [] then str w (lit ''+OK'' @ CRLF) else str w (lit ''+OK '' @ msg @ CRLF))"

definition errLine :: "ew \<Rightarrow> bytes \<Rightarrow> ew" where
  "errLine w msg = str w (lit ''-ERR '' @ msg @ CRLF)"

definition two_numbers :: "int \<Rightarrow> int \<Rightarrow> bytes" where
  "two_numbers a b = Itoa a @ lit '' '' @ Itoa b"

definition dot_line :: bytes where
  "dot_line = lit ''.'' @ CRLF"

section \<open>Parameters and session\<close>

text \<open>
  \<open>'w\<close> is the state of the store behind \<^verbatim>\<open>objectstore\<close>, changed here by this session only. \<open>Clock\<close> gives the two readings
  the limiter makes at each of its calls, \<open>Handshake\<close> the reader and the room of the encrypted link when the handshake
  succeeds. The line cap does not change during a session.
\<close>

record message_info =
  UID :: u32
  Size :: int

record 'w pop3_env =
  AuthenticateClient :: "go_string \<Rightarrow> go_string \<Rightarrow> go_string option"
  POP3IMAP :: "go_string \<Rightarrow> bool"
  ListMessages :: "'w \<Rightarrow> go_string \<Rightarrow> message_info list option"
  GetMessageRaw :: "'w \<Rightarrow> go_string \<Rightarrow> u32 \<Rightarrow> bytes option"
  SoftDeleteMessage :: "'w \<Rightarrow> go_string \<Rightarrow> u32 \<Rightarrow> bool \<times> 'w"
  RemoteAddr :: go_string
  Lower :: "rune \<Rightarrow> rune"
  Upper :: "rune \<Rightarrow> rune"
  Clock :: "nat \<Rightarrow> int \<times> int"
  TLSConfig :: bool
  Handshake :: "(line_reader \<times> nat) option"
  MaxCommandLine :: int

record mailbox =
  MPath :: go_string
  Msgs :: "message_info list"
  Deleted :: "bool list"

record 'w pop3_session =
  Reader :: line_reader
  W :: ew
  IsTLS :: bool
  User :: go_string
  Mb :: "mailbox option"
  World :: 'w
  Lim :: "limiter option"
  Ticks :: nat

abbreviation (input) defaultMaxCommandLine :: int where "defaultMaxCommandLine \<equiv> 8192"

definition SetMaxCommandLine :: "'w pop3_env \<Rightarrow> int \<Rightarrow> 'w pop3_env" where
  "SetMaxCommandLine e n = e\<lparr>MaxCommandLine := (if n < 0 then 0 else n)\<rparr>"

definition commandLineLimit :: "'w pop3_env \<Rightarrow> int" where
  "commandLineLimit e = (if MaxCommandLine e > 0 then MaxCommandLine e else defaultMaxCommandLine)"

definition reply :: "'w pop3_session \<Rightarrow> (ew \<Rightarrow> ew) \<Rightarrow> 'w pop3_session" where
  "reply c f = c\<lparr>W := f (W c)\<rparr>"

section \<open>The mailbox snapshot\<close>

definition openMailbox :: "'w pop3_env \<Rightarrow> 'w \<Rightarrow> go_string \<Rightarrow> mailbox option" where
  "openMailbox e st path =
     (case ListMessages e st path of
        None \<Rightarrow> None
      | Some msgs \<Rightarrow> Some \<lparr>MPath = path, Msgs = msgs, Deleted = replicate (length msgs) False\<rparr>)"

definition reset :: "mailbox \<Rightarrow> mailbox" where
  "reset mb = mb\<lparr>Deleted := map (\<lambda>_. False) (Deleted mb)\<rparr>"

fun count_live :: "message_info list \<Rightarrow> bool list \<Rightarrow> int" where
  "count_live (m # ms) (d # ds) = (if \<not> d then 1 else 0) + count_live ms ds"
| "count_live _ _ = 0"

fun size_live :: "message_info list \<Rightarrow> bool list \<Rightarrow> int" where
  "size_live (m # ms) (d # ds) = (if \<not> d then Size m else 0) + size_live ms ds"
| "size_live _ _ = 0"

definition mb_count :: "mailbox \<Rightarrow> int" where
  "mb_count mb = count_live (Msgs mb) (Deleted mb)"

definition totalSize :: "mailbox \<Rightarrow> int" where
  "totalSize mb = size_live (Msgs mb) (Deleted mb)"

definition mb_index :: "mailbox \<Rightarrow> go_string \<Rightarrow> nat option" where
  "mb_index mb arg =
     (case Atoi (TrimSpace arg) of
        None \<Rightarrow> None
      | Some n \<Rightarrow>
          if n < 1 \<or> n > int (length (Msgs mb)) \<or> Deleted mb ! (nat n - 1) then None else Some (nat n))"

fun list_lines :: "bool \<Rightarrow> nat \<Rightarrow> message_info list \<Rightarrow> bool list \<Rightarrow> ew \<Rightarrow> ew" where
  "list_lines uidl i (m # ms) (d # ds) w =
     list_lines uidl (i + 1) ms ds
       (if d then w else str w (two_numbers (int i + 1) (if uidl then uint (UID m) else Size m) @ CRLF))"
| "list_lines uidl i _ _ w = w"

definition mb_list :: "mailbox \<Rightarrow> go_string \<Rightarrow> bool \<Rightarrow> ew \<Rightarrow> ew" where
  "mb_list mb arg uidl w =
     (if TrimSpace arg \<noteq> [] then
        (case mb_index mb arg of
           None \<Rightarrow> errLine w (lit ''no such message'')
         | Some n \<Rightarrow>
             (let m = Msgs mb ! (n - 1) in
              ok w (two_numbers (int n) (if uidl then uint (UID m) else Size m))))
      else
        str (list_lines uidl 0 (Msgs mb) (Deleted mb) (ok w (Itoa (mb_count mb) @ lit '' messages''))) dot_line)"

text \<open>Byte stuffing: a dot that opens a line is doubled.\<close>

fun stuff_loop :: "bool \<Rightarrow> bytes \<Rightarrow> ew \<Rightarrow> ew" where
  "stuff_loop atLineStart [] w = w"
| "stuff_loop atLineStart (b # data) w =
     (let w = (if atLineStart \<and> b = 0x2E then str w [0x2E] else w) in
      stuff_loop (b = LF) data (str w [b]))"

definition writeDotStuffed :: "ew \<Rightarrow> bytes \<Rightarrow> ew" where
  "writeDotStuffed w data =
     (let w = stuff_loop True data w;
          w = (if data = [] \<or> last data \<noteq> LF then str w CRLF else w)
      in str w dot_line)"

definition retr :: "'w pop3_env \<Rightarrow> 'w \<Rightarrow> mailbox \<Rightarrow> go_string \<Rightarrow> ew \<Rightarrow> ew" where
  "retr e st mb arg w =
     (case mb_index mb arg of
        None \<Rightarrow> errLine w (lit ''no such message'')
      | Some n \<Rightarrow>
          (case GetMessageRaw e st (MPath mb) (UID (Msgs mb ! (n - 1))) of
             None \<Rightarrow> errLine w (lit ''[SYS/TEMP] retrieval failed'')
           | Some raw \<Rightarrow>
               writeDotStuffed (str w (lit ''+OK '' @ Itoa (int (length raw)) @ lit '' octets'' @ CRLF)) raw))"

text \<open>\<^verbatim>\<open>bytes.Index(data, "\r\n\r\n")\<close>.\<close>

fun index_sep :: "bytes \<Rightarrow> nat option" where
  "index_sep [] = None"
| "index_sep (b # bs) = (if take 4 (b # bs) = CRLF @ CRLF then Some 0 else map_option Suc (index_sep bs))"

text \<open>The loop over the body: \<open>line\<close> holds the bytes since the last line feed.\<close>

fun top_lines :: "bytes \<Rightarrow> nat \<Rightarrow> bytes \<Rightarrow> bytes \<Rightarrow> bytes" where
  "top_lines line n [] out = (if n > 0 \<and> line \<noteq> [] then out @ line else out)"
| "top_lines line 0 (b # body) out = out"
| "top_lines line (Suc n) (b # body) out =
     (if b = LF then top_lines [] n body (out @ line @ [b]) else top_lines (line @ [b]) (Suc n) body out)"

definition topBytes :: "bytes \<Rightarrow> nat \<Rightarrow> bytes" where
  "topBytes data n =
     (case index_sep data of
        None \<Rightarrow> data
      | Some idx \<Rightarrow> top_lines [] n (drop (idx + 4) data) (take (idx + 4) data))"

text \<open>\<^verbatim>\<open>strings.Fields\<close>.\<close>

fun fields_loop :: "go_string \<Rightarrow> go_string \<Rightarrow> go_string list" where
  "fields_loop cur [] = (if cur = [] then [] else [cur])"
| "fields_loop cur (b # bs) =
     (let w = snd (decode_rune b bs) in
      if isSpace (fst (decode_rune b bs)) then (if cur = [] then [] else [cur]) @ fields_loop [] (drop (w - 1) bs)
      else fields_loop (cur @ take w (b # bs)) (drop (w - 1) bs))"

definition Fields :: "go_string \<Rightarrow> go_string list" where
  "Fields s = fields_loop [] s"

definition mb_top :: "'w pop3_env \<Rightarrow> 'w \<Rightarrow> mailbox \<Rightarrow> go_string \<Rightarrow> ew \<Rightarrow> ew" where
  "mb_top e st mb arg w =
     (case Fields arg of
        [number, lines] \<Rightarrow>
          (case mb_index mb number of
             None \<Rightarrow> errLine w (lit ''no such message'')
           | Some n \<Rightarrow>
               (case Atoi lines of
                  None \<Rightarrow> errLine w (lit ''invalid line count'')
                | Some k \<Rightarrow>
                    if k < 0 then errLine w (lit ''invalid line count'')
                    else
                      (case GetMessageRaw e st (MPath mb) (UID (Msgs mb ! (n - 1))) of
                         None \<Rightarrow> errLine w (lit ''[SYS/TEMP] retrieval failed'')
                       | Some raw \<Rightarrow> writeDotStuffed (ok w []) (topBytes raw (nat k)))))
      | _ \<Rightarrow> errLine w (lit ''TOP requires a message number and a line count''))"

definition dele :: "mailbox \<Rightarrow> go_string \<Rightarrow> ew \<Rightarrow> mailbox \<times> ew" where
  "dele mb arg w =
     (case mb_index mb arg of
        None \<Rightarrow> (mb, errLine w (lit ''no such message''))
      | Some n \<Rightarrow>
          (mb\<lparr>Deleted := (Deleted mb)[n - 1 := True]\<rparr>, ok w (lit ''message '' @ Itoa (int n) @ lit '' deleted'')))"

fun commit_loop :: "'w pop3_env \<Rightarrow> go_string \<Rightarrow> message_info list \<Rightarrow> bool list \<Rightarrow> 'w \<Rightarrow> u32 list \<times> 'w" where
  "commit_loop e path (m # ms) (d # ds) st =
     (if \<not> d then commit_loop e path ms ds st
      else
        (let (deleted, st) = SoftDeleteMessage e st path (UID m); (failed, st) = commit_loop e path ms ds st
         in (if deleted then failed else UID m # failed, st)))"
| "commit_loop e path _ _ st = ([], st)"

definition commit :: "'w pop3_env \<Rightarrow> mailbox \<Rightarrow> 'w \<Rightarrow> u32 list \<times> 'w" where
  "commit e mb st = commit_loop e (MPath mb) (Msgs mb) (Deleted mb) st"

section \<open>Authentication\<close>

definition b64_value :: "u8 \<Rightarrow> nat option" where
  "b64_value c =
     (if 0x41 \<le> c \<and> c \<le> 0x5A then Some (unat c - 0x41)
      else if 0x61 \<le> c \<and> c \<le> 0x7A then Some (unat c - 0x61 + 26)
      else if 0x30 \<le> c \<and> c \<le> 0x39 then Some (unat c - 0x30 + 52)
      else if c = 0x2B then Some 62 else if c = 0x2F then Some 63 else None)"

fun b64_groups :: "bytes \<Rightarrow> bytes option" where
  "b64_groups [] = Some []"
| "b64_groups (a # b # c # d # rest) =
     (case (b64_value a, b64_value b) of
        (Some x, Some y) \<Rightarrow>
          if c = 0x3D then (if d = 0x3D \<and> rest = [] then Some [of_nat (x * 4 + y div 16)] else None)
          else
            (case b64_value c of
               None \<Rightarrow> None
             | Some z \<Rightarrow>
                 (let two = [of_nat (x * 4 + y div 16), of_nat (y mod 16 * 16 + z div 4)] in
                  if d = 0x3D then (if rest = [] then Some two else None)
                  else
                    (case (b64_value d, b64_groups rest) of
                       (Some v, Some more_bytes) \<Rightarrow> Some (two @ [of_nat (z mod 4 * 64 + v)] @ more_bytes)
                     | _ \<Rightarrow> None)))
      | _ \<Rightarrow> None)"
| "b64_groups _ = None"

text \<open>\<^verbatim>\<open>base64.StdEncoding.DecodeString\<close>: line breaks are ignored, padding is required.\<close>

definition DecodeString :: "go_string \<Rightarrow> bytes option" where
  "DecodeString s = b64_groups (filter (\<lambda>c. c \<noteq> CR \<and> c \<noteq> LF) s)"

definition finishAuth :: "'w pop3_env \<Rightarrow> 'w pop3_session \<Rightarrow> go_string \<Rightarrow> go_string \<Rightarrow> 'w pop3_session \<times> mailbox option" where
  "finishAuth e c user pass =
     (let t = Ticks c; addr = RemoteAddr e; c = c\<lparr>Ticks := t + 2\<rparr> in
      if (case Lim c of None \<Rightarrow> False | Some l \<Rightarrow> \<not> Allowed (Lower e) l (Clock e t) addr user)
      then (reply c (\<lambda>w. errLine w (lit ''[AUTH] too many failed attempts, try again later'')), None)
      else
        (case (if user = [] then None else AuthenticateClient e user pass) of
           None \<Rightarrow>
             (reply (c\<lparr>Lim := map_option (\<lambda>l. Fail (Lower e) l (Clock e (t + 1)) addr user) (Lim c)\<rparr>)
                (\<lambda>w. errLine w (lit ''[AUTH] authentication failed'')), None)
         | Some path \<Rightarrow>
             (let c = c\<lparr>Lim := map_option (\<lambda>l. Succeed (Lower e) l addr user) (Lim c)\<rparr> in
              if \<not> POP3IMAP e user
              then (reply c (\<lambda>w. errLine w (lit ''[AUTH] POP3/IMAP access is disabled for this account'')), None)
              else
                (case openMailbox e (World c) path of
                   None \<Rightarrow> (reply c (\<lambda>w. errLine w (lit ''[SYS/TEMP] mailbox unavailable'')), None)
                 | Some m \<Rightarrow> (reply c (\<lambda>w. ok w (Itoa (mb_count m) @ lit '' messages'')), Some m)))))"

definition saslResponse :: "'w pop3_env \<Rightarrow> 'w pop3_session \<Rightarrow> go_string \<Rightarrow> go_string \<Rightarrow> go_string option \<times> 'w pop3_session" where
  "saslResponse e c inline challenge =
     (if inline = lit ''='' then (Some [], c)
      else if inline = [] then
        (let c = reply c (\<lambda>w. str w (lit ''+ '' @ challenge @ CRLF)) in
         case ReadLine (Reader c) (commandLineLimit e) of
           (Inl _, r) \<Rightarrow> (None, c\<lparr>Reader := r\<rparr>)
         | (Inr line, r) \<Rightarrow> (if line = lit ''*'' then None else Some line, c\<lparr>Reader := r\<rparr>))
      else (if inline = lit ''*'' then None else Some inline, c))"

definition auth_err :: "'w pop3_session \<Rightarrow> string \<Rightarrow> 'w pop3_session \<times> (go_string \<times> mailbox) option" where
  "auth_err c msg = (reply c (\<lambda>w. errLine w (lit msg)), None)"

definition authPlain :: "'w pop3_env \<Rightarrow> 'w pop3_session \<Rightarrow> go_string \<Rightarrow> 'w pop3_session \<times> (go_string \<times> mailbox) option" where
  "authPlain e c initial =
     (case saslResponse e c initial [] of
        (None, c) \<Rightarrow> auth_err c ''[AUTH] authentication cancelled''
      | (Some resp, c) \<Rightarrow>
          (case DecodeString resp of
             None \<Rightarrow> auth_err c ''[AUTH] invalid base64''
           | Some raw \<Rightarrow>
               (case Split raw 0 of
                  [_, user, pass] \<Rightarrow> (case finishAuth e c user pass of (c, m) \<Rightarrow> (c, map_option (Pair user) m))
                | _ \<Rightarrow> auth_err c ''[AUTH] malformed PLAIN response'')))"

definition authLogin :: "'w pop3_env \<Rightarrow> 'w pop3_session \<Rightarrow> go_string \<Rightarrow> 'w pop3_session \<times> (go_string \<times> mailbox) option" where
  "authLogin e c initial =
     (case saslResponse e c initial (lit ''VXNlcm5hbWU6'') of
        (None, c) \<Rightarrow> auth_err c ''[AUTH] authentication cancelled''
      | (Some u, c) \<Rightarrow>
          (case DecodeString u of
             None \<Rightarrow> auth_err c ''[AUTH] invalid base64''
           | Some user \<Rightarrow>
               (case saslResponse e c [] (lit ''UGFzc3dvcmQ6'') of
                  (None, c) \<Rightarrow> auth_err c ''[AUTH] authentication cancelled''
                | (Some p, c) \<Rightarrow>
                    (case DecodeString p of
                       None \<Rightarrow> auth_err c ''[AUTH] invalid base64''
                     | Some pass \<Rightarrow> (case finishAuth e c user pass of (c, m) \<Rightarrow> (c, map_option (Pair user) m))))))"

definition authSASL :: "'w pop3_env \<Rightarrow> 'w pop3_session \<Rightarrow> go_string \<Rightarrow> 'w pop3_session \<times> (go_string \<times> mailbox) option" where
  "authSASL e c arg =
     (case Cut (TrimSpace arg) 0x20 of
        (mech, initial, _) \<Rightarrow>
          (let mech = ToUpper (Upper e) mech in
           if mech = [] then
             (reply c (\<lambda>w. str w (lit ''+OK'' @ CRLF @ lit ''PLAIN'' @ CRLF @ lit ''LOGIN'' @ CRLF @ dot_line)), None)
           else if mech = lit ''PLAIN'' then authPlain e c initial
           else if mech = lit ''LOGIN'' then authLogin e c initial
           else auth_err c ''[AUTH] unsupported authentication mechanism''))"

definition finishPass :: "'w pop3_env \<Rightarrow> 'w pop3_session \<Rightarrow> go_string \<Rightarrow> 'w pop3_session" where
  "finishPass e c pass =
     (case finishAuth e c (User c) pass of
        (c, None) \<Rightarrow> c\<lparr>User := []\<rparr>
      | (c, Some m) \<Rightarrow> c\<lparr>Mb := Some m\<rparr>)"

definition finishSASL :: "'w pop3_env \<Rightarrow> 'w pop3_session \<Rightarrow> go_string \<Rightarrow> 'w pop3_session" where
  "finishSASL e c arg =
     (case authSASL e c arg of
        (c, None) \<Rightarrow> c
      | (c, Some (user, m)) \<Rightarrow> c\<lparr>User := user, Mb := Some m\<rparr>)"

definition startTLS :: "'w pop3_env \<Rightarrow> 'w pop3_session \<Rightarrow> 'w pop3_session \<times> bool" where
  "startTLS e c =
     (if \<not> TLSConfig e \<or> IsTLS c then (reply c (\<lambda>w. errLine w (lit ''STLS not available'')), False)
      else if Buffered (Reader c) > 0 then (c, True)
      else
        (let c = reply c (\<lambda>w. ok w (lit ''begin TLS negotiation'')) in
         case Handshake e of
           None \<Rightarrow> (c, True)
         | Some (r, room) \<Rightarrow>
             (c\<lparr>W := \<lparr>Out = [], Room = room, Werr = False\<rparr>, Reader := r, IsTLS := True, User := []\<rparr>, False)))"

section \<open>Commands\<close>

definition writeCapa :: "'w pop3_env \<Rightarrow> bool \<Rightarrow> ew \<Rightarrow> ew" where
  "writeCapa e isTLS w =
     str w (lit ''+OK Capability list follows'' @ CRLF @ lit ''TOP'' @ CRLF @ lit ''USER'' @ CRLF @ lit ''UIDL'' @ CRLF
       @ lit ''SASL PLAIN LOGIN'' @ CRLF @ lit ''PIPELINING'' @ CRLF @ lit ''RESP-CODES'' @ CRLF @ lit ''LOGIN-DELAY 0'' @ CRLF
       @ lit ''EXPIRE NEVER'' @ CRLF @ lit ''UTF8'' @ CRLF @ lit ''LANG'' @ CRLF
       @ (if TLSConfig e \<and> \<not> isTLS then lit ''STLS'' @ CRLF else [])
       @ lit ''IMPLEMENTATION hermEX'' @ CRLF @ dot_line)"

definition writeLang :: "'w pop3_env \<Rightarrow> go_string \<Rightarrow> ew \<Rightarrow> ew" where
  "writeLang e arg w =
     (let arg = TrimSpace arg; low = ToLower (Lower e) arg in
      if arg = [] then str w (lit ''+OK Language listing follows:'' @ CRLF @ lit ''en English'' @ CRLF @ dot_line)
      else if arg = lit ''*'' \<or> low = lit ''en'' \<or> take 3 low = lit ''en-'' then ok w (lit ''en Responses will be in English'')
      else errLine w (lit ''invalid language, only en is available''))"

definition authCommand :: "'w pop3_env \<Rightarrow> 'w pop3_session \<Rightarrow> go_string \<Rightarrow> go_string \<Rightarrow> 'w pop3_session \<times> bool" where
  "authCommand e c cmd arg =
     (if cmd = lit ''USER'' then (reply (c\<lparr>User := arg\<rparr>) (\<lambda>w. ok w []), False)
      else if cmd = lit ''PASS'' then (finishPass e c arg, False)
      else if cmd = lit ''AUTH'' then (finishSASL e c arg, False)
      else if cmd = lit ''UTF8'' then (reply c (\<lambda>w. ok w (lit ''UTF-8 mode enabled'')), False)
      else if cmd = lit ''STLS'' then startTLS e c
      else if cmd = lit ''QUIT'' then (reply c (\<lambda>w. ok w (lit ''bye'')), True)
      else (reply c (\<lambda>w. errLine w (lit ''command not allowed before authentication'')), False))"

definition quit :: "'w pop3_env \<Rightarrow> 'w pop3_session \<Rightarrow> mailbox \<Rightarrow> 'w pop3_session" where
  "quit e c mb = reply (c\<lparr>World := snd (commit e mb (World c))\<rparr>) (\<lambda>w. ok w (lit ''bye''))"

definition transactionCommand :: "'w pop3_env \<Rightarrow> 'w pop3_session \<Rightarrow> mailbox \<Rightarrow> go_string \<Rightarrow> go_string \<Rightarrow> 'w pop3_session \<times> bool" where
  "transactionCommand e c mb cmd arg =
     (if cmd = lit ''QUIT'' then (quit e c mb, True)
      else if cmd = lit ''STAT'' then (reply c (\<lambda>w. ok w (two_numbers (mb_count mb) (totalSize mb))), False)
      else if cmd = lit ''LIST'' then (reply c (mb_list mb arg False), False)
      else if cmd = lit ''UIDL'' then (reply c (mb_list mb arg True), False)
      else if cmd = lit ''TOP'' then (reply c (mb_top e (World c) mb arg), False)
      else if cmd = lit ''RETR'' then (reply c (retr e (World c) mb arg), False)
      else if cmd = lit ''DELE'' then (case dele mb arg (W c) of (mb, w) \<Rightarrow> (c\<lparr>Mb := Some mb, W := w\<rparr>, False))
      else if cmd = lit ''RSET'' then (reply (c\<lparr>Mb := Some (reset mb)\<rparr>) (\<lambda>w. ok w []), False)
      else if cmd = lit ''NOOP'' then (reply c (\<lambda>w. ok w []), False)
      else (reply c (\<lambda>w. errLine w (lit ''unknown command'')), False))"

definition command :: "'w pop3_env \<Rightarrow> 'w pop3_session \<Rightarrow> go_string \<Rightarrow> go_string \<Rightarrow> 'w pop3_session \<times> bool" where
  "command e c cmd arg =
     (if cmd = lit ''CAPA'' then (reply c (writeCapa e (IsTLS c)), False)
      else if cmd = lit ''LANG'' then (reply c (writeLang e arg), False)
      else
        (case Mb c of
           None \<Rightarrow> authCommand e c cmd arg
         | Some mb \<Rightarrow> transactionCommand e c mb cmd arg))"

text \<open>One turn of the serving loop; the flag tells that the session ends.\<close>

definition serve_turn :: "'w pop3_env \<Rightarrow> 'w pop3_session \<Rightarrow> 'w pop3_session \<times> bool" where
  "serve_turn e c =
     (case ReadLine (Reader c) (commandLineLimit e) of
        (Inl ErrTooLong, r) \<Rightarrow>
          (let c = reply (c\<lparr>Reader := r\<rparr>) (\<lambda>w. errLine w (lit ''command line too long'')) in (c, Werr (W c)))
      | (Inl EOF, r) \<Rightarrow> (c\<lparr>Reader := r\<rparr>, True)
      | (Inr line, r) \<Rightarrow>
          (let c = c\<lparr>Reader := r\<rparr> in
           if Werr (W c) then (c, True)
           else (case Cut line 0x20 of (cmd, arg, _) \<Rightarrow> command e c (ToUpper (Upper e) cmd) arg)))"

definition handle :: "line_reader \<Rightarrow> nat \<Rightarrow> bool \<Rightarrow> 'w \<Rightarrow> limiter option \<Rightarrow> 'w pop3_session" where
  "handle r room isTLS st lim =
     reply \<lparr>Reader = r, W = \<lparr>Out = [], Room = room, Werr = False\<rparr>, IsTLS = isTLS, User = [], Mb = None, World = st, Lim = lim, Ticks = 0\<rparr>
       (\<lambda>w. ok w (lit ''hermEX POP3 ready''))"

end
