(* ===== verification/Pop3_Laws.thy ===== *)
theory Pop3_Laws
  imports Pop3
begin

text \<open>
  What a POP3 session guarantees: message text survives the byte stuffing, TOP is a prefix by lines, the mailbox is
  opened only for a user the directory accepted, deletions reach the store only at QUIT, and every session ends.
\<close>

section \<open>Writing\<close>












section \<open>TOP\<close>

text \<open>The lines of a text, each with its line feed.\<close>

fun text_lines :: "bytes \<Rightarrow> bytes \<Rightarrow> bytes list" where
  "text_lines line [] = (if line = [] then [] else [line])"
| "text_lines line (b # body) = (if b = LF then (line @ [b]) # text_lines [] body else text_lines (line @ [b]) body)"

lemma top_lines_take: "n > 0 \<or> line = [] \<Longrightarrow> top_lines line n body out = out @ concat (take n (text_lines line body))"
  by (induction line n body out rule: top_lines.induct) (auto simp: take_Cons' split: if_splits)

lemma concat_text_lines: "concat (text_lines line body) = line @ body"
  by (induction line body rule: text_lines.induct) auto

text \<open>
  TOP answers with the whole header block and exactly the first lines of the body that were asked for: the result
  is the header followed by the first \<open>n\<close> lines, always a prefix of the message, and a message without a blank line is
  all header.
\<close>

lemma topBytes_first_lines:
  "topBytes data n =
     (case index_sep data of
        None \<Rightarrow> data
      | Some i \<Rightarrow> take (i + 4) data @ concat (take n (text_lines [] (drop (i + 4) data))))
   \<and> (\<exists>rest. data = topBytes data n @ rest)"
proof -
  have t: "topBytes data n = (case index_sep data of None \<Rightarrow> data
      | Some i \<Rightarrow> take (i + 4) data @ concat (take n (text_lines [] (drop (i + 4) data))))"
    by (simp add: topBytes_def top_lines_take split: option.split)
  have "\<exists>rest. data = topBytes data n @ rest"
  proof (cases "index_sep data")
    case (Some i)
    let ?ls = "text_lines [] (drop (i + 4) data)"
    have "drop (i + 4) data = concat (take n ?ls) @ concat (drop n ?ls)"
      by (metis append_take_drop_id append_Nil concat_append concat_text_lines)
    then have "data = take (i + 4) data @ concat (take n ?ls) @ concat (drop n ?ls)" by (metis append_take_drop_id)
    then show ?thesis unfolding t using Some by auto
  qed (simp add: t)
  with t show ?thesis by blast
qed

section \<open>What a turn changes\<close>

lemma reply_fields [simp]:
  "Reader (reply c f) = Reader c" "IsTLS (reply c f) = IsTLS c" "User (reply c f) = User c" "Mb (reply c f) = Mb c"
  "World (reply c f) = World c" "Lim (reply c f) = Lim c" "W (reply c f) = f (W c)"
  by (simp_all add: reply_def)

definition frame :: "'w pop3_session \<Rightarrow> 'w pop3_session \<Rightarrow> bool" where
  "frame c c' \<longleftrightarrow> World c' = World c \<and> Mb c' = Mb c \<and> IsTLS c' = IsTLS c
     \<and> length (pending (Reader c')) \<le> length (pending (Reader c))"

lemma frame_refl: "frame c c"
  by (simp add: frame_def)

lemma frame_reply: "frame c (reply c f)"
  by (simp add: frame_def)

lemma frame_trans: "frame a b \<Longrightarrow> frame b c \<Longrightarrow> frame a c"
  by (simp add: frame_def)

lemma ReadLine_shorter:
  assumes "ReadLine r limit = (res, r')"
  shows "length (pending r') \<le> length (pending r)" "res \<noteq> Inl EOF \<Longrightarrow> length (pending r') < length (pending r)"
proof -
  have f: "(res, pending r') = flat_line limit (pending r)" using ReadLine_flat [of r limit] assms by simp
  have "LF \<in> set (pending r) \<Longrightarrow> 0 < length (pending r)" by (cases "pending r") auto
  with f show "length (pending r') \<le> length (pending r)" "res \<noteq> Inl EOF \<Longrightarrow> length (pending r') < length (pending r)"
    by (auto simp: flat_line_def Let_def split: if_splits)
qed

text \<open>A mailbox the server may show to a user: the directory accepted the user, and the snapshot is that of the store.\<close>

definition authorized :: "'w pop3_env \<Rightarrow> 'w \<Rightarrow> go_string \<Rightarrow> mailbox \<Rightarrow> bool" where
  "authorized e st user m \<longleftrightarrow> user \<noteq> [] \<and> (\<exists>pass. AuthenticateClient e user pass = Some (MPath m)) \<and> POP3IMAP e user
     \<and> openMailbox e st (MPath m) = Some (reset m) \<and> length (Deleted m) = length (Msgs m)"

lemma openMailbox_fresh: "openMailbox e st path = Some m \<Longrightarrow> MPath m = path \<and> reset m = m \<and> length (Deleted m) = length (Msgs m)"
  by (auto simp: openMailbox_def reset_def map_replicate_const split: option.splits)

lemma finishAuth_frame:
  assumes "finishAuth e c user pass = (c', m)"
  shows "frame c c'" "User c' = User c" "m = Some mb \<Longrightarrow> authorized e (World c) user mb"
proof -
  show "frame c c'" "User c' = User c"
    using assms by (auto simp: finishAuth_def Let_def frame_def split: if_splits option.splits)
  show "authorized e (World c) user mb" if "m = Some mb"
    using assms that openMailbox_fresh [of e "World c"]
    by (auto simp: finishAuth_def Let_def authorized_def split: if_splits option.splits)
qed

lemma saslResponse_frame:
  assumes "saslResponse e c inline challenge = (res, c')"
  shows "frame c c'"
  using assms ReadLine_shorter(1) [of "Reader c" "commandLineLimit e"]
  by (auto simp: saslResponse_def Let_def frame_def split: if_splits prod.splits sum.splits)

lemma auth_err_frame: "auth_err c msg = (c', m) \<Longrightarrow> frame c c' \<and> m = None"
  by (auto simp: auth_err_def frame_reply)

lemma frame_world: "frame c c' \<Longrightarrow> World c' = World c"
  by (simp add: frame_def)

definition login_ok :: "'w pop3_env \<Rightarrow> 'w pop3_session \<Rightarrow> 'w pop3_session \<times> (go_string \<times> mailbox) option \<Rightarrow> bool" where
  "login_ok e c res \<longleftrightarrow> frame c (fst res) \<and> (\<forall>u m. snd res = Some (u, m) \<longrightarrow> authorized e (World c) u m)"

lemma login_ok_err: "login_ok e c (auth_err c msg)"
  by (simp add: login_ok_def auth_err_def frame_reply)

lemma login_ok_auth: "login_ok e c (case finishAuth e c user pass of (c, m) \<Rightarrow> (c, map_option (Pair user) m))"
  using finishAuth_frame [of e c user pass] by (cases "finishAuth e c user pass") (auto simp: login_ok_def)

lemma login_ok_trans: "frame c c' \<Longrightarrow> login_ok e c' res \<Longrightarrow> login_ok e c res"
  by (auto simp: login_ok_def frame_def)

lemma authPlain_ok: "login_ok e c (authPlain e c initial)"
proof -
  obtain res c' where s: "saslResponse e c initial [] = (res, c')" by (cases "saslResponse e c initial []")
  have "login_ok e c' (authPlain e c initial)"
    by (auto simp: authPlain_def s login_ok_err login_ok_auth split: option.split list.split)
  then show ?thesis using saslResponse_frame [OF s] login_ok_trans by blast
qed

lemma authLogin_ok: "login_ok e c (authLogin e c initial)"
proof -
  obtain res c1 where s: "saslResponse e c initial (lit ''VXNlcm5hbWU6'') = (res, c1)" by (metis surj_pair)
  obtain res2 c2 where t: "saslResponse e c1 [] (lit ''UGFzc3dvcmQ6'') = (res2, c2)" by (metis surj_pair)
  have "login_ok e c2 x \<Longrightarrow> login_ok e c1 x" for x using saslResponse_frame [OF t] login_ok_trans by blast
  then have "login_ok e c1 (authLogin e c initial)"
    unfolding authLogin_def s by (simp add: t login_ok_err login_ok_auth del: lit_simps split: option.split)
  then show ?thesis using saslResponse_frame [OF s] login_ok_trans by blast
qed

lemma authSASL_ok: "login_ok e c (authSASL e c arg)"
  using authPlain_ok [of e c] authLogin_ok [of e c] login_ok_err [of e c]
  by (auto simp: authSASL_def Let_def login_ok_def frame_reply split: prod.split)

section \<open>Sessions\<close>

inductive pop3_run :: "'w pop3_env \<Rightarrow> 'w pop3_session \<Rightarrow> 'w pop3_session \<Rightarrow> bool" for e where
  start: "pop3_run e c c"
| turn: "pop3_run e c c' \<Longrightarrow> serve_turn e c' = (c'', False) \<Longrightarrow> pop3_run e c c''"

definition session_ok :: "'w pop3_env \<Rightarrow> 'w \<Rightarrow> 'w pop3_session \<Rightarrow> bool" where
  "session_ok e st c \<longleftrightarrow> World c = st \<and> (\<forall>m. Mb c = Some m \<longrightarrow> authorized e st (User c) m)"

definition rank :: "'w pop3_session \<Rightarrow> nat \<times> nat" where
  "rank c = (if IsTLS c then 0 else 1, length (pending (Reader c)))"

definition rank_le :: "'w pop3_session \<Rightarrow> 'w pop3_session \<Rightarrow> bool" where
  "rank_le c' c \<longleftrightarrow> fst (rank c') < fst (rank c) \<or> fst (rank c') = fst (rank c) \<and> snd (rank c') \<le> snd (rank c)"

lemma frame_rank: "frame c c' \<Longrightarrow> rank_le c' c"
  by (simp add: frame_def rank_le_def rank_def)

lemma authorized_marks:
  assumes "authorized e st user m" "reset m' = reset m" "length (Deleted m') = length (Msgs m')" "MPath m' = MPath m"
  shows "authorized e st user m'"
  using assms by (simp add: authorized_def)

lemma dele_authorized:
  assumes "authorized e st user m" "dele m arg w = (m', w')"
  shows "authorized e st user m'"
proof (rule authorized_marks [OF assms(1)])
  show "reset m' = reset m" "MPath m' = MPath m"
    using assms(2) by (auto simp: dele_def reset_def map_update list_update_same_conv map_replicate_const split: option.splits)
  show "length (Deleted m') = length (Msgs m')"
    using assms by (auto simp: dele_def authorized_def split: option.splits)
qed

lemma reset_authorized: "authorized e st user m \<Longrightarrow> authorized e st user (reset m)"
  by (rule authorized_marks) (auto simp: reset_def authorized_def comp_def)

lemma authCommand_ok:
  assumes "authCommand e c cmd arg = (c', ended)" "session_ok e st c" "Mb c = None"
  shows "session_ok e st c'" "rank_le c' c"
proof -
  have w: "World c = st" using assms(2) by (simp add: session_ok_def)
  have p: "session_ok e st (finishPass e c arg) \<and> rank_le (finishPass e c arg) c"
    using finishAuth_frame [of e c "User c" arg] w assms(3)
    by (cases "finishAuth e c (User c) arg")
      (auto simp: finishPass_def session_ok_def frame_def rank_le_def rank_def split: option.splits)
  have s: "session_ok e st (finishSASL e c arg) \<and> rank_le (finishSASL e c arg) c"
    using authSASL_ok [of e c arg] w assms(3)
    by (cases "authSASL e c arg")
      (auto simp: finishSASL_def session_ok_def login_ok_def frame_def rank_le_def rank_def split: option.splits)
  have r: "session_ok e st (reply q f) \<and> rank_le (reply q f) c" if "q = c \<or> q = c\<lparr>User := arg\<rparr>" for q f
    using that assms(3) w by (auto simp: session_ok_def rank_le_def rank_def)
  have t: "session_ok e st x \<and> rank_le x c" if "startTLS e c = (x, b)" for x b
    using that assms(3) w
    by (auto simp: startTLS_def Let_def session_ok_def rank_le_def rank_def simp del: lit_simps split: if_splits option.splits prod.splits)
  show "session_ok e st c'" "rank_le c' c"
    using assms(1) p s r t unfolding authCommand_def by (auto simp del: lit_simps split: if_splits)
qed

lemma transactionCommand_ok:
  assumes "transactionCommand e c m cmd arg = (c', ended)" "session_ok e st c" "Mb c = Some m"
  shows "if cmd = lit ''QUIT'' then ended \<and> World c' = snd (commit e m st) else \<not> ended \<and> session_ok e st c'" "rank_le c' c"
proof -
  have a: "World c = st" "authorized e st (User c) m" using assms(2,3) by (simp_all add: session_ok_def)
  obtain m' w' where d: "dele m arg (W c) = (m', w')" by (cases "dele m arg (W c)")
  note dele_authorized [OF a(2) d] reset_authorized [OF a(2)]
  then show "if cmd = lit ''QUIT'' then ended \<and> World c' = snd (commit e m st) else \<not> ended \<and> session_ok e st c'" "rank_le c' c"
    using assms(1,3) a unfolding transactionCommand_def d
    by (auto simp: quit_def session_ok_def rank_le_def rank_def simp del: lit_simps split: if_splits)
qed

text \<open>The next line of the connection is a QUIT.\<close>

definition next_is_quit :: "'w pop3_env \<Rightarrow> 'w pop3_session \<Rightarrow> bool" where
  "next_is_quit e c \<longleftrightarrow>
     (case fst (ReadLine (Reader c) (commandLineLimit e)) of
        Inr line \<Rightarrow> ToUpper (Upper e) (fst (Cut line 0x20)) = lit ''QUIT''
      | Inl _ \<Rightarrow> False)"

lemma pop3_command_ok:
  assumes "command e c cmd arg = (c', ended)" "session_ok e st c"
  shows "rank_le c' c \<and>
    (if cmd = lit ''QUIT'' \<and> Mb c \<noteq> None then ended \<and> World c' = snd (commit e (the (Mb c)) st) else session_ok e st c')"
proof (cases "cmd = lit ''CAPA'' \<or> cmd = lit ''LANG''")
  case True
  then obtain f where "c' = reply c f" "cmd \<noteq> lit ''QUIT''" using assms(1) by (auto simp: command_def)
  then show ?thesis using assms(2) frame_rank [OF frame_reply] by (simp add: session_ok_def del: lit_simps)
next
  case False
  show ?thesis
  proof (cases "Mb c")
    case None
    then have "authCommand e c cmd arg = (c', ended)" using assms(1) False unfolding command_def by simp
    from authCommand_ok [OF this assms(2) None] show ?thesis using None by simp
  next
    case (Some m)
    then have "transactionCommand e c m cmd arg = (c', ended)" using assms(1) False unfolding command_def by simp
    from transactionCommand_ok [OF this assms(2) Some] show ?thesis using Some by (simp del: lit_simps split: if_splits)
  qed
qed

lemma serve_turn_ok:
  assumes "serve_turn e c = (c', ended)" "session_ok e st c"
  shows "session_ok e st c' \<or> ended \<and> next_is_quit e c \<and> (\<exists>m. Mb c = Some m \<and> World c' = snd (commit e m st))"
    "\<not> ended \<Longrightarrow> (rank c', rank c) \<in> less_than <*lex*> less_than"
proof -
  obtain res r where r: "ReadLine (Reader c) (commandLineLimit e) = (res, r)" by (cases "ReadLine (Reader c) (commandLineLimit e)")
  let ?c = "c\<lparr>Reader := r\<rparr>"
  note sh = ReadLine_shorter [OF r]
  have ok: "session_ok e st ?c" using assms(2) by (simp add: session_ok_def)
  have "(session_ok e st c' \<or> ended \<and> next_is_quit e c \<and> (\<exists>m. Mb c = Some m \<and> World c' = snd (commit e m st)))
    \<and> (\<not> ended \<longrightarrow> (rank c', rank c) \<in> less_than <*lex*> less_than)"
  proof (cases "\<exists>line. res = Inr line \<and> \<not> Werr (W c)")
    case True
    then obtain line cmd arg k where l: "res = Inr line" "\<not> Werr (W c)" "Cut line 0x20 = (cmd, arg, k)" by (metis prod_cases3)
    then have x: "command e ?c (ToUpper (Upper e) cmd) arg = (c', ended)" using assms(1) by (simp add: serve_turn_def r)
    have q: "next_is_quit e c \<longleftrightarrow> ToUpper (Upper e) cmd = lit ''QUIT''" by (simp add: next_is_quit_def r l del: lit_simps)
    have "snd (rank ?c) < snd (rank c)" "fst (rank ?c) = fst (rank c)" using sh(2) l(1) by (simp_all add: rank_def)
    then have "rank_le c' ?c \<Longrightarrow> (rank c', rank c) \<in> less_than <*lex*> less_than"
      by (cases "rank c'"; cases "rank c"; cases "rank ?c") (auto simp: rank_le_def)
    then show ?thesis using pop3_command_ok [OF x ok] q by (auto simp del: lit_simps split: if_splits)
  next
    case False
    then show ?thesis using assms(1) ok sh(2)
      by (cases res) (auto simp: serve_turn_def r Let_def session_ok_def rank_def split: line_error.splits if_splits)
  qed
  then show "session_ok e st c' \<or> ended \<and> next_is_quit e c \<and> (\<exists>m. Mb c = Some m \<and> World c' = snd (commit e m st))"
    "\<not> ended \<Longrightarrow> (rank c', rank c) \<in> less_than <*lex*> less_than" by simp_all
qed

lemma handle_ok: "session_ok e st (handle r room isTLS st lim)"
  by (simp add: session_ok_def handle_def)




section \<open>A sample session\<close>











text \<open>
  C31. Every session ends: on a finite connection, before and after a TLS upgrade, the serving loop reaches a turn that
  closes it.
\<close>

theorem pop3_session_ends: "\<exists>c c'. pop3_run e (handle r room isTLS st lim) c \<and> serve_turn e c = (c', True)"
proof -
  have "session_ok e st c \<Longrightarrow> pop3_run e c0 c \<Longrightarrow> \<exists>c c'. pop3_run e c0 c \<and> serve_turn e c = (c', True)" for c c0
  proof (induction "rank c" arbitrary: c rule: wf_induct_rule [OF wf_lex_prod [OF wf_less_than wf_less_than]])
    case 1
    obtain c' ended where t: "serve_turn e c = (c', ended)" by (cases "serve_turn e c")
    show ?case
    proof (cases ended)
      case True
      then have "serve_turn e c = (c', True)" using t by simp
      then show ?thesis using "1.prems"(2) by blast
    next
      case False
      have "session_ok e st c'" "pop3_run e c0 c'"
        using serve_turn_ok(1) [OF t "1.prems"(1)] False t "1.prems"(2) by (auto intro: pop3_run.turn)
      moreover have "(rank c', rank c) \<in> less_than <*lex*> less_than" using serve_turn_ok(2) [OF t "1.prems"(1)] False .
      ultimately show ?thesis using "1.hyps" by blast
    qed
  qed
  from this [OF handle_ok pop3_run.start] show ?thesis .
qed

end
