(* ===== verification/Spec2Isabelle.thy ===== *)
theory Spec2Isabelle
  imports Mapi Ext_Codec Ics_Transport Ropbuf Wbxml Series_Blob Authlimit Connlimit Httplimit Imap_Seqset Pop3_Laws
begin

text \<open>
  Verification library for hermEX, a groupware server that speaks the Exchange wire protocols, ActiveSync, POP3 and
  IMAP over one message store.

  \<^bold>\<open>The program and the theories.\<close> Names of files are relative to \<^verbatim>\<open>src/internal\<close>; definitions keep the names of the Go
  functions they translate, with a prefix where two packages or a HOL constant share one.

  \<^item> \<open>Hx_Prelude\<close>, \<open>Go_Text\<close>, \<open>Go_Strings\<close>, \<open>Go_Maps\<close>, \<open>Go_Time\<close>: the Go language and standard library as the code uses them.
    Unsigned integers are words of their width, an error result is the left side of a sum with \<open>bindr\<close> for the early
    return, a string is its bytes, a map with bounded size is an association list with distinct keys, a time is a wall
    clock with a fixed offset.
  \<^item> \<open>Mapi\<close> (\<^verbatim>\<open>mapi\<close>): identifiers, change numbers, GUIDs, property tags, the property bag, NT times, folder rights.
    The bag is the interface \<open>prop_bag\<close>, interpreted on \<open>Get\<close>, \<open>SetProp\<close> and \<open>RemoveProp\<close>.
  \<^item> \<open>Ext_Core\<close>, \<open>Ext_Ids\<close>, \<open>Ext_Values\<close>, \<open>Ext_Read\<close>, \<open>Ext_Codec\<close> (\<^verbatim>\<open>ext\<close>): the write and read buffers and every property
    value, entry id, restriction, rule action, row and flagged column of the wire codec, under every encoding flag.
    \<open>Ext_Trip\<close>, \<open>Ext_Wire\<close> and \<open>Ext_Action\<close> hold the round-trip rules: the interface \<open>codec\<close> and its interpretations for the
    fields, and the relational rules \<open>trip\<close> and \<open>mtrip\<close> for the recursive structures.
  \<^item> \<open>Ics_Globset\<close>, \<open>Ics_Globcodec\<close>, \<open>Ics_Idset\<close>, \<open>Ics_State\<close> (\<^verbatim>\<open>ics\<close>): range sets, the GLOBSET byte code, id sets with their
    replica mapping (interfaces \<open>id_collection\<close> and \<open>replica_mapping\<close>), the synchronisation state. \<open>Ics_Stream\<close> and
    \<open>Ics_Transport\<close>: the FastTransfer element codec, the producer that serves it in buffers and the parser that is fed
    chunks.
  \<^item> \<open>Lzxpress\<close> (\<^verbatim>\<open>lzxpress\<close>) and \<open>Ropbuf\<close> (\<^verbatim>\<open>oxmapihttp/ropbuf.go\<close>): the compression of ROP buffers and the Execute framing
    around it. \<open>Wbxml\<close> (\<^verbatim>\<open>wbxml\<close>): ActiveSync binary XML in both directions.
  \<^item> \<open>Recur_Rule\<close>, \<open>Recur_Appt\<close> (\<^verbatim>\<open>recurrence\<close>): RRULE text, the binary recurrence pattern, the appointment recurrence with its
    exceptions (its reader is a state monad over the blob); \<open>Series_Blob\<close> (\<^verbatim>\<open>oxcical/seriesblob.go\<close>): the edit of one occurrence.
    \<open>Recur_Laws\<close>, \<open>Recur_Text\<close> and \<open>Recur_Trip\<close> hold the calendar arithmetic, the printing and parsing laws and the conversions.
  \<^item> \<open>Authlimit\<close>, \<open>Connlimit\<close>, \<open>Httplimit\<close> (\<^verbatim>\<open>authlimit\<close>, \<^verbatim>\<open>connlimit\<close>, \<^verbatim>\<open>httplimit\<close> and their settings in \<^verbatim>\<open>directory\<close>): the abuse
    limiters, each a record with one definition per method and an inductive set of reachable states; the mutex makes
    every method one step, and clock readings are arguments. Times are unbounded integers, durations that the settings
    give in seconds wrap at 64 bits as in Go.
  \<^item> \<open>Imap_Seqset\<close> (\<^verbatim>\<open>imap/seqset.go\<close>): sequence sets. \<open>Netline\<close> (\<^verbatim>\<open>netline\<close>): bounded line reading over a buffered reader whose network
    reads are explicit. \<open>Pop3\<close> and \<open>Pop3_Laws\<close> (\<^verbatim>\<open>pop3/server.go\<close>): one POP3 connection. The session is a record, each command
    a function on it, \<open>serve_turn\<close> one round of the serving loop, and \<open>pop3_run\<close> the reachable sessions. The session calls
    the failed-login limiter of \<open>Authlimit\<close> and the line reader of \<open>Netline\<close>.

  \<^bold>\<open>How the parts interact.\<close> A POP3 or IMAP connection passes the gate of \<open>Connlimit\<close>, reads lines through \<open>Netline\<close> and logs in
  through \<open>Authlimit\<close>. A MAPI request passes \<open>Httplimit\<close>, is unframed by \<open>Ropbuf\<close> (with \<open>Lzxpress\<close>), carries values coded
  by \<open>Ext_Codec\<close> over the model of \<open>Mapi\<close>, and synchronises with the sets and streams of the \<open>Ics\<close> theories. Calendar
  items reach Outlook through the blobs of \<open>Recur_Appt\<close> and phones through \<open>Wbxml\<close>.

  \<^bold>\<open>What the theorems show.\<close> Round trips of every codec, for all values that satisfy the stated well-formedness, with what follows the encoding
  left untouched; refinement of id sets and of the property bag by mathematical sets and maps; termination of the recursive
  decoders on every input; completeness of a FastTransfer under any buffer sizes and of line reading under any network
  reads; exactness of the limiters over interleaved clients; authorization, deferred deletion and termination of a
  POP3 session; and, where the code does less than its comments say, theorems that state the exact behaviour:
  merging after an inverted range, multivalues cut by a chunk, unlimited nesting of rule actions, instances moved to the
  same day, end dates modulo $2^{32}$.

  \<^bold>\<open>Bounds.\<close> The two recursive-descent decoders (\<open>PullPropValue\<close> with \<open>PullRestriction\<close>, and \<open>Unmarshal\<close>) take a recursion
  bound in the model, twice the length of the input plus one or two: between two nested calls that consume no input there is
  at most one other, and each read moves the cursor forward. The bounds are proved never to be reached, and the
  unbounded equations of the source are proved. A receiver of a FastTransfer stream takes at most as many elements from a buffer as it has bytes, and every element has at least four. All
  other loops are structural recursions or functions with a termination proof.

  \<^bold>\<open>Parameters.\<close> The Unicode case tables, the zone database, the order in which \<^verbatim>\<open>sort.Slice\<close> leaves equal keys, the clock,
  and for POP3 the directory, the SQL message store (changed by this session only) and the TLS handshake are arguments of the definitions.

  \<^bold>\<open>Not modelled.\<close> The SQL stores and the directory, listeners, goroutine tracking and shutdown, log records, the HTTP
  handlers, the MIME, iCalendar and vCard converters, SMTP and the IMAP commands, cryptography and TLS, the browser client:
  their behaviour is that of a database, a socket or a library outside the repository, or they are left for a later version.
\<close>

end
